(* ===== verification/Prelude.thy ===== *)
theory Prelude
  imports Main "HOL-Library.Word" "HOL-Library.Sublist"
begin

text \<open>
  Shared material of the development: the Go machine integers and byte slices, the
  big-endian codecs of \<open>encoding/binary\<close>, the binary search of \<open>sort.Search\<close>, the
  decimal rendering of \<open>fmt\<close>, error values, and the operating-system file that the
  storage packages write to.

  Conventions. \<open>byte\<close>, \<open>uint32\<close> and \<open>uint64\<close> are words of their width, so that \<open>+\<close>
  wraps as in Go. An \<open>int64\<close> is an \<open>int\<close> and each addition on it goes through
  \<open>int64\<close>, which wraps to 64 signed bits. Errors are values. A system call that can
  fail consults a fault schedule (type \<open>faults\<close>), so both outcomes are modelled.
\<close>

unbundle bit_operations_syntax

section \<open>Machine integers and byte slices\<close>

type_synonym byte = "8 word"
type_synonym bytes = "byte list"
type_synonym u32 = "32 word"
type_synonym u64 = "64 word"

named_theorems go_codec \<open>round trips and widths of the big-endian codecs\<close>
named_theorems go_file \<open>behaviour of the file operations\<close>

text \<open>The \<open>int64\<close> conversion: two's complement wrap-around at 64 bits.\<close>

definition int64 :: "int \<Rightarrow> int" where
  "int64 x = signed_take_bit 63 x"

lemma int64_id: "- (2 ^ 63) \<le> x \<Longrightarrow> x < 2 ^ 63 \<Longrightarrow> int64 x = x"
  by (simp add: int64_def signed_take_bit_int_eq_self)

lemma int64_nonneg: "0 \<le> x \<Longrightarrow> x < 2 ^ 63 \<Longrightarrow> int64 x = x"
  by (rule int64_id) simp_all

lemma int64_less: "int64 x < 2 ^ 63"
  unfolding int64_def by (rule signed_take_bit_int_less_exp)

text \<open>A sum that leaves the range once comes out negative.\<close>

lemma int64_wrap:
  assumes "2 ^ 63 \<le> x" "x < 2 ^ 64"
  shows "int64 x < 0"
proof -
  have "int64 x \<le> x - 2 ^ Suc 63"
    unfolding int64_def using assms(1) by (rule signed_take_bit_int_less_eq)
  then show ?thesis using assms(2) by simp
qed

subsection \<open>Big-endian codecs\<close>

text \<open>\<open>binary.BigEndian.PutUint32\<close> and \<open>binary.BigEndian.Uint32\<close> of the standard library;
  the readers look at the first 4 or 8 bytes of the slice they are given.\<close>

definition PutUint32 :: "u32 \<Rightarrow> bytes" where
  "PutUint32 v = [ucast (drop_bit 24 v), ucast (drop_bit 16 v), ucast (drop_bit 8 v), ucast v]"

fun Uint32 :: "bytes \<Rightarrow> u32" where
  "Uint32 (b0 # b1 # b2 # b3 # _) =
     ucast b3 OR push_bit 8 (ucast b2) OR push_bit 16 (ucast b1) OR push_bit 24 (ucast b0)"
| "Uint32 _ = 0"

definition PutUint64 :: "u64 \<Rightarrow> bytes" where
  "PutUint64 v =
     [ucast (drop_bit 56 v), ucast (drop_bit 48 v), ucast (drop_bit 40 v), ucast (drop_bit 32 v),
      ucast (drop_bit 24 v), ucast (drop_bit 16 v), ucast (drop_bit 8 v), ucast v]"

fun Uint64 :: "bytes \<Rightarrow> u64" where
  "Uint64 (b0 # b1 # b2 # b3 # b4 # b5 # b6 # b7 # _) =
     ucast b7 OR push_bit 8 (ucast b6) OR push_bit 16 (ucast b5) OR push_bit 24 (ucast b4)
     OR push_bit 32 (ucast b3) OR push_bit 40 (ucast b2) OR push_bit 48 (ucast b1)
     OR push_bit 56 (ucast b0)"
| "Uint64 _ = 0"

lemma length_PutUint32 [simp, go_codec]: "length (PutUint32 v) = 4"
  by (simp add: PutUint32_def)

lemma length_PutUint64 [simp, go_codec]: "length (PutUint64 v) = 8"
  by (simp add: PutUint64_def)

lemma bit_byte_high [simp]: "8 \<le> n \<Longrightarrow> \<not> bit (b :: byte) n"
  by (auto dest: bit_imp_le_length)

text \<open>Bit positions by byte lane: the case split behind the codec round trips.\<close>

lemma byte_lanes32:
  assumes "n < (32 :: nat)" and "\<And>k. k < 8 \<Longrightarrow> P k" and "\<And>k. k < 8 \<Longrightarrow> P (8 + k)"
    and "\<And>k. k < 8 \<Longrightarrow> P (16 + k)" and "\<And>k. k < 8 \<Longrightarrow> P (24 + k)"
  shows "P n"
proof -
  have "n < 8 \<or> n - 8 < 8 \<and> n = 8 + (n - 8) \<or> n - 16 < 8 \<and> n = 16 + (n - 16)
      \<or> n - 24 < 8 \<and> n = 24 + (n - 24)"
    using assms(1) by linarith
  then show ?thesis using assms(2-) by metis
qed

lemma byte_lanes64:
  assumes "n < (64 :: nat)" and "\<And>k. k < 32 \<Longrightarrow> P k" and "\<And>k. k < 32 \<Longrightarrow> P (32 + k)"
  shows "P n"
proof -
  have "n < 32 \<or> n - 32 < 32 \<and> n = 32 + (n - 32)"
    using assms(1) by linarith
  then show ?thesis using assms(2-) by metis
qed

lemma Uint32_PutUint32 [simp, go_codec]: "Uint32 (PutUint32 v @ xs) = v"
proof (rule bit_word_eqI)
  fix n assume "n < LENGTH(32)"
  then have "n < 32" by simp
  then show "bit (Uint32 (PutUint32 v @ xs)) n = bit v n"
    by (rule byte_lanes32) (simp_all add: PutUint32_def bit_simps)
qed

lemma Uint64_PutUint64 [simp, go_codec]: "Uint64 (PutUint64 v @ xs) = v"
proof (rule bit_word_eqI)
  fix n assume "n < LENGTH(64)"
  then have "n < 64" by simp
  then show "bit (Uint64 (PutUint64 v @ xs)) n = bit v n"
    by (rule byte_lanes64; rule_tac n = k in byte_lanes32)
      (simp_all add: PutUint64_def bit_simps)
qed

lemmas Uint32_PutUint32' [simp, go_codec] = Uint32_PutUint32 [of v "[]" for v, simplified]
lemmas Uint64_PutUint64' [simp, go_codec] = Uint64_PutUint64 [of v "[]" for v, simplified]

lemma length_4E:
  assumes "length xs = 4"
  obtains a b c d where "xs = [a, b, c, d]"
  using assms by (auto simp: numeral_eq_Suc length_Suc_conv)

lemma PutUint32_Uint32: "length xs = 4 \<Longrightarrow> PutUint32 (Uint32 xs) = xs"
  by (erule length_4E, clarsimp simp: PutUint32_def, intro conjI; rule bit_word_eqI;
      simp add: bit_simps)

lemma length_8E:
  assumes "length xs = 8"
  obtains a b c d e f g h where "xs = [a, b, c, d, e, f, g, h]"
  using assms by (auto simp: numeral_eq_Suc length_Suc_conv)

lemma PutUint64_Uint64: "length xs = 8 \<Longrightarrow> PutUint64 (Uint64 xs) = xs"
  by (erule length_8E, clarsimp simp: PutUint64_def, intro conjI; rule bit_word_eqI;
      simp add: bit_simps)

lemma PutUint32_inject [simp]: "PutUint32 a = PutUint32 b \<longleftrightarrow> a = b"
  by (metis Uint32_PutUint32')

lemma PutUint64_inject [simp]: "PutUint64 a = PutUint64 b \<longleftrightarrow> a = b"
  by (metis Uint64_PutUint64')

lemma Uint32_take: "4 \<le> n \<Longrightarrow> Uint32 (take n xs) = Uint32 xs"
  by (cases xs rule: Uint32.cases) (auto simp: take_Cons' numeral_eq_Suc)

lemma Uint64_take: "8 \<le> n \<Longrightarrow> Uint64 (take n xs) = Uint64 xs"
  by (cases xs rule: Uint64.cases) (auto simp: take_Cons' numeral_eq_Suc)

lemma unat_byte_less: "unat (b :: byte) < 256"
proof -
  have "unat b < 2 ^ LENGTH(8)" by (rule unsigned_less)
  then show ?thesis by simp
qed

lemma unat_u32_less: "unat (w :: u32) < 4294967296"
proof -
  have "unat w < 2 ^ LENGTH(32)" by (rule unsigned_less)
  then show ?thesis by simp
qed

section \<open>Binary search\<close>

text \<open>\<open>sort.Search(n, f)\<close>: the loop of the Go standard library on the interval \<open>[i, j)\<close>.\<close>

function search_loop :: "(nat \<Rightarrow> bool) \<Rightarrow> nat \<Rightarrow> nat \<Rightarrow> nat" where
  "search_loop f i j =
     (if i < j then
        let h = (i + j) div 2 in
        if \<not> f h then search_loop f (h + 1) j else search_loop f i h
      else i)"
  by pat_completeness auto
termination
  by (relation "measure (\<lambda>(f, i, j). j - i)") auto

declare search_loop.simps [simp del]

definition sort_Search :: "nat \<Rightarrow> (nat \<Rightarrow> bool) \<Rightarrow> nat" where
  "sort_Search n f = search_loop f 0 n"

lemma search_loop_spec:
  assumes "i \<le> j" "j \<le> n" and mono: "\<And>a b. a \<le> b \<Longrightarrow> b < n \<Longrightarrow> f a \<Longrightarrow> f b"
    and "\<And>k. k < i \<Longrightarrow> \<not> f k" and "\<And>k. j \<le> k \<Longrightarrow> k < n \<Longrightarrow> f k"
  shows "search_loop f i j \<le> n \<and> (\<forall>k < search_loop f i j. \<not> f k)
    \<and> (\<forall>k. search_loop f i j \<le> k \<and> k < n \<longrightarrow> f k)"
  using assms(1,2,4,5)
proof (induction "j - i" arbitrary: i j rule: less_induct)
  case less
  show ?case
  proof (cases "i < j")
    case True
    define h where "h = (i + j) div 2"
    have h: "i \<le> h" "h < j" using True by (auto simp: h_def)
    have unfold: "search_loop f i j =
        (if \<not> f h then search_loop f (h + 1) j else search_loop f i h)"
      using True by (subst search_loop.simps) (simp add: h_def Let_def)
    show ?thesis
    proof (cases "f h")
      case fh: True
      have up: "f k" if "h \<le> k" "k < n" for k
        using mono [OF that fh] .
      have eq: "search_loop f i j = search_loop f i h" using unfold fh by simp
      show ?thesis
        unfolding eq by (rule less.hyps) (use h less.prems(2,3) up in auto)
    next
      case fh: False
      have down: "\<not> f k" if "k < h + 1" for k
        using mono [of k h] that fh h less.prems(2) by auto
      have eq: "search_loop f i j = search_loop f (h + 1) j" using unfold fh by simp
      show ?thesis
        unfolding eq by (rule less.hyps) (use h less.prems(2,4) down in auto)
    qed
  next
    case False
    then have "search_loop f i j = i" by (subst search_loop.simps) simp
    then show ?thesis using less.prems False by auto
  qed
qed

text \<open>What \<open>sort.Search\<close> promises for a predicate that is monotone on \<open>[0, n)\<close>.\<close>

lemma sort_Search_spec:
  assumes mono: "\<forall>a b. a \<le> b \<longrightarrow> b < n \<longrightarrow> f a \<longrightarrow> f b"
  shows "sort_Search n f \<le> n" and "k < sort_Search n f \<Longrightarrow> \<not> f k"
    and "sort_Search n f \<le> k \<Longrightarrow> k < n \<Longrightarrow> f k"
proof -
  have "sort_Search n f \<le> n \<and> (\<forall>k < sort_Search n f. \<not> f k)
      \<and> (\<forall>k. sort_Search n f \<le> k \<and> k < n \<longrightarrow> f k)"
    unfolding sort_Search_def
    by (rule search_loop_spec) (simp, simp, rule mono [rule_format], assumption+, simp_all)
  then show "sort_Search n f \<le> n" "k < sort_Search n f \<Longrightarrow> \<not> f k"
    "sort_Search n f \<le> k \<Longrightarrow> k < n \<Longrightarrow> f k" by blast+
qed

section \<open>Decimal rendering\<close>

text \<open>\<open>fmt\<close>'s \<open>%d\<close> of a non-negative number.\<close>

fun dec :: "nat \<Rightarrow> string" where
  "dec n = (if n < 10 then [char_of (48 + n)] else dec (n div 10) @ [char_of (48 + n mod 10)])"

declare dec.simps [simp del]

definition dec_int :: "int \<Rightarrow> string" where
  "dec_int x = (if x < 0 then CHR ''-'' # dec (nat (- x)) else dec (nat x))"

text \<open>\<open>fmt\<close>'s \<open>%q\<close> of a file name without characters that need escaping.\<close>

definition fmt_q :: "string \<Rightarrow> string" where
  "fmt_q s = [char_of (34 :: nat)] @ s @ [char_of (34 :: nat)]"

section \<open>Errors and files\<close>

text \<open>
  The error values the packages return: the sentinels of \<open>io\<close>, an error reported by the
  operating system, \<open>fmt.Errorf\<close> without and with a wrapped cause (\<open>%w\<close>), and the two typed
  errors of the engine, \<open>wal.CorruptionError\<close> (byte position, stored and recomputed
  checksum, reason) and \<open>segment.OffsetOutOfRetentionError\<close> (requested and earliest offset).
\<close>

datatype goerror =
    EOF
  | UnexpectedEOF
  | OsError string
  | Errorf string
  | Wrap string goerror
  | CorruptionError int bytes bytes string
  | OffsetOutOfRetentionError u64 u64

text \<open>\<open>errors.Is(err, io.EOF)\<close> looks through wrapped causes.\<close>

fun is_EOF :: "goerror \<Rightarrow> bool" where
  "is_EOF EOF = True"
| "is_EOF (Wrap _ e) = is_EOF e"
| "is_EOF _ = False"

text \<open>
  System calls by file name. A fault schedule says which calls fail, with the message the
  operating system gives and, for a write, how many bytes reached the file before it failed.
\<close>

datatype syscall =
    SysOpen string
  | SysStat string
  | SysReadAt string int
  | SysWrite string
  | SysTruncate string int
  | SysSync string
  | SysClose string
  | SysRemove string
  | SysRename string
  | SysDirSync string
  | SysMkdir string
  | SysReadDir string

type_synonym faults = "syscall \<Rightarrow> (string \<times> nat) option"

definition no_faults :: faults where
  "no_faults c = None"

text \<open>
  An open file: the contents every handle sees, and the prefix of them that is certain to
  survive a machine crash because an \<open>fsync\<close> covered it.
\<close>

record os_file =
  fname :: string
  content :: bytes
  synced :: bytes

text \<open>The largest file size: offsets are non-negative \<open>int64\<close>s, and a write that would pass it fails.\<close>

definition max_file_size :: nat where
  "max_file_size = 2 ^ 63 - 1"

text \<open>\<open>File.Write\<close> on a handle opened with \<open>O_APPEND\<close>.\<close>

definition file_Write :: "faults \<Rightarrow> os_file \<Rightarrow> bytes \<Rightarrow> os_file \<times> goerror option" where
  "file_Write flt f buf =
     (case flt (SysWrite (fname f)) of
        Some (msg, k) \<Rightarrow> (f\<lparr>content := content f @ take k buf\<rparr>, Some (OsError msg))
      | None \<Rightarrow>
          if length (content f) + length buf > max_file_size
          then (f, Some (OsError ''file too large''))
          else (f\<lparr>content := content f @ buf\<rparr>, None))"

text \<open>\<open>File.ReadAt\<close>: fills the buffer from an absolute position or reports why it could not.\<close>

definition file_ReadAt :: "faults \<Rightarrow> os_file \<Rightarrow> int \<Rightarrow> nat \<Rightarrow> goerror + bytes" where
  "file_ReadAt flt f pos n =
     (if pos < 0 then Inl (OsError ''negative offset'')
      else if n = 0 then Inr []
      else case flt (SysReadAt (fname f) pos) of
        Some (msg, _) \<Rightarrow> Inl (OsError msg)
      | None \<Rightarrow>
          if nat pos + n \<le> min (length (content f)) max_file_size
          then Inr (take n (drop (nat pos) (content f)))
          else Inl EOF)"

definition file_Stat_Size :: "faults \<Rightarrow> os_file \<Rightarrow> goerror + int" where
  "file_Stat_Size flt f =
     (case flt (SysStat (fname f)) of
        Some (msg, _) \<Rightarrow> Inl (OsError msg)
      | None \<Rightarrow> Inr (int (length (content f))))"

text \<open>\<open>File.Truncate\<close>: cuts the file, or grows it with zeros. The guaranteed prefix shrinks with it.\<close>

definition file_Truncate :: "faults \<Rightarrow> os_file \<Rightarrow> int \<Rightarrow> os_file \<times> goerror option" where
  "file_Truncate flt f n =
     (case flt (SysTruncate (fname f) n) of
        Some (msg, _) \<Rightarrow> (f, Some (OsError msg))
      | None \<Rightarrow>
          if n < 0 then (f, Some (OsError ''invalid argument''))
          else (f\<lparr>content := take (nat n) (content f) @ replicate (nat n - length (content f)) 0,
                  synced := take (nat n) (synced f)\<rparr>, None))"

definition file_Sync :: "faults \<Rightarrow> os_file \<Rightarrow> os_file \<times> goerror option" where
  "file_Sync flt f =
     (case flt (SysSync (fname f)) of
        Some (msg, _) \<Rightarrow> (f, Some (OsError msg))
      | None \<Rightarrow> (f\<lparr>synced := content f\<rparr>, None))"

definition file_Close :: "faults \<Rightarrow> os_file \<Rightarrow> goerror option" where
  "file_Close flt f = (case flt (SysClose (fname f)) of Some (msg, _) \<Rightarrow> Some (OsError msg) | None \<Rightarrow> None)"

text \<open>
  A machine crash keeps the guaranteed prefix and some prefix of what was appended after it.
\<close>

definition crash_image :: "os_file \<Rightarrow> bytes \<Rightarrow> bool" where
  "crash_image f c \<longleftrightarrow> prefix (synced f) c \<and> prefix c (content f)"

definition file_ok :: "os_file \<Rightarrow> bool" where
  "file_ok f \<longleftrightarrow> prefix (synced f) (content f) \<and> length (content f) \<le> max_file_size"

lemma prefix_take_mono: "prefix xs ys \<Longrightarrow> prefix (take n xs) (take n ys)"
  by (auto simp: prefix_def)

lemma prefix_drop_eq: "prefix xs ys \<Longrightarrow> ys = xs @ drop (length xs) ys"
  by (auto simp: prefix_def)

lemma file_Write_ok:
  "file_ok f \<Longrightarrow> file_Write flt f buf = (f', None) \<Longrightarrow>
     file_ok f' \<and> content f' = content f @ buf \<and> synced f' = synced f \<and> fname f' = fname f"
  by (auto simp: file_Write_def file_ok_def split: option.splits if_splits)

lemma file_ReadAt_Inr:
  assumes "file_ReadAt flt f pos n = Inr b"
  shows "0 \<le> pos" "length b = n" "0 < n \<Longrightarrow> nat pos + n \<le> min (length (content f)) max_file_size"
    "b = take n (drop (nat pos) (content f))"
  using assms by (auto simp: file_ReadAt_def split: if_splits option.splits)

lemma file_ReadAt_split:
  assumes "content f = xs @ b @ ys" "pos = int (length xs)" "length (content f) \<le> max_file_size"
    "flt (SysReadAt (fname f) pos) = None"
  shows "file_ReadAt flt f pos (length b) = Inr b"
  using assms by (auto simp: file_ReadAt_def)

lemma file_ReadAt_EOF:
  assumes "0 \<le> pos" "int (length (content f)) < pos + int n" "0 < n"
    "flt (SysReadAt (fname f) pos) = None"
  shows "file_ReadAt flt f pos n = Inl EOF"
  using assms by (auto simp: file_ReadAt_def)

end
