(* ===== verification/Checksum.thy ===== *)
theory Checksum
  imports Prelude
begin

text \<open>
  The pluggable integrity algorithms of \<open>internal/checksum\<close>: the \<open>Checksum\<close> interface as a
  record of functions, the CRC32C strategy, the adapter \<open>hashChecksum\<close> and the algorithms
  built with it. The CRC, Adler and FNV computations of the standard library are modelled
  bit for bit. The cryptographic digests (MD5, SHA-1, SHA-256) stay parameters.

  Two contracts: \<open>checksum_alg\<close> (a result has exactly \<open>Size\<close> bytes, a width that fits a
  slice, and depends only on the concatenation of the parts) and \<open>byte_sensitive\<close> (changing one byte of the message changes
  the result). Both are discharged for each concrete algorithm.
\<close>

section \<open>The interface\<close>

record checksum =
  Compute :: "bytes list \<Rightarrow> bytes"
  Size :: nat
  Name :: string

locale checksum_alg =
  fixes cs :: checksum
  assumes Compute_size: "length (Compute cs ps) = Size cs"
    and Size_small: "Size cs < 2 ^ 31"
    and Compute_concat: "Compute cs ps = Compute cs [concat ps]"

locale byte_sensitive = checksum_alg +
  assumes Compute_detects: "Compute cs [xs @ b # ys] = Compute cs [xs @ b' # ys] \<Longrightarrow> b = b'"
begin

text \<open>One changed byte in any one of the parts is detected.\<close>

lemma detects_in_part:
  assumes "b \<noteq> b'"
  shows "Compute cs [p, xs @ b # ys] \<noteq> Compute cs [p, xs @ b' # ys]"
proof
  assume "Compute cs [p, xs @ b # ys] = Compute cs [p, xs @ b' # ys]"
  then have "Compute cs [(p @ xs) @ b # ys] = Compute cs [(p @ xs) @ b' # ys]"
    using Compute_concat [of "[p, xs @ b # ys]"] Compute_concat [of "[p, xs @ b' # ys]"] by simp
  then show False using assms Compute_detects by blast
qed

end

section \<open>Table-driven CRC\<close>

text \<open>
  \<open>crc_bit\<close> is one round of the table generator of \<open>hash/crc32\<close> and \<open>hash/crc64\<close>
  (reflected polynomial), \<open>MakeTable\<close> the 256-entry table and \<open>crc_Update\<close> the byte loop
  over it, with the complement before and after.
\<close>

definition crc_bit :: "'a::len word \<Rightarrow> 'a word \<Rightarrow> 'a word" where
  "crc_bit poly c = (if c AND 1 = 1 then drop_bit 1 c XOR poly else drop_bit 1 c)"

definition MakeTable :: "'a::len word \<Rightarrow> 'a word list" where
  "MakeTable poly = map (\<lambda>i. (crc_bit poly ^^ 8) (word_of_nat i)) [0..<256]"

definition crc_byte :: "'a::len word list \<Rightarrow> 'a word \<Rightarrow> byte \<Rightarrow> 'a word" where
  "crc_byte tab c v = (tab ! unat (ucast c XOR v)) XOR drop_bit 8 c"

definition crc_Update :: "'a::len word list \<Rightarrow> 'a word \<Rightarrow> bytes \<Rightarrow> 'a word" where
  "crc_Update tab c p = NOT (foldl (crc_byte tab) (NOT c) p)"

text \<open>The reference: shift the register bit by bit, no table.\<close>

definition crc_byte_ref :: "'a::len word \<Rightarrow> 'a word \<Rightarrow> byte \<Rightarrow> 'a word" where
  "crc_byte_ref poly c v = (crc_bit poly ^^ 8) (c XOR ucast v)"


lemma and_one_odd: "x AND 1 = (1 :: 'a::len word) \<longleftrightarrow> odd x"
  by (simp add: and_one_eq odd_iff_mod_2_eq_one)

lemma crc_bit_odd: "odd c \<Longrightarrow> crc_bit poly c = drop_bit 1 c XOR poly"
  and crc_bit_even: "even c \<Longrightarrow> crc_bit poly c = drop_bit 1 c"
  by (simp_all add: crc_bit_def and_one_odd)

lemma xor_cancel_right [simp]: "a XOR c = b XOR c \<longleftrightarrow> a = (b :: 'a::len word)"
  by (metis xor.assoc xor_self_eq xor.right_neutral)

lemma crc_bit_xor: "crc_bit poly (a XOR b) = crc_bit poly a XOR crc_bit poly b"
proof -
  have "odd (a XOR b) \<longleftrightarrow> odd a \<noteq> odd b" by (simp add: even_xor_iff)
  then show ?thesis
    by (cases "odd a"; cases "odd b")
      (simp_all add: crc_bit_odd crc_bit_even drop_bit_xor ac_simps del: One_nat_def)
qed

lemma crc_bits_xor: "(crc_bit poly ^^ n) (a XOR b) = (crc_bit poly ^^ n) a XOR (crc_bit poly ^^ n) b"
  by (induction n) (simp_all add: crc_bit_xor)

lemma crc_bits_high: "take_bit n x = 0 \<Longrightarrow> (crc_bit poly ^^ n) x = drop_bit n x"
proof (induction n arbitrary: x)
  case 0
  then show ?case by simp
next
  case (Suc n)
  have "even x" using Suc.prems by (metis even_take_bit_eq even_zero nat.simps(3))
  moreover have "take_bit n (drop_bit 1 x) = 0"
    using Suc.prems by (simp add: take_bit_drop_bit)
  ultimately show ?case
    using Suc.IH [of "drop_bit 1 x"]
    by (simp add: crc_bit_even funpow_Suc_right del: funpow.simps)
qed

locale crc_poly =
  fixes poly :: "'a::len word"
  assumes msb: "bit poly (LENGTH('a) - 1)" and wide: "8 \<le> LENGTH('a)"
begin

lemma shift_top: "\<not> bit (drop_bit 1 (a :: 'a word)) (LENGTH('a) - 1)"
  by (auto simp: bit_simps dest: bit_imp_le_length)

lemma crc_bit_parity: "bit (crc_bit poly a) (LENGTH('a) - 1) \<longleftrightarrow> odd a"
  using msb shift_top [of a] by (auto simp: crc_bit_def and_one_odd bit_simps)

lemma crc_bit_inj:
  assumes "crc_bit poly a = crc_bit poly b"
  shows "a = b"
proof (rule bit_eqI)
  have par: "odd a = odd b" using assms crc_bit_parity by metis
  with assms have shift: "drop_bit 1 a = drop_bit 1 b"
    by (cases "odd a") (simp_all add: crc_bit_odd crc_bit_even del: One_nat_def)
  show "bit a n = bit b n" for n
  proof (cases n)
    case 0
    then show ?thesis using par by (simp add: bit_0)
  next
    case (Suc m)
    have "bit (drop_bit 1 a) m = bit (drop_bit 1 b) m" by (simp only: shift)
    then show ?thesis using Suc by (simp add: bit_simps)
  qed
qed

lemma crc_bits_inj: "(crc_bit poly ^^ n) a = (crc_bit poly ^^ n) b \<Longrightarrow> a = b"
  by (induction n) (auto dest: crc_bit_inj)

text \<open>The table lookup computes exactly the bitwise register.\<close>

lemma crc_byte_table: "crc_byte (MakeTable poly) c v = crc_byte_ref poly c v"
proof -
  let ?b = "ucast c XOR v :: byte"
  let ?h = "c XOR take_bit 8 c"
  have "unat ?b < 256" by (rule unat_byte_less)
  then have look: "MakeTable poly ! unat ?b = (crc_bit poly ^^ 8) (ucast ?b)"
    by (simp add: MakeTable_def)
  have low: "(ucast ?b :: 'a word) = take_bit 8 c XOR ucast v"
    using wide by (intro bit_word_eqI) (auto simp: bit_simps dest: bit_imp_le_length)
  have high: "take_bit 8 ?h = 0" "drop_bit 8 ?h = drop_bit 8 c"
    by (auto intro!: bit_word_eqI simp: bit_simps)
  have split: "c XOR ucast v = (take_bit 8 c XOR ucast v) XOR ?h"
    by (simp add: ac_simps)
  show ?thesis
    unfolding crc_byte_def crc_byte_ref_def look low split crc_bits_xor
    using crc_bits_high [OF high(1), of poly] high(2) by (simp add: crc_bits_xor)
qed

lemma crc_byte_inj_state: "crc_byte (MakeTable poly) c v = crc_byte (MakeTable poly) d v \<Longrightarrow> c = d"
  unfolding crc_byte_table crc_byte_ref_def by (drule crc_bits_inj) simp

lemma crc_byte_inj_byte:
  assumes "crc_byte (MakeTable poly) c v = crc_byte (MakeTable poly) c w"
  shows "v = w"
proof -
  have "c XOR ucast v = c XOR ucast w"
    using assms unfolding crc_byte_table crc_byte_ref_def by (rule crc_bits_inj)
  then have "(ucast v :: 'a word) = ucast w" by (metis xor.left_commute xor_self_eq xor.right_neutral)
  then show ?thesis
    using wide by (auto simp: bit_eq_iff bit_simps)
qed

lemma crc_fold_inj:
  "foldl (crc_byte (MakeTable poly)) c p = foldl (crc_byte (MakeTable poly)) d p \<Longrightarrow> c = d"
  by (induction p arbitrary: c d) (auto dest: crc_byte_inj_state)

text \<open>Changing one byte of the message always changes the CRC.\<close>

lemma crc_Update_detects:
  assumes "crc_Update (MakeTable poly) c (xs @ b # ys) = crc_Update (MakeTable poly) c (xs @ b' # ys)"
  shows "b = b'"
  using assms by (auto simp: crc_Update_def dest!: crc_fold_inj crc_byte_inj_byte)

end

lemma crc_Update_parts: "foldl (crc_Update tab) c ps = crc_Update tab c (concat ps)"
  by (induction ps arbitrary: c) (simp_all add: crc_Update_def)

section \<open>The algorithms\<close>

definition castagnoli_table :: "u32 list" where
  "castagnoli_table = MakeTable 0x82f63b78"

definition ieee_table :: "u32 list" where
  "ieee_table = MakeTable 0xedb88320"

definition ecma_table :: "u64 list" where
  "ecma_table = MakeTable 0xC96C5795D7870F42"

text \<open>\<open>CRC32C.Compute\<close> folds \<open>crc32.Update\<close> over the parts, then writes the sum big-endian.\<close>

definition CRC32C_Compute :: "bytes list \<Rightarrow> bytes" where
  "CRC32C_Compute parts = PutUint32 (foldl (crc_Update castagnoli_table) 0 parts)"

definition NewCRC32C :: checksum where
  "NewCRC32C = \<lparr>Compute = CRC32C_Compute, Size = 4, Name = ''crc32c''\<rparr>"

text \<open>A \<open>hash.Hash\<close>: the state of a fresh hasher, \<open>Write\<close> and \<open>Sum(nil)\<close>.\<close>

record 's gohash =
  hash_init :: 's
  hash_Write :: "'s \<Rightarrow> bytes \<Rightarrow> 's"
  hash_Sum :: "'s \<Rightarrow> bytes"

definition hashChecksum_Compute :: "'s gohash \<Rightarrow> bytes list \<Rightarrow> bytes" where
  "hashChecksum_Compute h parts = hash_Sum h (foldl (hash_Write h) (hash_init h) parts)"

definition hashChecksum :: "string \<Rightarrow> nat \<Rightarrow> 's gohash \<Rightarrow> checksum" where
  "hashChecksum name sz h = \<lparr>Compute = hashChecksum_Compute h, Size = sz, Name = name\<rparr>"

definition crc32_New :: "u32 list \<Rightarrow> u32 gohash" where
  "crc32_New t = \<lparr>hash_init = 0, hash_Write = crc_Update t, hash_Sum = PutUint32\<rparr>"

definition crc64_New :: "u64 list \<Rightarrow> u64 gohash" where
  "crc64_New t = \<lparr>hash_init = 0, hash_Write = crc_Update t, hash_Sum = PutUint64\<rparr>"

text \<open>\<open>hash/adler32\<close>: two sums modulo 65521, packed into one \<open>uint32\<close>.\<close>

fun adler_byte :: "u32 \<times> u32 \<Rightarrow> byte \<Rightarrow> u32 \<times> u32" where
  "adler_byte (s1, s2) v = (let a = (s1 + ucast v) mod 65521 in (a, (s2 + a) mod 65521))"

definition adler_update :: "u32 \<Rightarrow> bytes \<Rightarrow> u32" where
  "adler_update d p =
     (let (s1, s2) = foldl adler_byte (d AND 0xffff, drop_bit 16 d) p in push_bit 16 s2 OR s1)"

definition adler32_New :: "u32 gohash" where
  "adler32_New = \<lparr>hash_init = 1, hash_Write = adler_update, hash_Sum = PutUint32\<rparr>"

text \<open>\<open>hash/fnv\<close>: xor the byte in, multiply by the prime.\<close>

definition fnv1a_byte :: "u64 \<Rightarrow> byte \<Rightarrow> u64" where
  "fnv1a_byte h c = (h XOR ucast c) * 1099511628211"

definition fnv_New64a :: "u64 gohash" where
  "fnv_New64a = \<lparr>hash_init = 14695981039346656037, hash_Write = foldl fnv1a_byte, hash_Sum = PutUint64\<rparr>"

text \<open>A cryptographic hasher, given its digest function: \<open>Write\<close> adds to the running message.\<close>

definition digest_New :: "(bytes \<Rightarrow> bytes) \<Rightarrow> bytes gohash" where
  "digest_New digest = \<lparr>hash_init = [], hash_Write = (@), hash_Sum = digest\<rparr>"

definition NewCRC32IEEE :: checksum where
  "NewCRC32IEEE = hashChecksum ''crc32-ieee'' 4 (crc32_New ieee_table)"

definition NewAdler32 :: checksum where
  "NewAdler32 = hashChecksum ''adler32'' 4 adler32_New"

definition NewCRC64ECMA :: checksum where
  "NewCRC64ECMA = hashChecksum ''crc64-ecma'' 8 (crc64_New ecma_table)"

definition NewFNV1a64 :: checksum where
  "NewFNV1a64 = hashChecksum ''fnv1a-64'' 8 fnv_New64a"

definition NewMD5 :: "(bytes \<Rightarrow> bytes) \<Rightarrow> checksum" where
  "NewMD5 md5 = hashChecksum ''md5'' 16 (digest_New md5)"

definition NewSHA1 :: "(bytes \<Rightarrow> bytes) \<Rightarrow> checksum" where
  "NewSHA1 sha1 = hashChecksum ''sha1'' 20 (digest_New sha1)"

text \<open>\<open>SHA256.Compute\<close> runs the same loop on \<open>sha256.New()\<close> without the adapter.\<close>

definition SHA256_Compute :: "(bytes \<Rightarrow> bytes) \<Rightarrow> bytes list \<Rightarrow> bytes" where
  "SHA256_Compute sha256 parts =
     (let h = digest_New sha256 in hash_Sum h (foldl (hash_Write h) (hash_init h) parts))"

definition NewSHA256 :: "(bytes \<Rightarrow> bytes) \<Rightarrow> checksum" where
  "NewSHA256 sha256 = \<lparr>Compute = SHA256_Compute sha256, Size = 32, Name = ''sha256''\<rparr>"

section \<open>The algorithms meet the contracts\<close>

interpretation castagnoli: crc_poly "0x82f63b78 :: u32"
  by unfold_locales (simp_all add: bit_simps)

interpretation ieee: crc_poly "0xedb88320 :: u32"
  by unfold_locales (simp_all add: bit_simps)

interpretation ecma: crc_poly "0xC96C5795D7870F42 :: u64"
  by unfold_locales (simp_all add: bit_simps)

interpretation crc32c: byte_sensitive NewCRC32C
proof
  show "Size NewCRC32C < 2 ^ 31" by (simp add: NewCRC32C_def)
  show "length (Compute NewCRC32C ps) = Size NewCRC32C" for ps
    by (simp add: NewCRC32C_def CRC32C_Compute_def)
  show "Compute NewCRC32C ps = Compute NewCRC32C [concat ps]" for ps
    by (simp add: NewCRC32C_def CRC32C_Compute_def crc_Update_parts)
  show "b = b'" if "Compute NewCRC32C [xs @ b # ys] = Compute NewCRC32C [xs @ b' # ys]" for xs b ys b'
    using that castagnoli.crc_Update_detects
    by (auto simp: NewCRC32C_def CRC32C_Compute_def castagnoli_table_def)
qed

text \<open>The adapter meets the contract when the hasher's sum has the declared width and its writes
  compose.\<close>

lemma hashChecksum_alg:
  assumes "\<And>s. length (hash_Sum h s) = sz" and "sz < 2 ^ 31"
    and "\<And>ps. foldl (hash_Write h) (hash_init h) ps = hash_Write h (hash_init h) (concat ps)"
  shows "checksum_alg (hashChecksum nm sz h)"
  using assms by unfold_locales (simp_all add: hashChecksum_def hashChecksum_Compute_def)

lemma hashChecksum_sensitive:
  assumes "\<And>s. length (hash_Sum h s) = sz" and "sz < 2 ^ 31" and "inj (hash_Sum h)"
    and "\<And>ps. foldl (hash_Write h) (hash_init h) ps = hash_Write h (hash_init h) (concat ps)"
    and "\<And>xs b ys b'. hash_Write h (hash_init h) (xs @ b # ys) = hash_Write h (hash_init h) (xs @ b' # ys) \<Longrightarrow> b = b'"
  shows "byte_sensitive (hashChecksum nm sz h)"
proof (intro byte_sensitive.intro byte_sensitive_axioms.intro hashChecksum_alg)
  show "b = b'"
    if "Compute (hashChecksum nm sz h) [xs @ b # ys] = Compute (hashChecksum nm sz h) [xs @ b' # ys]"
    for xs b ys b'
    using that assms(3,5) by (auto simp: hashChecksum_def hashChecksum_Compute_def dest: injD)
qed (fact assms)+

lemma inj_PutUint32: "inj PutUint32" and inj_PutUint64: "inj PutUint64"
  by (simp_all add: inj_def)

interpretation crc32_ieee: byte_sensitive NewCRC32IEEE
  unfolding NewCRC32IEEE_def
  by (rule hashChecksum_sensitive)
    (use ieee.crc_Update_detects in \<open>auto simp: crc32_New_def ieee_table_def inj_PutUint32 crc_Update_parts\<close>)

interpretation crc64_ecma: byte_sensitive NewCRC64ECMA
  unfolding NewCRC64ECMA_def
  by (rule hashChecksum_sensitive)
    (use ecma.crc_Update_detects in \<open>auto simp: crc64_New_def ecma_table_def inj_PutUint64 crc_Update_parts\<close>)

lemma fnv_prime_unit: "1099511628211 * 14886173955864302971 = (1 :: u64)"
  by simp

lemma fnv1a_byte_undo: "fnv1a_byte h c * 14886173955864302971 = h XOR ucast c"
  unfolding fnv1a_byte_def mult.assoc fnv_prime_unit by simp

lemma fnv1a_fold_inj: "foldl fnv1a_byte g p = foldl fnv1a_byte h p \<Longrightarrow> g = h"
proof (induction p arbitrary: g h)
  case (Cons c p)
  then have "fnv1a_byte g c = fnv1a_byte h c" by simp
  then show ?case by (metis fnv1a_byte_undo xor_cancel_right)
qed simp

lemma fnv1a_byte_inj: "fnv1a_byte h b = fnv1a_byte h b' \<Longrightarrow> b = b'"
proof -
  assume "fnv1a_byte h b = fnv1a_byte h b'"
  then have "(ucast b :: u64) = ucast b'"
    by (metis fnv1a_byte_undo xor.commute xor_cancel_right)
  then show "b = b'" by (auto simp: bit_eq_iff bit_simps)
qed

lemma foldl_foldl_concat: "foldl (foldl f) s ps = foldl f s (concat ps)"
  by (induction ps arbitrary: s) simp_all

interpretation fnv1a64: byte_sensitive NewFNV1a64
  unfolding NewFNV1a64_def
  by (rule hashChecksum_sensitive)
    (auto simp: fnv_New64a_def inj_PutUint64 foldl_foldl_concat dest!: fnv1a_fold_inj fnv1a_byte_inj)

subsection \<open>Adler-32\<close>

definition adler_inv :: "u32 \<times> u32 \<Rightarrow> bool" where
  "adler_inv s \<longleftrightarrow> fst s < 65521 \<and> snd s < 65521"

definition adler_pack :: "u32 \<times> u32 \<Rightarrow> u32" where
  "adler_pack s = push_bit 16 (snd s) OR fst s"

definition adler_unpack :: "u32 \<Rightarrow> u32 \<times> u32" where
  "adler_unpack d = (d AND 0xffff, drop_bit 16 d)"

lemma adler_update_pack: "adler_update d p = adler_pack (foldl adler_byte (adler_unpack d) p)"
  by (simp add: adler_update_def adler_pack_def adler_unpack_def split: prod.splits)

lemma adler_unpack_pack:
  assumes "adler_inv s"
  shows "adler_unpack (adler_pack s) = s"
proof -
  have small: "take_bit 16 x = x" if "x < 65521" for x :: u32
    using that
    by (simp add: word_unat_eq_iff word_less_nat_alt unsigned_take_bit_eq take_bit_nat_eq_self)
  have mask: "x AND 0xffff = take_bit 16 x" for x :: u32
    by (simp add: take_bit_eq_mask mask_eq_exp_minus_1)
  have s: "take_bit 16 (fst s) = fst s" "take_bit 16 (snd s) = snd s"
    using assms small by (simp_all add: adler_inv_def)
  have "take_bit 16 (adler_pack s) = fst s"
    unfolding adler_pack_def by (subst (2) s(1) [symmetric]) (auto intro!: bit_word_eqI simp: bit_simps)
  moreover have "drop_bit 16 (adler_pack s) = snd s"
    unfolding adler_pack_def
    by (subst (1 2) s [symmetric]) (auto intro!: bit_word_eqI simp: bit_simps)
  ultimately show ?thesis by (simp add: adler_unpack_def mask prod_eq_iff)
qed

lemma adler_byte_inv: "adler_inv (adler_byte s v)"
  by (cases s) (simp add: adler_inv_def Let_def word_mod_less_divisor)

lemma adler_fold_inv: "adler_inv s \<Longrightarrow> adler_inv (foldl adler_byte s p)"
  by (induction p arbitrary: s) (simp_all add: adler_byte_inv)

lemma adler_parts:
  "adler_inv (adler_unpack d) \<Longrightarrow> adler_pack (adler_unpack d) = d \<Longrightarrow>
     foldl adler_update d ps = adler_update d (concat ps)"
proof (induction ps arbitrary: d)
  case Nil
  then show ?case by (simp add: adler_update_pack)
next
  case (Cons p ps)
  have inv: "adler_inv (foldl adler_byte (adler_unpack d) p)"
    using Cons.prems(1) by (rule adler_fold_inv)
  then have "adler_unpack (adler_update d p) = foldl adler_byte (adler_unpack d) p"
    by (simp add: adler_update_pack adler_unpack_pack)
  then show ?case
    using Cons.IH [of "adler_update d p"] inv by (simp add: adler_update_pack)
qed

lemma mod_add_inj:
  assumes "x < m" "y < m" "a < m" "(x + a) mod m = (y + a) mod (m :: nat)"
  shows "x = y"
proof -
  have "z mod m = (if z < m then z else z - m)" if "z < m + m" for z
    using that by (auto simp: le_mod_geq not_less)
  from this [of "x + a"] this [of "y + a"] show ?thesis
    using assms by (auto split: if_splits)
qed

lemma adler_byte_unat:
  assumes "adler_inv s"
  shows "unat (fst (adler_byte s v)) = (unat (fst s) + unat v) mod 65521"
proof (cases s)
  case (Pair s1 s2)
  have "unat s1 < 65521" "unat v < 256"
    using assms Pair unat_byte_less [of v] by (simp_all add: adler_inv_def word_less_nat_alt)
  then have "unat (s1 + ucast v) = unat s1 + unat v"
    by (simp add: unat_word_ariths unsigned_ucast_eq take_bit_nat_eq_self)
  then show ?thesis by (simp add: Pair Let_def unat_mod)
qed

declare adler_byte.simps [simp del]

lemma adler_inv_unat: "adler_inv s \<Longrightarrow> unat (fst s) < 65521"
  by (simp add: adler_inv_def word_less_nat_alt)

lemma byte_below_mod: "unat (v :: byte) < 65521"
  using unat_byte_less [of v] by simp

lemma adler_byte_inj:
  assumes "adler_inv s" "adler_inv t" "fst (adler_byte s v) = fst (adler_byte t v)"
  shows "fst s = fst t"
proof -
  have "(unat (fst s) + unat v) mod 65521 = (unat (fst t) + unat v) mod 65521"
    using adler_byte_unat [OF assms(1), of v] adler_byte_unat [OF assms(2), of v] assms(3) by argo
  then have "unat (fst s) = unat (fst t)"
    by (rule mod_add_inj [OF adler_inv_unat adler_inv_unat byte_below_mod, rotated 2]) (fact assms)+
  then show ?thesis by (simp add: word_unat_eq_iff)
qed

lemma adler_fold_inj:
  "adler_inv s \<Longrightarrow> adler_inv t \<Longrightarrow> fst (foldl adler_byte s p) = fst (foldl adler_byte t p) \<Longrightarrow> fst s = fst t"
proof (induction p arbitrary: s t)
  case (Cons v p)
  then have "fst (adler_byte s v) = fst (adler_byte t v)"
    using adler_byte_inv by simp
  then show ?case by (rule adler_byte_inj [OF Cons.prems(1,2)])
qed simp

lemma adler_update_detects:
  assumes inv: "adler_inv (adler_unpack d)"
    and eq: "adler_update d (xs @ b # ys) = adler_update d (xs @ b' # ys)"
  shows "b = b'"
proof -
  let ?s = "foldl adler_byte (adler_unpack d) xs"
  have s: "adler_inv ?s" using inv by (rule adler_fold_inv)
  have "foldl adler_byte (adler_byte ?s b) ys = foldl adler_byte (adler_byte ?s b') ys"
    using arg_cong [OF eq, of adler_unpack]
    by (simp add: adler_update_pack adler_unpack_pack adler_fold_inv adler_byte_inv inv)
  then have "fst (adler_byte ?s b) = fst (adler_byte ?s b')"
    using adler_fold_inj adler_byte_inv by metis
  then have "(unat b + unat (fst ?s)) mod 65521 = (unat b' + unat (fst ?s)) mod 65521"
    using adler_byte_unat [OF s, of b] adler_byte_unat [OF s, of b'] by (metis add.commute)
  then have "unat b = unat b'"
    by (rule mod_add_inj [OF byte_below_mod byte_below_mod adler_inv_unat [OF s]])
  then show ?thesis by (simp add: word_unat_eq_iff)
qed

lemma adler_init: "adler_inv (adler_unpack 1)" "adler_pack (adler_unpack 1) = 1"
  by (simp_all add: adler_inv_def adler_unpack_def adler_pack_def)

interpretation adler32: byte_sensitive NewAdler32
  unfolding NewAdler32_def
  by (rule hashChecksum_sensitive)
    (use adler_update_detects [OF adler_init(1)] in
      \<open>auto simp: adler32_New_def inj_PutUint32 adler_parts [OF adler_init]\<close>)

subsection \<open>The cryptographic digests\<close>

text \<open>With a digest function of the documented width the three wrappers meet the basic contract.\<close>

lemma foldl_append_concat: "foldl (@) s ps = s @ concat ps"
  by (induction ps arbitrary: s) simp_all

lemma NewMD5_alg: "(\<And>m. length (md5 m) = 16) \<Longrightarrow> checksum_alg (NewMD5 md5)"
  and NewSHA1_alg: "(\<And>m. length (sha1 m) = 20) \<Longrightarrow> checksum_alg (NewSHA1 sha1)"
  unfolding NewMD5_def NewSHA1_def
  by (rule hashChecksum_alg; simp add: digest_New_def foldl_append_concat)+

lemma NewSHA256_alg: "(\<And>m. length (sha256 m) = 32) \<Longrightarrow> checksum_alg (NewSHA256 sha256)"
  by unfold_locales (simp_all add: NewSHA256_def SHA256_Compute_def digest_New_def foldl_append_concat)

section \<open>Properties\<close>

text \<open>C18: the table-driven CRC32C over the parts of a message, folded part by part as \<open>Compute\<close> does,
  is the bit-by-bit CRC of their concatenation, big-endian.\<close>

theorem crc32c_bitwise:
  "Compute NewCRC32C ps = PutUint32 (NOT (foldl (crc_byte_ref 0x82f63b78) (NOT 0) (concat ps)))"
proof -
  have "crc_byte (MakeTable 0x82f63b78) = (crc_byte_ref 0x82f63b78 :: u32 \<Rightarrow> byte \<Rightarrow> u32)"
    by (intro ext) (rule castagnoli.crc_byte_table)
  then show ?thesis
    by (simp add: NewCRC32C_def CRC32C_Compute_def crc_Update_parts crc_Update_def castagnoli_table_def)
qed

text \<open>C19: every non-cryptographic algorithm the package offers detects any change of a single byte in a
  record, whatever the length prefix and the rest of the payload are.\<close>

theorem single_byte_detected:
  assumes "c \<in> {NewCRC32C, NewCRC32IEEE, NewAdler32, NewCRC64ECMA, NewFNV1a64}" and "b \<noteq> b'"
  shows "Compute c [p, xs @ b # ys] \<noteq> Compute c [p, xs @ b' # ys]"
proof -
  note detects = crc32c.detects_in_part crc32_ieee.detects_in_part adler32.detects_in_part
    crc64_ecma.detects_in_part fnv1a64.detects_in_part
  show ?thesis
    using assms(1) by (elim insertE) (simp_all add: detects [OF assms(2)])
qed

theorem single_byte_detected_witness:
  "Compute NewAdler32 [[0, 0, 0, 2], [7] @ 1 # []] \<noteq> Compute NewAdler32 [[0, 0, 0, 2], [7] @ 3 # []]"
  by (rule single_byte_detected) simp_all

end
