(* ===== verification/Index_Store.thy ===== *)
theory Index_Store
  imports Prelude
begin

text \<open>
  The sparse checkpoint index of \<open>internal/inmemorystore\<close>: \<open>NewInMemoryStore\<close>,
  \<open>LoadCheckpoints\<close>, \<open>Floor\<close>, \<open>Get\<close>, \<open>Checkpoint\<close> and \<open>Close\<close> over the record
  \<open>mem_store\<close>. The store keeps its checkpoints twice, in memory and in the \<open>.index\<close> file.

  The lemmas show that loading keeps the longest strictly increasing prefix of any file and
  rewrites the file to it, that loading what checkpoints wrote gives them back, that \<open>Floor\<close>
  returns the greatest checkpoint at or below its argument, and that every operation keeps
  memory and file in agreement. The locale \<open>checkpoint_index\<close> is the contract of the Go
  interface \<open>InMemoryStoreInterface\<close> as the WAL relies on it.
\<close>

definition indexEntryBytes :: nat where
  "indexEntryBytes = 16"

record mem_store =
  offsets :: "u64 list"
  positions :: "int list"
  index :: "u64 \<rightharpoonup> int"
  indexFile :: os_file
  seen :: u32
  nthIndex :: u32

section \<open>Operations\<close>

text \<open>\<open>NewInMemoryStore\<close> on the file found (or created) at the path; a created file needs a
  directory sync.\<close>

definition NewInMemoryStore :: "faults \<Rightarrow> os_file \<Rightarrow> bool \<Rightarrow> u32 \<Rightarrow> goerror + mem_store" where
  "NewInMemoryStore flt f isNew nthI =
     (case flt (SysOpen (fname f)) of
        Some (msg, _) \<Rightarrow> Inl (Wrap (''inmemorystore: open '' @ fmt_q (fname f)) (OsError msg))
      | None \<Rightarrow>
          (case (if isNew then flt (SysDirSync (fname f)) else None) of
             Some (msg, _) \<Rightarrow> Inl (Wrap (''inmemorystore: fsync dir for '' @ fmt_q (fname f)) (OsError msg))
           | None \<Rightarrow> Inr \<lparr>offsets = [], positions = [], index = Map.empty, indexFile = f,
                          seen = 0, nthIndex = nthI\<rparr>))"

definition add_checkpoint :: "mem_store \<Rightarrow> u64 \<Rightarrow> int \<Rightarrow> mem_store" where
  "add_checkpoint s off pos =
     s\<lparr>offsets := offsets s @ [off], positions := positions s @ [pos], index := (index s)(off \<mapsto> pos)\<rparr>"

text \<open>The decoding loop of \<open>LoadCheckpoints\<close>: \<open>i\<close> runs over the entries of \<open>buf\<close>, \<open>k\<close> remain, and
  \<open>prev\<close> is the previous entry. It stops at the first entry that does not increase both fields.\<close>

fun load_loop :: "bytes \<Rightarrow> nat \<Rightarrow> nat \<Rightarrow> (u64 \<times> int) option \<Rightarrow> mem_store \<Rightarrow> mem_store" where
  "load_loop buf i 0 prev s = s"
| "load_loop buf i (Suc k) prev s =
     (let off = Uint64 (drop (i * indexEntryBytes) buf);
          pos = sint (Uint64 (drop (i * indexEntryBytes + 8) buf)) in
      if (case prev of None \<Rightarrow> False | Some (lastOff, lastPos) \<Rightarrow> off \<le> lastOff \<or> pos \<le> lastPos) then s
      else load_loop buf (Suc i) k (Some (off, pos)) (add_checkpoint s off pos))"

text \<open>Lines 90 to 110: read the aligned part of the file and decode it into an emptied store.\<close>

definition load_entries :: "faults \<Rightarrow> nat \<Rightarrow> mem_store \<Rightarrow> goerror + mem_store" where
  "load_entries flt sz s0 =
     (let aligned = sz - sz mod indexEntryBytes;
          count = aligned div indexEntryBytes in
      if count > 0 then
        (case file_ReadAt flt (indexFile s0) 0 aligned of
           Inl e \<Rightarrow> Inl (Wrap ''inmemorystore: read index'' e)
         | Inr buf \<Rightarrow> Inr (load_loop buf 0 count None s0))
      else Inr s0)"

text \<open>Lines 112 to 120: rewrite the file to exactly the entries kept.\<close>

definition heal_index :: "faults \<Rightarrow> nat \<Rightarrow> mem_store \<Rightarrow> mem_store \<times> goerror option" where
  "heal_index flt sz s1 =
     (let wantSize = length (offsets s1) * indexEntryBytes in
      if wantSize \<noteq> sz then
        (case file_Truncate flt (indexFile s1) (int wantSize) of
           (f, Some e) \<Rightarrow> (s1\<lparr>indexFile := f\<rparr>, Some (Wrap ''inmemorystore: truncate index'' e))
         | (f, None) \<Rightarrow> (s1\<lparr>indexFile := f\<rparr>, None))
      else (s1, None))"

definition LoadCheckpoints :: "faults \<Rightarrow> mem_store \<Rightarrow> mem_store \<times> goerror option" where
  "LoadCheckpoints flt s =
     (case file_Stat_Size flt (indexFile s) of
        Inl e \<Rightarrow> (s, Some (Wrap ''inmemorystore: stat index'' e))
      | Inr sz \<Rightarrow>
          (let s0 = s\<lparr>offsets := [], positions := [], index := Map.empty\<rparr> in
           case load_entries flt (nat sz) s0 of
             Inl e \<Rightarrow> (s0, Some e)
           | Inr s1 \<Rightarrow> heal_index flt (nat sz) s1))"

definition Floor :: "mem_store \<Rightarrow> u64 \<Rightarrow> (u64 \<times> int) option" where
  "Floor s offset =
     (let i = sort_Search (length (offsets s)) (\<lambda>i. offsets s ! i > offset) in
      if i = 0 then None else Some (offsets s ! (i - 1), positions s ! (i - 1)))"

definition Get :: "mem_store \<Rightarrow> u64 \<Rightarrow> int option" where
  "Get s offset = index s offset"

definition index_entry :: "u64 \<Rightarrow> int \<Rightarrow> bytes" where
  "index_entry off pos = PutUint64 off @ PutUint64 (word_of_int pos)"

definition Checkpoint :: "faults \<Rightarrow> mem_store \<Rightarrow> u64 \<Rightarrow> int \<Rightarrow> mem_store \<times> goerror option" where
  "Checkpoint flt s0 offset position =
     (let s = s0\<lparr>seen := seen s0 + 1\<rparr> in
      if nthIndex s > 0 \<and> seen s < nthIndex s then (s, None)
      else
        let s1 = s\<lparr>seen := 0\<rparr> in
        case file_Write flt (indexFile s1) (index_entry offset position) of
          (f, Some e) \<Rightarrow> (s1\<lparr>indexFile := f\<rparr>, Some (Wrap ''inmemorystore: write checkpoint'' e))
        | (f, None) \<Rightarrow> (add_checkpoint (s1\<lparr>indexFile := f\<rparr>) offset position, None))"

definition store_Close :: "faults \<Rightarrow> mem_store \<Rightarrow> goerror option" where
  "store_Close flt s = file_Close flt (indexFile s)"

section \<open>Abstraction and invariant\<close>

text \<open>The checkpoints held in memory, in order.\<close>

definition entries :: "mem_store \<Rightarrow> (u64 \<times> int) list" where
  "entries s = zip (offsets s) (positions s)"

definition increasing :: "(u64 \<times> int) list \<Rightarrow> bool" where
  "increasing = sorted_wrt (\<lambda>a b. fst a < fst b \<and> snd a < snd b)"

definition encode_entries :: "(u64 \<times> int) list \<Rightarrow> bytes" where
  "encode_entries es = concat (map (\<lambda>(o', p). index_entry o' p) es)"

definition is_int64 :: "int \<Rightarrow> bool" where
  "is_int64 x \<longleftrightarrow> - (2 ^ 63) \<le> x \<and> x < 2 ^ 63"

text \<open>Memory and map agree, the checkpoints increase, and every position is an \<open>int64\<close>.\<close>

definition store_inv :: "mem_store \<Rightarrow> bool" where
  "store_inv s \<longleftrightarrow> length (positions s) = length (offsets s) \<and> increasing (entries s)
     \<and> index s = map_of (rev (entries s)) \<and> (\<forall>p \<in> set (positions s). is_int64 p)"

text \<open>The file holds exactly the checkpoints in memory.\<close>

definition store_synced :: "mem_store \<Rightarrow> bool" where
  "store_synced s \<longleftrightarrow> content (indexFile s) = encode_entries (entries s)"


section \<open>Loading\<close>

text \<open>The entries a byte string holds, and the prefix of them that loading keeps.\<close>

fun decode_entries :: "nat \<Rightarrow> bytes \<Rightarrow> (u64 \<times> int) list" where
  "decode_entries 0 buf = []"
| "decode_entries (Suc k) buf = (Uint64 buf, sint (Uint64 (drop 8 buf))) # decode_entries k (drop 16 buf)"

definition after :: "(u64 \<times> int) option \<Rightarrow> u64 \<times> int \<Rightarrow> bool" where
  "after prev e \<longleftrightarrow> (case prev of None \<Rightarrow> True | Some l \<Rightarrow> fst l < fst e \<and> snd l < snd e)"

fun keep :: "(u64 \<times> int) option \<Rightarrow> (u64 \<times> int) list \<Rightarrow> (u64 \<times> int) list" where
  "keep prev [] = []"
| "keep prev (e # es) = (if after prev e then e # keep (Some e) es else [])"

lemma after_trans: "after prev e \<Longrightarrow> after (Some e) x \<Longrightarrow> after prev x"
  by (auto simp: after_def split: option.splits)

lemma increasing_Nil [simp]: "increasing []"
  by (simp add: increasing_def)

lemma increasing_Cons: "increasing (e # es) \<longleftrightarrow> (\<forall>x \<in> set es. after (Some e) x) \<and> increasing es"
  by (auto simp: increasing_def after_def)

lemma load_loop_keep:
  "load_loop buf i k prev s =
     foldl (\<lambda>s (off, pos). add_checkpoint s off pos) s (keep prev (decode_entries k (drop (i * 16) buf)))"
proof (induction buf i k prev s rule: load_loop.induct)
  case (2 buf i k prev s)
  then show ?case
    by (auto simp: Let_def indexEntryBytes_def after_def not_less not_le add.commute split: option.splits)
qed simp

lemma map_add_map_of_Cons: "m ++ map_of ((k, v) # xs) = (m ++ map_of xs)(k \<mapsto> v)"
  by (rule ext) (simp add: map_add_def)

lemma foldl_add_checkpoint:
  "foldl (\<lambda>s (off, pos). add_checkpoint s off pos) s es =
     s\<lparr>offsets := offsets s @ map fst es, positions := positions s @ map snd es,
       index := index s ++ map_of (rev es)\<rparr>"
proof (induction es rule: rev_induct)
  case (snoc e es)
  show ?case
    unfolding foldl_append snoc
    by (cases e)
      (auto intro!: mem_store.equality simp: add_checkpoint_def map_add_map_of_Cons simp del: map_of.simps)
qed simp

lemma keep_prefix: "prefix (keep prev es) es"
  by (induction prev es rule: keep.induct) auto

lemma keep_increasing: "increasing (keep prev es) \<and> (\<forall>e \<in> set (keep prev es). after prev e)"
proof (induction prev es rule: keep.induct)
  case (2 prev e es)
  then show ?case by (auto simp: increasing_Cons intro: after_trans)
qed (simp add: increasing_def)

text \<open>It is the longest increasing prefix: whatever follows breaks the order.\<close>

lemma keep_append: "increasing es \<Longrightarrow> \<forall>e \<in> set es. after prev e \<Longrightarrow> prefix es (keep prev (es @ rest))"
  by (induction es arbitrary: prev) (auto simp: increasing_Cons)

lemma keep_all: "increasing es \<Longrightarrow> keep None es = es"
  using keep_append [of es None "[]"] keep_prefix [of None es]
  by (simp add: after_def prefix_order.eq_iff)

lemma sint_word_of_int64: "is_int64 p \<Longrightarrow> sint (word_of_int p :: u64) = p"
  by (simp add: is_int64_def sint_sbintrunc' signed_take_bit_int_eq_self)

lemma is_int64_sint: "is_int64 (sint (w :: u64))"
  using sint_greater_eq [of w] sint_less [of w] by (simp add: is_int64_def)

lemma length_index_entry [simp]: "length (index_entry off pos) = 16"
  by (simp add: index_entry_def)

lemma length_encode_entries [simp]: "length (encode_entries es) = 16 * length es"
  by (induction es) (auto simp: encode_entries_def)

lemma encode_entries_simps [simp]:
  "encode_entries [] = []"
  "encode_entries (e # es) = index_entry (fst e) (snd e) @ encode_entries es"
  "encode_entries (es @ es') = encode_entries es @ encode_entries es'"
  by (auto simp: encode_entries_def split: prod.splits)

lemma decode_encode:
  "\<forall>e \<in> set es. is_int64 (snd e) \<Longrightarrow> decode_entries (length es) (encode_entries es @ rest) = es"
  by (induction es) (auto simp: index_entry_def sint_word_of_int64)

lemma encode_decode:
  "16 * k \<le> length buf \<Longrightarrow> encode_entries (decode_entries k buf) = take (16 * k) buf"
proof (induction k buf rule: decode_entries.induct)
  case (2 k buf)
  have "index_entry (Uint64 buf) (sint (Uint64 (drop 8 buf))) = take 16 buf"
    using 2(2) PutUint64_Uint64 [of "take 8 buf"] PutUint64_Uint64 [of "take 8 (drop 8 buf)"]
    by (simp add: index_entry_def Uint64_take take_add [of 8 8, simplified, symmetric])
  then show ?case using 2 by (simp add: take_add)
qed simp

lemma length_decode_entries [simp]: "length (decode_entries k buf) = k"
  by (induction k buf rule: decode_entries.induct) auto

lemma decode_positions_int64: "e \<in> set (decode_entries k buf) \<Longrightarrow> is_int64 (snd e)"
  by (induction k buf rule: decode_entries.induct) (auto simp: is_int64_sint)

lemma decode_entries_take:
  "16 * k \<le> n \<Longrightarrow> decode_entries k (take n buf) = decode_entries k buf"
  by (induction k buf arbitrary: n rule: decode_entries.induct)
    (auto simp: Uint64_take drop_take)

lemma decode_prefix:
  "j \<le> k \<Longrightarrow> take j (decode_entries k buf) = decode_entries j buf"
proof (induction k buf arbitrary: j rule: decode_entries.induct)
  case (2 k buf)
  then show ?case by (cases j) auto
qed simp

text \<open>What a successful load leaves, whatever bytes the file held.\<close>

lemma load_entries_Inr:
  assumes "load_entries flt (length buf) s0 = Inr s1" and "content (indexFile s0) = buf"
    and "offsets s0 = []" "positions s0 = []" "index s0 = Map.empty"
  defines "es \<equiv> keep None (decode_entries (length buf div 16) buf)"
  shows "s1 = s0\<lparr>offsets := map fst es, positions := map snd es, index := map_of (rev es)\<rparr>"
proof -
  let ?n = "length buf div 16"
  have al: "length buf - length buf mod 16 = 16 * ?n" by (simp add: minus_mod_eq_mult_div)
  have rd: "b = take (16 * ?n) buf" if "file_ReadAt flt (indexFile s0) 0 (16 * ?n) = Inr b" for b
    using file_ReadAt_Inr(4) [OF that] assms(2) by simp
  have "s1 = load_loop (take (16 * ?n) buf) 0 ?n None s0"
    using assms(1) rd by (auto simp: load_entries_def indexEntryBytes_def Let_def al split: sum.splits if_splits)
  then show ?thesis
    by (simp add: load_loop_keep foldl_add_checkpoint decode_entries_take es_def assms(3-5))
qed

lemma heal_index_ok:
  assumes "heal_index flt (length (content (indexFile s1))) s1 = (s', None)"
    and "16 * length (offsets s1) \<le> length (content (indexFile s1))"
  shows "s' = s1\<lparr>indexFile := indexFile s'\<rparr>"
    and "content (indexFile s') = take (16 * length (offsets s1)) (content (indexFile s1))"
    and "fname (indexFile s') = fname (indexFile s1)"
    and "file_ok (indexFile s1) \<Longrightarrow> file_ok (indexFile s')"
  using assms
  by (auto simp: heal_index_def file_Truncate_def indexEntryBytes_def Let_def mult.commute
      file_ok_def prefix_take_mono nat_mult_distrib split: if_splits prod.splits option.splits)

text \<open>A successful load, whatever bytes the file held: memory and file hold the kept entries.\<close>

lemma LoadCheckpoints_ok:
  assumes "LoadCheckpoints flt s = (s', None)"
  defines "buf \<equiv> content (indexFile s)"
  defines "es \<equiv> keep None (decode_entries (length buf div 16) buf)"
  shows "s' = s\<lparr>offsets := map fst es, positions := map snd es, index := map_of (rev es),
               indexFile := indexFile s'\<rparr>"
    and "content (indexFile s') = encode_entries es"
    and "fname (indexFile s') = fname (indexFile s)"
    and "file_ok (indexFile s) \<Longrightarrow> file_ok (indexFile s')"
    and "prefix (encode_entries es) buf"
proof -
  let ?n = "length buf div 16"
  let ?s0 = "s\<lparr>offsets := [], positions := [], index := Map.empty\<rparr>"
  obtain s1 where l: "load_entries flt (length buf) ?s0 = Inr s1"
    and h: "heal_index flt (length buf) s1 = (s', None)"
    using assms(1)
    by (auto simp: LoadCheckpoints_def file_Stat_Size_def buf_def Let_def
        split: option.splits sum.splits)
  have s1: "s1 = s\<lparr>offsets := map fst es, positions := map snd es, index := map_of (rev es)\<rparr>"
    using load_entries_Inr [OF l] by (simp add: buf_def es_def)
  obtain zs where zs: "decode_entries ?n buf = es @ zs"
    using keep_prefix [of None "decode_entries ?n buf"] by (auto simp: es_def prefix_def)
  have len: "length es \<le> ?n" using arg_cong [OF zs, of length] by simp
  then have le: "16 * length es \<le> length buf" by linarith
  have enc: "encode_entries es = take (16 * length es) buf"
    using zs encode_decode [OF le] decode_prefix [OF len, of buf] by simp
  have fl: "indexFile s1 = indexFile s" "offsets s1 = map fst es" by (simp_all add: s1)
  note heal = heal_index_ok [of flt s1 s', unfolded fl, folded buf_def, simplified, OF h le]
  show "s' = s\<lparr>offsets := map fst es, positions := map snd es, index := map_of (rev es),
               indexFile := indexFile s'\<rparr>"
    using heal(1) by (simp add: s1)
  show "content (indexFile s') = encode_entries es" "fname (indexFile s') = fname (indexFile s)"
    "file_ok (indexFile s) \<Longrightarrow> file_ok (indexFile s')"
    using heal enc by simp_all
  show "prefix (encode_entries es) buf" by (simp add: enc take_is_prefix)
qed

lemma zip_map_fst_snd [simp]: "zip (map fst es) (map snd es) = es"
  by (induction es) auto

lemma LoadCheckpoints_entries:
  assumes "LoadCheckpoints flt s = (s', None)"
  shows "entries s' = keep None (decode_entries (length (content (indexFile s)) div 16) (content (indexFile s)))"
  by (subst LoadCheckpoints_ok(1) [OF assms]) (simp add: entries_def)

lemma LoadCheckpoints_inv:
  assumes "LoadCheckpoints flt s = (s', None)"
  shows "store_inv s'" "store_synced s'"
proof -
  define es where "es = keep None (decode_entries (length (content (indexFile s)) div 16) (content (indexFile s)))"
  note load = LoadCheckpoints_ok [OF assms, folded es_def]
  have fields: "offsets s' = map fst es" "positions s' = map snd es" "index s' = map_of (rev es)"
    by (subst load(1), simp)+
  then have ent: "entries s' = es" by (simp add: entries_def)
  have "is_int64 (snd e)" if "e \<in> set es" for e
    using that keep_prefix decode_positions_int64 unfolding es_def
    by (meson set_mono_prefix subsetD)
  then show "store_inv s'"
    using keep_increasing by (auto simp: store_inv_def fields ent es_def)
  show "store_synced s'" using load(2) by (simp add: store_synced_def ent)
qed

section \<open>Lookup\<close>

lemma store_inv_sorted:
  assumes "store_inv s" "i < j" "j < length (offsets s)"
  shows "offsets s ! i < offsets s ! j"
proof -
  have "length (entries s) = length (offsets s)"
    using assms(1) by (simp add: store_inv_def entries_def)
  then have "fst (entries s ! i) < fst (entries s ! j)"
    using assms sorted_wrt_nth_less [of _ "entries s" i j] by (auto simp: store_inv_def increasing_def)
  then show ?thesis using assms by (simp add: entries_def store_inv_def)
qed

text \<open>The binary search of \<open>Floor\<close> finds the greatest checkpoint at or below the target.\<close>

lemma Floor_Some:
  assumes inv: "store_inv s" and fl: "Floor s t = Some e"
  shows "e \<in> set (entries s)" "fst e \<le> t" "\<And>c. c \<in> set (entries s) \<Longrightarrow> fst c \<le> t \<Longrightarrow> fst c \<le> fst e"
proof -
  let ?n = "length (offsets s)" and ?f = "\<lambda>i. offsets s ! i > t"
  let ?i = "sort_Search ?n ?f"
  have mono: "\<forall>a b. a \<le> b \<longrightarrow> b < ?n \<longrightarrow> ?f a \<longrightarrow> ?f b"
    using store_inv_sorted [OF inv] by (metis order.order_iff_strict order.strict_trans)
  note sp = sort_Search_spec [of ?n ?f, OF mono]
  have i: "0 < ?i" and e: "e = (offsets s ! (?i - 1), positions s ! (?i - 1))"
    using fl by (auto simp: Floor_def Let_def split: if_splits)
  have lt: "?i - 1 < ?n" using i sp(1) by simp
  have pos: "length (positions s) = ?n" using inv by (simp add: store_inv_def)
  show "e \<in> set (entries s)" using e lt pos by (auto simp: entries_def set_zip)
  show "fst e \<le> t" using sp(2) [of "?i - 1"] i e by simp
  show "fst c \<le> fst e" if c: "c \<in> set (entries s)" "fst c \<le> t" for c
  proof -
    obtain k where k: "k < ?n" "fst c = offsets s ! k"
      using c(1) by (auto simp: entries_def set_zip)
    have "k < ?i"
    proof (rule ccontr)
      assume "\<not> k < ?i"
      then have "t < offsets s ! k" using sp(3) [of k] k(1) by simp
      then show False using c(2) k(2) by simp
    qed
    then have "k = ?i - 1 \<or> k < ?i - 1" by linarith
    then show ?thesis
      using store_inv_sorted [OF inv, of k "?i - 1"] lt k(2) e by auto
  qed
qed

lemma Floor_None:
  assumes inv: "store_inv s" and fl: "Floor s t = None" and c: "c \<in> set (entries s)"
  shows "t < fst c"
proof -
  let ?n = "length (offsets s)" and ?f = "\<lambda>i. offsets s ! i > t"
  have mono: "\<forall>a b. a \<le> b \<longrightarrow> b < ?n \<longrightarrow> ?f a \<longrightarrow> ?f b"
    using store_inv_sorted [OF inv] by (metis order.order_iff_strict order.strict_trans)
  obtain k where "k < ?n" "fst c = offsets s ! k" using c by (auto simp: entries_def set_zip)
  then show ?thesis
    using sort_Search_spec(3) [of ?n ?f, OF mono, of k] fl by (auto simp: Floor_def Let_def split: if_splits)
qed

section \<open>Recording\<close>

text \<open>When a call of \<open>Checkpoint\<close> reaches the disk: every \<open>nthIndex\<close>-th one, or every one when
  \<open>nthIndex\<close> is zero.\<close>

definition due :: "mem_store \<Rightarrow> bool" where
  "due s \<longleftrightarrow> \<not> (nthIndex s > 0 \<and> seen s + 1 < nthIndex s)"

lemma Checkpoint_skip: "\<not> due s \<Longrightarrow> Checkpoint flt s off pos = (s\<lparr>seen := seen s + 1\<rparr>, None)"
  by (simp add: Checkpoint_def due_def Let_def)

lemma Checkpoint_due:
  assumes "due s" "flt (SysWrite (fname (indexFile s))) = None"
    "length (content (indexFile s)) + 16 \<le> max_file_size"
  shows "Checkpoint flt s off pos =
    (add_checkpoint (s\<lparr>seen := 0, indexFile := (indexFile s)\<lparr>content := content (indexFile s) @ index_entry off pos\<rparr>\<rparr>) off pos,
     None)"
  using assms by (auto simp: Checkpoint_def due_def Let_def file_Write_def)

lemma entries_add:
  "length (positions s) = length (offsets s) \<Longrightarrow> entries (add_checkpoint s off pos) = entries s @ [(off, pos)]"
  by (simp add: entries_def add_checkpoint_def)

lemma Checkpoint_entries:
  assumes "length (positions s) = length (offsets s)"
  shows "entries (fst (Checkpoint flt s off pos)) \<in> {entries s, entries s @ [(off, pos)]}"
  using assms
  by (auto simp: Checkpoint_def Let_def entries_def add_checkpoint_def split: prod.splits option.splits)

lemma Checkpoint_inv:
  assumes inv: "store_inv s" and p: "is_int64 pos"
    and above: "\<And>e. e \<in> set (entries s) \<Longrightarrow> fst e < off \<and> snd e < pos"
  shows "store_inv (fst (Checkpoint flt s off pos))"
proof -
  have same: "store_inv (s\<lparr>seen := k, indexFile := f\<rparr>)" for k f
    using inv by (simp add: store_inv_def entries_def)
  have add: "store_inv (add_checkpoint (s\<lparr>seen := 0, indexFile := f\<rparr>) off pos)" for f
  proof -
    have ent: "entries (add_checkpoint (s\<lparr>seen := 0, indexFile := f\<rparr>) off pos) = entries s @ [(off, pos)]"
      using inv by (simp add: store_inv_def entries_def add_checkpoint_def)
    show ?thesis
      using inv p above unfolding store_inv_def ent
      by (auto simp: add_checkpoint_def increasing_def sorted_wrt_append simp del: map_of_append)
  qed
  have seen: "store_inv (s\<lparr>seen := k\<rparr>)" for k using inv by (simp add: store_inv_def entries_def)
  show ?thesis
    using same add seen [of "seen s + 1"]
    by (auto simp: Checkpoint_def Let_def split: prod.splits option.splits)
qed

lemma store_inv_int64: "store_inv st \<Longrightarrow> \<forall>e \<in> set (entries st). is_int64 (snd e)"
  by (auto simp: store_inv_def entries_def dest: set_zip_rightD)

text \<open>
  File and memory stay equal as long as a failing index write leaves nothing behind: a write
  that fails half-way would shift every entry after it.
\<close>

definition atomic_append :: "faults \<Rightarrow> os_file \<Rightarrow> bool" where
  "atomic_append flt f \<longleftrightarrow> (case flt (SysWrite (fname f)) of None \<Rightarrow> True | Some (_, k) \<Rightarrow> k = 0)"

definition store_file_ok :: "mem_store \<Rightarrow> bool" where
  "store_file_ok s \<longleftrightarrow> store_synced s \<and> length (content (indexFile s)) \<le> max_file_size"

lemma Checkpoint_file:
  assumes "atomic_append flt (indexFile s)" "store_file_ok s" "length (positions s) = length (offsets s)"
  shows "store_file_ok (fst (Checkpoint flt s off pos))"
    "fname (indexFile (fst (Checkpoint flt s off pos))) = fname (indexFile s)"
    "length (positions (fst (Checkpoint flt s off pos))) = length (offsets (fst (Checkpoint flt s off pos)))"
  using assms
  by (auto simp: Checkpoint_def Let_def store_file_ok_def store_synced_def entries_def add_checkpoint_def
      file_Write_def atomic_append_def split: option.splits)

section \<open>The contract the WAL relies on\<close>

locale checkpoint_index =
  fixes lookup :: "'s \<Rightarrow> u64 \<Rightarrow> (u64 \<times> int) option"
    and record_cp :: "faults \<Rightarrow> 's \<Rightarrow> u64 \<Rightarrow> int \<Rightarrow> 's \<times> goerror option"
    and load_cps :: "faults \<Rightarrow> 's \<Rightarrow> 's \<times> goerror option"
    and ents :: "'s \<Rightarrow> (u64 \<times> int) list"
    and ok :: "'s \<Rightarrow> bool"
  assumes lookup_sound: "ok s \<Longrightarrow> lookup s t = Some e \<Longrightarrow> e \<in> set (ents s) \<and> fst e \<le> t"
    and lookup_greatest: "ok s \<Longrightarrow> c \<in> set (ents s) \<Longrightarrow> fst c \<le> t \<Longrightarrow>
      \<exists>e. lookup s t = Some e \<and> fst c \<le> fst e"
    and record_ents: "ok s \<Longrightarrow> ents (fst (record_cp flt s off pos)) \<in> {ents s, ents s @ [(off, pos)]}"
    and record_ok: "ok s \<Longrightarrow> is_int64 pos \<Longrightarrow> (\<And>e. e \<in> set (ents s) \<Longrightarrow> fst e < off \<and> snd e < pos) \<Longrightarrow>
      ok (fst (record_cp flt s off pos))"
    and load_ok: "load_cps flt s = (s', None) \<Longrightarrow> ok s'"

interpretation mem_index: checkpoint_index Floor Checkpoint LoadCheckpoints entries store_inv
proof
  show "e \<in> set (entries s) \<and> fst e \<le> t" if "store_inv s" "Floor s t = Some e" for s t e
    using Floor_Some [OF that] by simp
  show "\<exists>e. Floor s t = Some e \<and> fst c \<le> fst e"
    if "store_inv s" "c \<in> set (entries s)" "fst c \<le> t" for s c t
  proof (cases "Floor s t")
    case None
    then show ?thesis using Floor_None [OF that(1) None that(2)] that(3) by simp
  next
    case (Some e)
    then show ?thesis using Floor_Some(3) [OF that(1) Some that(2,3)] by simp
  qed
  show "entries (fst (Checkpoint flt s off pos)) \<in> {entries s, entries s @ [(off, pos)]}"
    if "store_inv s" for s flt off pos
    using that by (intro Checkpoint_entries) (simp add: store_inv_def)
qed (fact Checkpoint_inv LoadCheckpoints_inv(1))+

section \<open>Properties\<close>

text \<open>C16: whatever bytes the index file holds, a successful \<open>LoadCheckpoints\<close> keeps exactly the longest
  prefix of its 16-byte entries that increases strictly in offset and position, in memory and on
  disk, and leaves a well-formed store.\<close>

theorem load_heals_index:
  assumes "LoadCheckpoints flt s = (s', None)"
  shows "store_inv s' \<and> content (indexFile s') = encode_entries (entries s')
    \<and> entries s' = decode_entries (length (entries s')) (content (indexFile s))
    \<and> prefix (content (indexFile s')) (content (indexFile s))
    \<and> (\<forall>k \<le> length (content (indexFile s)) div 16.
          increasing (decode_entries k (content (indexFile s))) \<longrightarrow> k \<le> length (entries s'))"
proof -
  define buf where "buf = content (indexFile s)"
  define n where "n = length buf div 16"
  have es: "entries s' = keep None (decode_entries n buf)"
    using LoadCheckpoints_entries [OF assms] by (simp add: buf_def n_def)
  have "prefix (entries s') (decode_entries n buf)" unfolding es by (rule keep_prefix)
  then have dec: "entries s' = decode_entries (length (entries s')) buf"
    using decode_prefix [of "length (entries s')" n buf] prefix_length_le [of "entries s'" "decode_entries n buf"]
    by (auto simp: prefix_def)
  have longest: "k \<le> length (entries s')" if "k \<le> n" "increasing (decode_entries k buf)" for k
  proof -
    have "decode_entries n buf = decode_entries k buf @ drop k (decode_entries n buf)"
      using decode_prefix [OF that(1), of buf] append_take_drop_id [of k "decode_entries n buf"] by simp
    then have "prefix (decode_entries k buf) (entries s')"
      using keep_append [OF that(2), of None "drop k (decode_entries n buf)"] es by (simp add: after_def)
    then show ?thesis using prefix_length_le by fastforce
  qed
  show ?thesis
    using LoadCheckpoints_inv [OF assms] LoadCheckpoints_ok(5) [OF assms] es dec longest
    by (simp add: store_synced_def buf_def n_def)
qed

definition torn_store :: mem_store where
  "torn_store = \<lparr>offsets = [], positions = [], index = Map.empty,
     indexFile = \<lparr>fname = ''0.index'', content = encode_entries [(9, 100), (5, 50)] @ [1, 2, 3], synced = []\<rparr>,
     seen = 0, nthIndex = 10\<rparr>"

definition healed_store :: mem_store where
  "healed_store = \<lparr>offsets = [9], positions = [100], index = [9 \<mapsto> 100],
     indexFile = \<lparr>fname = ''0.index'', content = encode_entries [(9, 100)], synced = []\<rparr>,
     seen = 0, nthIndex = 10\<rparr>"

lemma torn_store_load: "LoadCheckpoints no_faults torn_store = (healed_store, None)"
proof -
  have "Uint64 (index_entry 9 100 @ xs) = 9" "Uint64 (drop 8 (index_entry 9 100) @ xs) = 100"
    "Uint64 (index_entry 5 50) = 5" for xs
    by (simp_all add: index_entry_def Uint64_PutUint64 [of _ "PutUint64 _"])
  moreover have "32 \<le> max_file_size" by (simp add: max_file_size_def)
  moreover have "load_loop buf i 2 p st = load_loop buf i (Suc (Suc 0)) p st" for buf i p st
    by (simp only: numeral_2_eq_2)
  ultimately show ?thesis
    by (simp add: LoadCheckpoints_def torn_store_def healed_store_def no_faults_def file_Stat_Size_def
        load_entries_def heal_index_def file_ReadAt_def file_Truncate_def Let_def indexEntryBytes_def
        add_checkpoint_def)
qed

theorem load_heals_index_witness:
  "LoadCheckpoints no_faults torn_store = (healed_store, None) \<and> store_inv healed_store
    \<and> entries healed_store = decode_entries 1 (content (indexFile torn_store))
    \<and> prefix (content (indexFile healed_store)) (content (indexFile torn_store))"
  using load_heals_index [OF torn_store_load] torn_store_load by (simp add: healed_store_def entries_def)

text \<open>C17: \<open>Floor\<close> returns the checkpoint with the greatest offset at or below the target, and nothing
  exactly when every checkpoint is above it.\<close>

theorem floor_greatest:
  assumes "store_inv s"
  shows "case Floor s t of
      None \<Rightarrow> \<forall>c \<in> set (entries s). t < fst c
    | Some e \<Rightarrow> e \<in> set (entries s) \<and> fst e \<le> t \<and> (\<forall>c \<in> set (entries s). fst c \<le> t \<longrightarrow> fst c \<le> fst e)"
  using Floor_Some [OF assms, of t] Floor_None [OF assms, of t] by (auto split: option.splits)

definition demo_store :: mem_store where
  "demo_store = \<lparr>offsets = [9, 19], positions = [100, 220], index = [9 \<mapsto> 100, 19 \<mapsto> 220],
     indexFile = \<lparr>fname = ''0.index'', content = encode_entries [(9, 100), (19, 220)], synced = []\<rparr>,
     seen = 0, nthIndex = 10\<rparr>"

lemma demo_store_inv: "store_inv demo_store"
  by (simp add: demo_store_def store_inv_def entries_def increasing_def is_int64_def fun_upd_twist)

lemma demo_Floor: "Floor demo_store 25 = Some (19, 220)"
  by (simp add: Floor_def demo_store_def sort_Search_def search_loop.simps Let_def)

theorem floor_greatest_witness:
  "store_inv demo_store \<and> Floor demo_store 25 = Some (19, 220) \<and> (19, 220) \<in> set (entries demo_store)"
  using floor_greatest [OF demo_store_inv, of 25] demo_store_inv by (simp add: demo_Floor)

end
