(* ===== verification/Wal_Reader.thy ===== *)
theory Wal_Reader
  imports Checksum Index_Store
begin

text \<open>
  The on-disk record format of \<open>internal/wal\<close> and the reader, \<open>wal_reader.go\<close>: a record is
  a 4-byte length, a checksum over length and payload, and the payload; \<open>ReadAt\<close> starts at the
  nearest checkpoint and scans forward to the record it wants, verifying the checksum of that
  record only.

  \<open>encode_log\<close> is the abstract content of a segment file for a list of payloads. The lemmas
  show that the scan returns exactly the requested payload from any sound starting point,
  reports \<open>io.EOF\<close> past the end, and rejects a record whose payload or checksum was damaged.
\<close>

section \<open>Format\<close>

definition LengthSize :: nat where "LengthSize = 4"
definition MaxRecordSize :: nat where "MaxRecordSize = 64 * 1024 * 1024"
definition NthIndex :: u32 where "NthIndex = 10"

definition headerSize :: "checksum \<Rightarrow> nat" where
  "headerSize cs = LengthSize + Size cs"

text \<open>The bytes \<open>Reserve\<close> builds for one payload.\<close>

definition encode_record :: "checksum \<Rightarrow> bytes \<Rightarrow> bytes" where
  "encode_record cs data =
     (let lenBuf = PutUint32 (word_of_nat (length data)) in lenBuf @ Compute cs [lenBuf, data] @ data)"

definition encode_log :: "checksum \<Rightarrow> bytes list \<Rightarrow> bytes" where
  "encode_log cs recs = concat (map (encode_record cs) recs)"

text \<open>The byte position of the \<open>k\<close>-th record.\<close>

definition rec_pos :: "checksum \<Rightarrow> bytes list \<Rightarrow> nat \<Rightarrow> int" where
  "rec_pos cs recs k = int (length (encode_log cs (take k recs)))"

section \<open>Reader\<close>

record wal_reader =
  roffset :: u64
  rcsum :: checksum

definition NewWALReader :: "faults \<Rightarrow> os_file \<Rightarrow> checksum \<Rightarrow> goerror + wal_reader" where
  "NewWALReader flt f cs =
     (case flt (SysOpen (fname f)) of
        Some (msg, _) \<Rightarrow> Inl (Wrap (''wal: open for read '' @ fmt_q (fname f)) (OsError msg))
      | None \<Rightarrow> Inr \<lparr>roffset = 0, rcsum = cs\<rparr>)"

text \<open>The scan loop of \<open>WALReader.ReadAt\<close>, from record number \<open>cur\<close> at byte \<open>pos\<close>. It ends because
  every round moves \<open>pos\<close> by at least a header, or wraps it to a negative position, which the
  file rejects.\<close>

function (sequential) read_scan ::
  "faults \<Rightarrow> checksum \<Rightarrow> os_file \<Rightarrow> u64 \<Rightarrow> u64 \<Rightarrow> int \<Rightarrow> goerror + bytes" where
  "read_scan flt cs f offset cur pos =
     (case file_ReadAt flt f pos (headerSize cs) of
        Inl e \<Rightarrow>
          if e = EOF \<or> e = UnexpectedEOF then Inl EOF
          else Inl (Wrap (''wal: read header at offset '' @ dec (unat offset) @ '' (pos '' @ dec_int pos @ '')'') e)
      | Inr header \<Rightarrow>
          (let len = unat (Uint32 (take LengthSize header)) in
           if len > MaxRecordSize then
             Inl (CorruptionError pos [] [] (''length out of bounds: '' @ dec len))
           else if cur = offset then
             (let storedSum = drop LengthSize header in
              case file_ReadAt flt f (int64 (pos + int (headerSize cs))) len of
                Inl e \<Rightarrow> Inl (Wrap (''wal: read payload at offset '' @ dec (unat offset) @ '' (pos '' @ dec_int pos @ '')'') e)
              | Inr payload \<Rightarrow>
                  (let computedSum = Compute cs [take LengthSize header, payload] in
                   if computedSum \<noteq> storedSum then
                     Inl (CorruptionError pos storedSum computedSum
                            (''checksum mismatch reading offset '' @ dec (unat offset)))
                   else Inr payload))
           else read_scan flt cs f offset (cur + 1) (int64 (pos + (int (headerSize cs) + int len)))))"
  by pat_completeness auto
termination
proof (relation "measure (\<lambda>(flt, cs, f, offset, cur, pos).
    if pos < 0 then 0 else nat (int (length (content f)) + 1 - pos) + 1)")
  fix flt cs f header and offset cur :: u64 and pos :: int and len :: nat
  assume read: "file_ReadAt flt f pos (headerSize cs) = Inr header"
    and len: "len = unat (Uint32 (take LengthSize header))" "\<not> MaxRecordSize < len" "cur \<noteq> offset"
  let ?d = "int (headerSize cs) + int len"
  have hs: "0 < headerSize cs" by (simp add: headerSize_def LengthSize_def)
  have pos: "0 \<le> pos" and fits: "nat pos + headerSize cs \<le> min (length (content f)) max_file_size"
    using file_ReadAt_Inr [OF read] hs by auto
  have "pos + ?d < 2 ^ 64"
    using pos fits len(2) unfolding max_file_size_def MaxRecordSize_def by simp linarith
  then have "int64 (pos + ?d) < 0 \<or> pos < int64 (pos + ?d)"
    using int64_wrap [of "pos + ?d"] int64_id [of "pos + ?d"] pos hs by (cases "2 ^ 63 \<le> pos + ?d") auto
  then show "((flt, cs, f, offset, cur + 1, int64 (pos + ?d)), (flt, cs, f, offset, cur, pos)) \<in>
      measure (\<lambda>(flt, cs, f, offset, cur, pos).
        if pos < 0 then 0 else nat (int (length (content f)) + 1 - pos) + 1)"
    using pos fits hs by auto
qed auto

declare read_scan.simps [simp del]

text \<open>\<open>WALReader.ReadAt\<close>: pick the starting checkpoint, then scan.\<close>

definition reader_ReadAt ::
  "faults \<Rightarrow> wal_reader \<Rightarrow> os_file \<Rightarrow> mem_store \<Rightarrow> u64 \<Rightarrow> goerror + bytes" where
  "reader_ReadAt flt r f st offset =
     (let (cur, pos) = (case Floor st offset of None \<Rightarrow> (0, 0) | Some (c, p) \<Rightarrow> (c, p))
      in read_scan flt (rcsum r) f offset cur pos)"

text \<open>\<open>WALReader.Read\<close>: the record at the cursor; the cursor moves only on success.\<close>

definition reader_Read ::
  "faults \<Rightarrow> wal_reader \<Rightarrow> os_file \<Rightarrow> mem_store \<Rightarrow> wal_reader \<times> u64 \<times> (goerror + bytes)" where
  "reader_Read flt r f st =
     (case reader_ReadAt flt r f st (roffset r) of
        Inl e \<Rightarrow> (r, roffset r, Inl e)
      | Inr data \<Rightarrow> (r\<lparr>roffset := roffset r + 1\<rparr>, roffset r, Inr data))"

definition reader_Seek :: "wal_reader \<Rightarrow> u64 \<Rightarrow> wal_reader" where
  "reader_Seek r offset = r\<lparr>roffset := offset\<rparr>"

definition reader_Close :: "faults \<Rightarrow> os_file \<Rightarrow> goerror option" where
  "reader_Close flt f = file_Close flt f"

section \<open>The encoded log\<close>

lemma encode_log_simps [simp]:
  "encode_log cs [] = []"
  "encode_log cs (r # rs) = encode_record cs r @ encode_log cs rs"
  "encode_log cs (rs @ rs') = encode_log cs rs @ encode_log cs rs'"
  by (simp_all add: encode_log_def)

lemma encode_log_split:
  assumes "k < length recs"
  shows "encode_log cs recs =
    encode_log cs (take k recs) @ encode_record cs (recs ! k) @ encode_log cs (drop (Suc k) recs)"
  by (subst id_take_nth_drop [OF assms]) simp

lemma rec_pos_0 [simp]: "rec_pos cs recs 0 = 0"
  by (simp add: rec_pos_def)

lemma rec_pos_nonneg [simp]: "0 \<le> rec_pos cs recs k"
  by (simp add: rec_pos_def)

lemma rec_pos_all: "length recs \<le> k \<Longrightarrow> rec_pos cs recs k = int (length (encode_log cs recs))"
  by (simp add: rec_pos_def)

lemma rec_pos_take: "k \<le> m \<Longrightarrow> rec_pos cs (take m recs) k = rec_pos cs recs k"
  by (simp add: rec_pos_def min_absorb1)

lemma rec_pos_append: "k \<le> length recs \<Longrightarrow> rec_pos cs (recs @ recs') k = rec_pos cs recs k"
  by (simp add: rec_pos_def)

definition small :: "bytes list \<Rightarrow> bool" where
  "small recs \<longleftrightarrow> (\<forall>d \<in> set recs. length d \<le> MaxRecordSize)"

text \<open>No read of the file fails for a reason other than the end of the file.\<close>

definition readable :: "faults \<Rightarrow> os_file \<Rightarrow> bool" where
  "readable flt f \<longleftrightarrow> (\<forall>p. flt (SysReadAt (fname f) p) = None)"

lemma unat_length_u32:
  assumes "length d \<le> MaxRecordSize"
  shows "unat (word_of_nat (length d) :: u32) = length d"
  using assms by (simp add: MaxRecordSize_def unat_of_nat)

context checksum_alg
begin

lemma length_encode_record [simp]: "length (encode_record cs d) = headerSize cs + length d"
  by (simp add: encode_record_def Let_def Compute_size headerSize_def LengthSize_def)

lemma rec_pos_Suc:
  "k < length recs \<Longrightarrow>
     rec_pos cs recs (Suc k) = rec_pos cs recs k + (int (headerSize cs) + int (length (recs ! k)))"
  by (simp add: rec_pos_def take_Suc_conv_app_nth)

lemma rec_pos_mono: "k \<le> m \<Longrightarrow> rec_pos cs recs k \<le> rec_pos cs recs m"
proof (induction m)
  case (Suc m)
  then show ?case
    using rec_pos_Suc [of m recs] rec_pos_all [of recs m cs] rec_pos_all [of recs "Suc m" cs]
    by (cases "k = Suc m"; cases "m < length recs") auto
qed simp

lemma rec_pos_strict: "k < m \<Longrightarrow> m \<le> length recs \<Longrightarrow> rec_pos cs recs k < rec_pos cs recs m"
  using rec_pos_mono [of "Suc k" m recs] rec_pos_Suc [of k recs]
  by (simp add: headerSize_def LengthSize_def)

lemma count_le_length: "length recs \<le> length (encode_log cs recs)"
  by (induction recs) (auto simp: headerSize_def LengthSize_def)

text \<open>One round of the scan, standing on record \<open>k\<close> of the log.\<close>

lemma read_scan_step:
  assumes c: "content f = encode_log cs recs @ tail" and size: "length (content f) \<le> max_file_size"
    and sm: "small recs" and rd: "readable flt f" and k: "k < length recs"
  shows "read_scan flt cs f t cur (rec_pos cs recs k) =
    (if cur = t then Inr (recs ! k)
     else read_scan flt cs f t (cur + 1) (rec_pos cs recs (Suc k)))"
proof -
  let ?d = "recs ! k" and ?p = "rec_pos cs recs k"
  let ?len = "PutUint32 (word_of_nat (length ?d))"
  let ?sum = "Compute cs [?len, ?d]"
  let ?pre = "encode_log cs (take k recs)" and ?post = "encode_log cs (drop (Suc k) recs) @ tail"
  have d: "length ?d \<le> MaxRecordSize" using sm k by (simp add: small_def)
  have split: "content f = ?pre @ (?len @ ?sum) @ ?d @ ?post"
    using c encode_log_split [OF k, of cs] by (simp add: encode_record_def Let_def)
  have hl: "length (?len @ ?sum) = headerSize cs"
    by (simp add: Compute_size headerSize_def LengthSize_def)
  have header: "file_ReadAt flt f ?p (headerSize cs) = Inr (?len @ ?sum)"
    using file_ReadAt_split [OF split _ size, of ?p flt] rd hl by (simp add: rec_pos_def readable_def)
  have bound: "?p + (int (headerSize cs) + int (length ?d)) < 2 ^ 63"
    using size arg_cong [OF split, of length] hl
    by (simp add: rec_pos_def max_file_size_def)
  have payload: "file_ReadAt flt f (int64 (?p + int (headerSize cs))) (length ?d) = Inr ?d"
  proof -
    have "int64 (?p + int (headerSize cs)) = int (length (?pre @ ?len @ ?sum))"
      using bound hl by (subst int64_id) (simp_all add: rec_pos_def)
    then show ?thesis
      using file_ReadAt_split [of f "?pre @ ?len @ ?sum" ?d ?post _ flt] split size rd
      by (simp add: readable_def)
  qed
  have nxt: "int64 (?p + (int (headerSize cs) + int (length ?d))) = rec_pos cs recs (Suc k)"
    using bound k by (subst int64_nonneg) (simp_all add: rec_pos_Suc add_nonneg_nonneg)
  show ?thesis
    using header payload d nxt
    by (subst read_scan.simps) (simp add: Let_def LengthSize_def unat_length_u32)
qed

text \<open>From any record at or before the target, the scan returns the target's payload.\<close>

lemma read_scan_hit:
  assumes c: "content f = encode_log cs recs @ tail" and size: "length (content f) \<le> max_file_size"
    and sm: "small recs" and rd: "readable flt f" and "k \<le> j" "j < length recs"
  shows "read_scan flt cs f (of_nat j) (of_nat k) (rec_pos cs recs k) = Inr (recs ! j)"
  using assms(5)
proof (induction "j - k" arbitrary: k)
  case 0
  then show ?case using read_scan_step [OF c size sm rd, of k] assms(6) by simp
next
  case (Suc n)
  have "length recs < 2 ^ 64"
    using count_le_length [of recs] c size by (simp add: max_file_size_def)
  then have "(of_nat k :: u64) \<noteq> of_nat j"
    using Suc assms(6) by (auto simp: word_of_nat_eq_iff take_bit_nat_eq_self)
  then show ?case
    using read_scan_step [OF c size sm rd, of k "of_nat j" "of_nat k"] Suc.hyps(1) [of "Suc k"] Suc.hyps(2)
      assms(6) by (simp add: add.commute)
qed

text \<open>Past the last record of a log with nothing after it, the scan reports \<open>io.EOF\<close>.\<close>

lemma read_scan_EOF:
  assumes c: "content f = encode_log cs recs" and size: "length (content f) \<le> max_file_size"
    and sm: "small recs" and rd: "readable flt f" and "k \<le> length recs" "length recs \<le> unat t"
  shows "read_scan flt cs f t (of_nat k) (rec_pos cs recs k) = Inl EOF"
  using assms(5)
proof (induction "length recs - k" arbitrary: k)
  case 0
  then have "file_ReadAt flt f (rec_pos cs recs k) (headerSize cs) = Inl EOF"
    using rd c by (intro file_ReadAt_EOF) (simp_all add: rec_pos_all readable_def headerSize_def LengthSize_def)
  then show ?case by (subst read_scan.simps) simp
next
  case (Suc n)
  then have k: "k < length recs" by simp
  have "unat (of_nat k :: u64) \<le> k" by (simp add: unat_of_nat)
  then have "of_nat k \<noteq> t" using k assms(6) by auto
  then show ?case
    using read_scan_step [of f recs "[]", OF _ size sm rd k, of t "of_nat k"] c Suc.hyps(1) [of "Suc k"] Suc.hyps(2)
    by (simp add: add.commute)
qed

text \<open>
  Standing on the target: a record that is framed correctly but whose checksum field holds
  \<open>stored\<close> and whose payload is \<open>d\<close> is returned exactly when the checksum matches.
\<close>

lemma read_scan_target:
  assumes c: "content f = pre @ (PutUint32 (word_of_nat (length d)) @ stored @ d) @ post"
    and size: "length (content f) \<le> max_file_size" and rd: "readable flt f"
    and st: "length stored = Size cs" and d: "length d \<le> MaxRecordSize"
  shows "read_scan flt cs f t t (int (length pre)) =
    (let computed = Compute cs [PutUint32 (word_of_nat (length d)), d] in
     if computed \<noteq> stored
     then Inl (CorruptionError (int (length pre)) stored computed
                 (''checksum mismatch reading offset '' @ dec (unat t)))
     else Inr d)"
proof -
  let ?len = "PutUint32 (word_of_nat (length d))"
  have hl: "length (?len @ stored) = headerSize cs" using st by (simp add: headerSize_def LengthSize_def)
  have split: "content f = pre @ (?len @ stored) @ d @ post" using c by simp
  have header: "file_ReadAt flt f (int (length pre)) (headerSize cs) = Inr (?len @ stored)"
    using file_ReadAt_split [OF split _ size, of "int (length pre)" flt] rd hl by (simp add: readable_def)
  have "int64 (int (length pre) + int (headerSize cs)) = int (length (pre @ ?len @ stored))"
    using size arg_cong [OF split, of length] hl
    by (subst int64_nonneg) (simp_all add: max_file_size_def)
  then have payload: "file_ReadAt flt f (int64 (int (length pre) + int (headerSize cs))) (length d) = Inr d"
    using file_ReadAt_split [of f "pre @ ?len @ stored" d post _ flt] split size rd
    by (simp add: readable_def)
  show ?thesis
    using header payload d
    by (subst read_scan.simps) (simp add: Let_def LengthSize_def unat_length_u32)
qed

text \<open>The same, reached by a scan over intact records before it.\<close>

lemma read_scan_damaged:
  assumes c: "content f = encode_log cs recs @ (PutUint32 (word_of_nat (length d)) @ stored @ d) @ post"
    and size: "length (content f) \<le> max_file_size" and rd: "readable flt f"
    and st: "length stored = Size cs" and d: "length d \<le> MaxRecordSize" and sm: "small recs"
    and "k \<le> length recs"
  shows "read_scan flt cs f (of_nat (length recs)) (of_nat k) (rec_pos cs recs k) =
    (let computed = Compute cs [PutUint32 (word_of_nat (length d)), d] in
     if computed \<noteq> stored
     then Inl (CorruptionError (rec_pos cs recs (length recs)) stored computed
                 (''checksum mismatch reading offset '' @ dec (unat (of_nat (length recs) :: u64))))
     else Inr d)"
  using assms(7)
proof (induction "length recs - k" arbitrary: k)
  case 0
  then show ?case
    using read_scan_target [OF c size rd st d, of "of_nat (length recs)"] by (simp add: rec_pos_all Let_def)
next
  case (Suc n)
  then have k: "k < length recs" by simp
  have "length recs < 2 ^ 64"
    using count_le_length [of recs] c size by (simp add: max_file_size_def)
  then have "(of_nat k :: u64) \<noteq> of_nat (length recs)"
    using k by (auto simp: word_of_nat_eq_iff take_bit_nat_eq_self)
  then show ?case
    using read_scan_step [OF c size sm rd k] Suc.hyps(1) [of "Suc k"] Suc.hyps(2)
    by (simp add: add.commute)
qed

end

section \<open>Starting points\<close>

text \<open>Every checkpoint names one of the first \<open>n\<close> records and its byte position.\<close>

definition sound_entries :: "checksum \<Rightarrow> bytes list \<Rightarrow> nat \<Rightarrow> (u64 \<times> int) list \<Rightarrow> bool" where
  "sound_entries cs recs n es \<longleftrightarrow> (\<forall>e \<in> set es. \<exists>k < n. e = (of_nat k, rec_pos cs recs k))"

lemma sound_entries_mono: "sound_entries cs recs n es \<Longrightarrow> n \<le> m \<Longrightarrow> sound_entries cs recs m es"
  unfolding sound_entries_def by (meson order.strict_trans2)

lemma sound_entries_snoc:
  "sound_entries cs recs n es \<Longrightarrow> sound_entries cs recs (Suc n) (es @ [(of_nat n, rec_pos cs recs n)])"
  unfolding sound_entries_def by (metis Un_iff empty_iff less_Suc_eq list.set(1,2) insert_iff set_append)

lemma sound_entries_append:
  "n \<le> length recs \<Longrightarrow> sound_entries cs recs n es \<Longrightarrow> sound_entries cs (recs @ recs') n es"
  unfolding sound_entries_def by (metis rec_pos_append less_imp_le order.trans)

lemma sound_entries_take:
  "sound_entries cs recs n es \<Longrightarrow> n \<le> m \<Longrightarrow> sound_entries cs (take m recs) n es"
  unfolding sound_entries_def by (metis rec_pos_take less_imp_le order.trans)

context checkpoint_index
begin

text \<open>A lookup in a sound index gives a record at or before the target, with its position.\<close>

lemma lookup_start:
  assumes "ok s" "sound_entries cs recs n (ents s)" "lookup s t = Some e" "n \<le> 2 ^ 64"
  obtains k where "k < n" "e = (of_nat k, rec_pos cs recs k)" "k \<le> unat t"
proof -
  obtain k where k: "k < n" "e = (of_nat k, rec_pos cs recs k)"
    using lookup_sound [OF assms(1,3)] assms(2) by (auto simp: sound_entries_def)
  have "(of_nat k :: u64) \<le> t" using lookup_sound [OF assms(1,3)] k(2) by simp
  then have "k \<le> unat t"
    using k(1) assms(4) by (simp add: word_le_nat_alt unat_of_nat)
  with k show ?thesis by (rule that)
qed

end

definition scan_start :: "mem_store \<Rightarrow> u64 \<Rightarrow> u64 \<times> int" where
  "scan_start st t = (case Floor st t of None \<Rightarrow> (0, 0) | Some e \<Rightarrow> e)"

lemma reader_ReadAt_scan:
  "reader_ReadAt flt r f st t = (let (cur, pos) = scan_start st t in read_scan flt (rcsum r) f t cur pos)"
  by (simp add: reader_ReadAt_def scan_start_def split: option.splits)

lemma scan_start_sound:
  assumes "store_inv st" "sound_entries cs recs n (entries st)" "n \<le> 2 ^ 64" "n \<le> m"
  obtains k where "k \<le> m" "k \<le> unat t" "scan_start st t = (of_nat k, rec_pos cs recs k)"
proof (cases "Floor st t")
  case None
  then show ?thesis using that [of 0] by (simp add: scan_start_def)
next
  case (Some e)
  then show ?thesis
    using mem_index.lookup_start [OF assms(1,2) Some assms(3)] that assms(4)
    by (metis less_imp_le_nat option.simps(5) order.trans scan_start_def)
qed

section \<open>Reading a log through its index\<close>

text \<open>A file that holds exactly the records \<open>recs\<close>, with an index sound for them.\<close>

definition log_image :: "checksum \<Rightarrow> bytes list \<Rightarrow> os_file \<Rightarrow> mem_store \<Rightarrow> bool" where
  "log_image cs recs f st \<longleftrightarrow>
     content f = encode_log cs recs \<and> length (encode_log cs recs) \<le> max_file_size \<and> small recs
     \<and> store_inv st \<and> sound_entries cs recs (length recs) (entries st)"

context checksum_alg
begin

lemma log_image_count: "log_image cs recs f st \<Longrightarrow> length recs < 2 ^ 63"
  using count_le_length [of recs] by (simp add: log_image_def max_file_size_def)

lemma reader_hit:
  assumes img: "log_image cs recs f st" and "readable flt f" "rcsum r = cs" "j < length recs"
  shows "reader_ReadAt flt r f st (of_nat j) = Inr (recs ! j)"
proof -
  have n: "length recs < 2 ^ 63" using img by (rule log_image_count)
  obtain k where k: "k \<le> unat (of_nat j :: u64)"
    "scan_start st (of_nat j) = (of_nat k, rec_pos cs recs k)"
    using scan_start_sound [of st cs recs "length recs" "length recs" "of_nat j"] img n
    by (auto simp: log_image_def)
  then have "k \<le> j" by (simp add: unat_of_nat)
  then show ?thesis
    using read_scan_hit [of f recs "[]" flt k j] img assms(2-4) k(2)
    by (simp add: reader_ReadAt_scan log_image_def)
qed

lemma reader_EOF:
  assumes img: "log_image cs recs f st" and "readable flt f" "rcsum r = cs" "length recs \<le> unat t"
  shows "reader_ReadAt flt r f st t = Inl EOF"
proof -
  have n: "length recs < 2 ^ 63" using img by (rule log_image_count)
  obtain k where k: "k \<le> length recs" "scan_start st t = (of_nat k, rec_pos cs recs k)"
    using scan_start_sound [of st cs recs "length recs" "length recs" t] img n
    by (auto simp: log_image_def)
  then show ?thesis
    using read_scan_EOF [of f recs flt k t] img assms(2-4)
    by (simp add: reader_ReadAt_scan log_image_def)
qed

text \<open>A record whose checksum field and payload were overwritten, all framing intact.\<close>

lemma reader_damaged:
  assumes img: "log_image cs (recs1 @ d # recs2) f st"
    and f': "f' = f\<lparr>content := encode_log cs recs1 @ (PutUint32 (word_of_nat (length d)) @ stored @ d') @ encode_log cs recs2\<rparr>"
    and len: "length d' = length d" "length stored = Size cs"
    and "readable flt f" "rcsum r = cs"
  shows "reader_ReadAt flt r f' st (of_nat (length recs1)) =
    (let computed = Compute cs [PutUint32 (word_of_nat (length d)), d'] in
     if computed \<noteq> stored
     then Inl (CorruptionError (rec_pos cs recs1 (length recs1)) stored computed
                 (''checksum mismatch reading offset '' @ dec (length recs1)))
     else Inr d')"
proof -
  let ?recs = "recs1 @ d # recs2" and ?t = "of_nat (length recs1) :: u64"
  have n: "length ?recs < 2 ^ 63" using img by (rule log_image_count)
  then have t: "unat ?t = length recs1" by (simp add: unat_of_nat)
  obtain k where k: "k \<le> length recs1" "scan_start st ?t = (of_nat k, rec_pos cs ?recs k)"
    using scan_start_sound [of st cs ?recs "length ?recs" "length ?recs" ?t] img n t
    by (auto simp: log_image_def)
  then have start: "scan_start st ?t = (of_nat k, rec_pos cs recs1 k)" by (simp add: rec_pos_append)
  have "length (content f') = length (content f)"
    using img len f' by (simp add: log_image_def headerSize_def LengthSize_def)
  moreover have "readable flt f'" using assms(5) f' by (simp add: readable_def)
  moreover have "small recs1" "length d' \<le> MaxRecordSize"
    using img len by (simp_all add: log_image_def small_def)
  ultimately show ?thesis
    using read_scan_damaged [of f' recs1 d' stored "encode_log cs recs2" flt k] img f' k(1) len
      assms(6) t
    by (simp add: reader_ReadAt_scan start log_image_def Let_def)
qed

end

context byte_sensitive
begin

lemma reader_detects_payload:
  assumes "log_image cs (recs1 @ (xs @ b # ys) # recs2) f st" "b \<noteq> b'"
    and "readable flt f" "rcsum r = cs"
    and "len = PutUint32 (word_of_nat (length (xs @ b # ys)))"
    and "f' = f\<lparr>content := encode_log cs recs1 @ (len @ Compute cs [len, xs @ b # ys] @ (xs @ b' # ys)) @ encode_log cs recs2\<rparr>"
  shows "reader_ReadAt flt r f' st (of_nat (length recs1)) =
    Inl (CorruptionError (rec_pos cs recs1 (length recs1))
           (Compute cs [len, xs @ b # ys]) (Compute cs [len, xs @ b' # ys])
           (''checksum mismatch reading offset '' @ dec (length recs1)))"
  using reader_damaged [OF assms(1) _ _ _ assms(3,4), of f' "Compute cs [len, xs @ b # ys]" "xs @ b' # ys"]
    assms(2,5,6) detects_in_part [of b' b len xs ys]
  by (simp add: Compute_size Let_def)

end

end
