(* ===== verification/Wal_Writer.thy ===== *)
theory Wal_Writer
  imports Wal_Reader
begin

text \<open>
  The append path of \<open>internal/wal/wal_writer.go\<close>: \<open>Reserve\<close> (phase 1, bytes into the page
  cache), \<open>Commit\<close> (phase 2, group-committed fsync), \<open>Write\<close>, \<open>Close\<close>, and the recovery that
  \<open>NewWalWriter\<close> runs on the bytes a crash left.

  The critical sections of \<open>commitLocked\<close> are separate definitions (\<open>lead_begin\<close>, \<open>drain\<close>,
  \<open>lead_finish\<close>), shared by the sequential \<open>commitLocked\<close> here and by the interleaved
  execution of theory \<open>Group_Commit\<close>. \<open>wal_inv\<close> relates a writer to the list of payloads
  it holds. The lemmas show that every operation keeps it, that commits return and make
  records durable, and that recovery finds exactly the complete records of the file.
\<close>

section \<open>State\<close>

record pendingCheckpoint =
  pc_seq :: u64
  pc_offset :: u64
  pc_pos :: int

record wal_writer =
  wfile :: os_file
  wcsum :: checksum
  wsize :: int
  nextOffset :: u64
  writeSeq :: u64
  syncedSeq :: u64
  syncing :: bool
  syncErr :: "goerror option"
  pending :: "pendingCheckpoint list"
  wstore :: mem_store

section \<open>Appending\<close>

definition Reserve :: "faults \<Rightarrow> wal_writer \<Rightarrow> bytes \<Rightarrow> wal_writer \<times> (goerror + u64 \<times> u64)" where
  "Reserve flt w data =
     (if length data > MaxRecordSize then
        (w, Inl (Errorf (''wal: payload too large ('' @ dec (length data) @ '' > '' @ dec MaxRecordSize @ '')'')))
      else
        let pos = wsize w;
            buf = encode_record (wcsum w) data in
        case file_Write flt (wfile w) buf of
          (f, Some e) \<Rightarrow> (w\<lparr>wfile := f\<rparr>, Inl (Wrap ''wal: write record'' e))
        | (f, None) \<Rightarrow>
            let offset = nextOffset w;
                seq = writeSeq w + 1 in
            (w\<lparr>wfile := f, nextOffset := nextOffset w + 1, wsize := int64 (wsize w + int (length buf)),
               writeSeq := seq,
               pending := pending w @ [\<lparr>pc_seq = seq, pc_offset = offset, pc_pos = pos\<rparr>]\<rparr>,
             Inr (offset, seq)))"

section \<open>Committing\<close>

text \<open>A goroutine becomes the leader: it raises \<open>syncing\<close> and takes \<open>writeSeq\<close> as its target.\<close>

definition lead_begin :: "wal_writer \<Rightarrow> wal_writer \<times> u64" where
  "lead_begin w = (w\<lparr>syncing := True\<rparr>, writeSeq w)"

text \<open>The drain loop: checkpoint the pending records up to the target, ignoring failures.\<close>

fun drain :: "faults \<Rightarrow> u64 \<Rightarrow> pendingCheckpoint list \<Rightarrow> mem_store \<Rightarrow> mem_store \<times> pendingCheckpoint list" where
  "drain flt target [] st = (st, [])"
| "drain flt target (p # ps) st =
     (if pc_seq p \<le> target
      then drain flt target ps (fst (Checkpoint flt st (pc_offset p) (pc_pos p)))
      else (st, p # ps))"

text \<open>What the leader does once the fsync has returned \<open>serr\<close> and it holds the mutex again.\<close>

definition lead_finish :: "faults \<Rightarrow> u64 \<Rightarrow> goerror option \<Rightarrow> wal_writer \<Rightarrow> wal_writer" where
  "lead_finish flt target serr w0 =
     (let w = w0\<lparr>syncing := False\<rparr> in
      case serr of
        Some e \<Rightarrow> w\<lparr>syncErr := Some (Wrap ''wal: fsync'' e)\<rparr>
      | None \<Rightarrow>
          let w' = (if target > syncedSeq w then w\<lparr>syncedSeq := target\<rparr> else w);
              (st, ps) = drain flt target (pending w') (wstore w') in
          w'\<lparr>wstore := st, pending := ps\<rparr>)"

text \<open>
  \<open>commitLocked\<close> run by one goroutine with no other active: waiting on the condition variable
  would never end, and neither would the loop if the sequence number was never reserved.
  Both are the value \<open>None\<close>.
\<close>

partial_function (option) commitLocked ::
  "faults \<Rightarrow> u64 \<Rightarrow> wal_writer \<Rightarrow> (wal_writer \<times> goerror option) option" where
  "commitLocked flt seq w =
     (case syncErr w of
        Some e \<Rightarrow> Some (w, Some e)
      | None \<Rightarrow>
          if syncedSeq w \<ge> seq then Some (w, None)
          else if syncing w then None
          else
            let (w1, target) = lead_begin w;
                (f, serr) = file_Sync flt (wfile w1);
                w2 = lead_finish flt target serr (w1\<lparr>wfile := f\<rparr>) in
            if serr \<noteq> None then Some (w2, syncErr w2)
            else commitLocked flt seq w2)"

definition Commit :: "faults \<Rightarrow> wal_writer \<Rightarrow> u64 \<Rightarrow> (wal_writer \<times> goerror option) option" where
  "Commit flt w seq = commitLocked flt seq w"

definition Write :: "faults \<Rightarrow> wal_writer \<Rightarrow> bytes \<Rightarrow> (wal_writer \<times> (goerror + u64)) option" where
  "Write flt w data =
     (case Reserve flt w data of
        (w1, Inl e) \<Rightarrow> Some (w1, Inl e)
      | (w1, Inr (offset, seq)) \<Rightarrow>
          (case Commit flt w1 seq of
             None \<Rightarrow> None
           | Some (w2, Some e) \<Rightarrow> Some (w2, Inl e)
           | Some (w2, None) \<Rightarrow> Some (w2, Inr offset)))"

definition writer_Size :: "wal_writer \<Rightarrow> int" where
  "writer_Size w = wsize w"

definition NextOffset :: "wal_writer \<Rightarrow> u64" where
  "NextOffset w = nextOffset w"

fun checkpoint_all :: "faults \<Rightarrow> pendingCheckpoint list \<Rightarrow> mem_store \<Rightarrow> mem_store" where
  "checkpoint_all flt [] st = st"
| "checkpoint_all flt (p # ps) st =
     checkpoint_all flt ps (fst (Checkpoint flt st (pc_offset p) (pc_pos p)))"

definition writer_Close :: "faults \<Rightarrow> wal_writer \<Rightarrow> wal_writer \<times> goerror option" where
  "writer_Close flt w =
     (if writeSeq w > syncedSeq w \<and> syncErr w = None then
        (case file_Sync flt (wfile w) of
           (f, Some e) \<Rightarrow> (w\<lparr>wfile := f\<rparr>, Some (Wrap ''wal: fsync on close'' e))
         | (f, None) \<Rightarrow>
             (w\<lparr>wfile := f, wstore := checkpoint_all flt (pending w) (wstore w), pending := [],
                syncedSeq := writeSeq w\<rparr>,
              file_Close flt f))
      else (w, file_Close flt (wfile w)))"

section \<open>Recovery\<close>

text \<open>The truncation of a torn tail, with the message the code gives when it fails.\<close>

definition truncate_torn :: "faults \<Rightarrow> string \<Rightarrow> os_file \<Rightarrow> u64 \<Rightarrow> int \<Rightarrow> goerror + os_file \<times> u64 \<times> int" where
  "truncate_torn flt what f off pos =
     (case file_Truncate flt f pos of
        (_, Some e) \<Rightarrow> Inl (Wrap (''wal: truncate torn '' @ what @ '' at '' @ dec_int pos) e)
      | (f', None) \<Rightarrow> Inr (f', off, pos))"

text \<open>The scan loop of \<open>recover\<close>: it frames records by their length alone.\<close>

partial_function (option) recover_scan ::
  "faults \<Rightarrow> checksum \<Rightarrow> os_file \<Rightarrow> int \<Rightarrow> u64 \<Rightarrow> int \<Rightarrow> (goerror + os_file \<times> u64 \<times> int) option" where
  "recover_scan flt cs f fileSize off pos =
     (if pos = fileSize then Some (Inr (f, off, pos))
      else if int64 (pos + int (headerSize cs)) > fileSize then
        Some (truncate_torn flt ''header'' f off pos)
      else case file_ReadAt flt f pos LengthSize of
        Inl e \<Rightarrow> Some (Inl (Wrap (''wal: read length at '' @ dec_int pos) e))
      | Inr lenBuf \<Rightarrow>
          (let len = unat (Uint32 lenBuf) in
           if len > MaxRecordSize then
             Some (Inl (CorruptionError pos [] [] (''length out of bounds: '' @ dec len)))
           else
             let recEnd = int64 (int64 (pos + int (headerSize cs)) + int len) in
             if recEnd > fileSize then Some (truncate_torn flt ''payload'' f off pos)
             else recover_scan flt cs f fileSize (off + 1) recEnd))"

text \<open>The last checkpoint, if the record it names can fit in the file; else the start.\<close>

definition recover_start :: "checksum \<Rightarrow> mem_store \<Rightarrow> int \<Rightarrow> u64 \<times> int" where
  "recover_start cs st fileSize =
     (case Floor st (NOT 0) of
        Some (cpOff, cpPos) \<Rightarrow> if int64 (cpPos + int (headerSize cs)) \<le> fileSize then (cpOff, cpPos) else (0, 0)
      | None \<Rightarrow> (0, 0))"

definition recover :: "faults \<Rightarrow> wal_writer \<Rightarrow> (wal_writer \<times> goerror option) option" where
  "recover flt w =
     (case LoadCheckpoints flt (wstore w) of
        (st, Some e) \<Rightarrow> Some (w\<lparr>wstore := st\<rparr>, Some e)
      | (st, None) \<Rightarrow>
          (case file_Stat_Size flt (wfile w) of
             Inl e \<Rightarrow> Some (w\<lparr>wstore := st\<rparr>, Some (Wrap ''wal: stat during recovery'' e))
           | Inr fileSize \<Rightarrow>
               (let (off, pos) = recover_start (wcsum w) st fileSize in
                case recover_scan flt (wcsum w) (wfile w) fileSize off pos of
                  None \<Rightarrow> None
                | Some (Inl e) \<Rightarrow> Some (w\<lparr>wstore := st\<rparr>, Some e)
                | Some (Inr (f, off', pos')) \<Rightarrow>
                    Some (w\<lparr>wstore := st, wfile := f, nextOffset := off', wsize := pos'\<rparr>, None))))"

text \<open>\<open>NewWalWriter\<close> on the file found (or created) at the path.\<close>

definition NewWalWriter ::
  "faults \<Rightarrow> os_file \<Rightarrow> bool \<Rightarrow> mem_store \<Rightarrow> checksum \<Rightarrow> (goerror + wal_writer) option" where
  "NewWalWriter flt f isNew st cs =
     (case flt (SysOpen (fname f)) of
        Some (msg, _) \<Rightarrow> Some (Inl (Wrap (''wal: open '' @ fmt_q (fname f)) (OsError msg)))
      | None \<Rightarrow>
          (case (if isNew then flt (SysDirSync (fname f)) else None) of
             Some (msg, _) \<Rightarrow> Some (Inl (Wrap (''wal: fsync dir for '' @ fmt_q (fname f)) (OsError msg)))
           | None \<Rightarrow>
               (case recover flt \<lparr>wfile = f, wcsum = cs, wsize = 0, nextOffset = 0, writeSeq = 0,
                                 syncedSeq = 0, syncing = False, syncErr = None, pending = [],
                                 wstore = st\<rparr> of
                  None \<Rightarrow> None
                | Some (_, Some e) \<Rightarrow> Some (Inl e)
                | Some (w, None) \<Rightarrow> Some (Inr w))))"

lemma u64_le: "a < 2 ^ 64 \<Longrightarrow> b < 2 ^ 64 \<Longrightarrow> (of_nat a :: u64) \<le> of_nat b \<longleftrightarrow> a \<le> b"
  by (simp add: word_le_nat_alt unat_of_nat)

lemma u64_less: "a < 2 ^ 64 \<Longrightarrow> b < 2 ^ 64 \<Longrightarrow> (of_nat a :: u64) < of_nat b \<longleftrightarrow> a < b"
  by (simp add: word_less_nat_alt unat_of_nat)

section \<open>Invariant\<close>

text \<open>
  The writer holds the payloads \<open>recs\<close>, the first \<open>b\<close> of which were there when it was opened,
  and has committed the first \<open>s\<close> of its own: those are durable and offered to the index,
  the others are pending.
\<close>

definition mk_pending :: "checksum \<Rightarrow> bytes list \<Rightarrow> nat \<Rightarrow> nat \<Rightarrow> pendingCheckpoint" where
  "mk_pending cs recs b k = \<lparr>pc_seq = of_nat (k - b + 1), pc_offset = of_nat k, pc_pos = rec_pos cs recs k\<rparr>"

definition durable :: "checksum \<Rightarrow> bytes list \<Rightarrow> os_file \<Rightarrow> bool" where
  "durable cs recs f \<longleftrightarrow> prefix (encode_log cs recs) (synced f)"

text \<open>The index names durable records only.\<close>

definition index_lags :: "checksum \<Rightarrow> bytes list \<Rightarrow> nat \<Rightarrow> os_file \<Rightarrow> mem_store \<Rightarrow> bool" where
  "index_lags cs recs m f st \<longleftrightarrow>
     (\<exists>n \<le> m. sound_entries cs recs n (entries st) \<and> durable cs (take n recs) f)"

definition wal_inv :: "bytes list \<Rightarrow> nat \<Rightarrow> nat \<Rightarrow> wal_writer \<Rightarrow> bool" where
  "wal_inv recs b s w \<longleftrightarrow>
     content (wfile w) = encode_log (wcsum w) recs \<and> file_ok (wfile w) \<and> small recs
     \<and> store_inv (wstore w) \<and> index_lags (wcsum w) recs (b + s) (wfile w) (wstore w)
     \<and> wsize w = int (length (encode_log (wcsum w) recs)) \<and> nextOffset w = of_nat (length recs)
     \<and> b + s \<le> length recs \<and> writeSeq w = of_nat (length recs - b) \<and> syncedSeq w = of_nat s
     \<and> pending w = map (mk_pending (wcsum w) recs b) [b + s..<length recs]
     \<and> (0 < s \<longrightarrow> durable (wcsum w) (take (b + s) recs) (wfile w))"

lemma index_lags_sound: "index_lags cs recs m f st \<Longrightarrow> sound_entries cs recs m (entries st)"
  unfolding index_lags_def using sound_entries_mono by blast

lemma index_lags_append:
  assumes "index_lags cs recs m f st" "m \<le> length recs" "synced f' = synced f"
  shows "index_lags cs (recs @ recs') m f' st"
proof -
  obtain n where n: "n \<le> m" "sound_entries cs recs n (entries st)" "durable cs (take n recs) f"
    using assms(1) by (auto simp: index_lags_def)
  then have "sound_entries cs (recs @ recs') n (entries st)"
    using assms(2) by (intro sound_entries_append) auto
  moreover have "durable cs (take n (recs @ recs')) f'" using n assms(2,3) by (simp add: durable_def)
  ultimately show ?thesis using n(1) by (auto simp: index_lags_def)
qed

lemma wal_inv_image:
  assumes "wal_inv recs b s w"
  shows "log_image (wcsum w) recs (wfile w) (wstore w)"
  using assms sound_entries_mono [of "wcsum w" recs "b + s" "entries (wstore w)" "length recs"]
  by (auto simp: wal_inv_def log_image_def file_ok_def dest: index_lags_sound)

lemma wal_inv_file: "wal_inv recs b s w \<Longrightarrow> prefix (synced (wfile w)) (content (wfile w))"
  unfolding wal_inv_def file_ok_def by blast

lemma wal_inv_flags [simp]:
  "wal_inv recs b s (w\<lparr>syncing := x\<rparr>) = wal_inv recs b s w"
  "wal_inv recs b s (w\<lparr>syncErr := e\<rparr>) = wal_inv recs b s w"
  by (simp_all add: wal_inv_def)

text \<open>More of the file may become durable at any time.\<close>

lemma durable_grows: "durable cs recs f \<Longrightarrow> prefix (synced f) (synced f') \<Longrightarrow> durable cs recs f'"
  unfolding durable_def by (rule prefix_order.trans)

lemma wal_inv_sync:
  assumes "wal_inv recs b s w" "prefix (synced (wfile w)) y" "prefix y (content (wfile w))"
  shows "wal_inv recs b s (w\<lparr>wfile := (wfile w)\<lparr>synced := y\<rparr>\<rparr>)"
proof -
  have d: "durable cs r ((wfile w)\<lparr>synced := y\<rparr>)" if "durable cs r (wfile w)" for cs r
    using that assms(2) by (rule durable_grows [of _ _ _ "(wfile w)\<lparr>synced := y\<rparr>", simplified])
  have "index_lags (wcsum w) recs (b + s) ((wfile w)\<lparr>synced := y\<rparr>) (wstore w)"
    using assms(1) d unfolding wal_inv_def index_lags_def by blast
  then show ?thesis
    using assms d unfolding wal_inv_def file_ok_def by auto
qed

lemma durable_content:
  "content f = encode_log cs recs \<Longrightarrow> prefix (content f) (synced f) \<Longrightarrow> durable cs (take n recs) f"
  using encode_log_simps(3) [of cs "take n recs" "drop n recs"]
  by (auto simp: durable_def prefix_def)

lemma mk_pending_append:
  "k \<le> length recs \<Longrightarrow> mk_pending cs (recs @ recs') b k = mk_pending cs recs b k"
  by (simp add: mk_pending_def rec_pos_append)

text \<open>Draining keeps the index file equal to the checkpoints in memory.\<close>

lemma drain_file:
  assumes "atomic_append flt (indexFile st)" "store_file_ok st" "length (positions st) = length (offsets st)"
  shows "store_file_ok (fst (drain flt t ps st)) \<and>
    fname (indexFile (fst (drain flt t ps st))) = fname (indexFile st) \<and>
    length (positions (fst (drain flt t ps st))) = length (offsets (fst (drain flt t ps st)))"
  using assms
proof (induction ps arbitrary: st)
  case (Cons p ps)
  let ?st = "fst (Checkpoint flt st (pc_offset p) (pc_pos p))"
  note ck = Checkpoint_file [OF Cons.prems, of "pc_offset p" "pc_pos p"]
  have "atomic_append flt (indexFile ?st)" using Cons.prems(1) ck(2) by (simp add: atomic_append_def)
  then show ?case using Cons.IH [of ?st] ck Cons.prems(2,3) by simp
qed simp

lemma lead_finish_file:
  assumes "atomic_append flt (indexFile (wstore w))" "store_file_ok (wstore w)" "store_inv (wstore w)"
  shows "store_file_ok (wstore (lead_finish flt t e w))"
  using assms drain_file [of flt "wstore w" t "pending w"]
  by (auto simp: lead_finish_def Let_def store_inv_def split: option.splits prod.splits)

text \<open>So does a whole commit, which never loses the file names either.\<close>

lemma lead_finish_store:
  assumes "atomic_append flt (indexFile (wstore w))" "store_file_ok (wstore w)"
    "length (positions (wstore w)) = length (offsets (wstore w))"
  shows "store_file_ok (wstore (lead_finish flt t e w)) \<and>
    fname (indexFile (wstore (lead_finish flt t e w))) = fname (indexFile (wstore w)) \<and>
    length (positions (wstore (lead_finish flt t e w))) = length (offsets (wstore (lead_finish flt t e w)))"
  using assms drain_file [of flt "wstore w" t "pending w"]
  by (auto simp: lead_finish_def Let_def split: option.splits prod.splits)

lemma commitLocked_store:
  assumes "commitLocked flt seq w = Some r"
  shows "atomic_append flt (indexFile (wstore w)) \<longrightarrow> store_file_ok (wstore w) \<longrightarrow>
    length (positions (wstore w)) = length (offsets (wstore w)) \<longrightarrow>
    store_file_ok (wstore (fst r)) \<and> fname (indexFile (wstore (fst r))) = fname (indexFile (wstore w))"
proof (rule commitLocked.raw_induct [OF _ assms, rotated])
  fix commit :: "faults \<Rightarrow> u64 \<Rightarrow> wal_writer \<Rightarrow> (wal_writer \<times> goerror option) option" and flt seq w r
  assume IH: "\<And>flt seq w r. commit flt seq w = Some r \<Longrightarrow>
      atomic_append flt (indexFile (wstore w)) \<longrightarrow> store_file_ok (wstore w) \<longrightarrow>
      length (positions (wstore w)) = length (offsets (wstore w)) \<longrightarrow>
      store_file_ok (wstore (fst r)) \<and> fname (indexFile (wstore (fst r))) = fname (indexFile (wstore w))"
    and eq: "(case syncErr w of
        Some e \<Rightarrow> Some (w, Some e)
      | None \<Rightarrow>
          if seq \<le> syncedSeq w then Some (w, None)
          else if syncing w then None
          else
            let (w1, target) = lead_begin w;
                (f, serr) = file_Sync flt (wfile w1);
                w2 = lead_finish flt target serr (w1\<lparr>wfile := f\<rparr>) in
            if serr \<noteq> None then Some (w2, syncErr w2)
            else commit flt seq w2) = Some r"
  obtain f serr where fs: "file_Sync flt (wfile w) = (f, serr)" by fastforce
  let ?w2 = "lead_finish flt (writeSeq w) serr (w\<lparr>syncing := True, wfile := f\<rparr>)"
  have "fst r = w \<or> fst r = ?w2 \<or> commit flt seq ?w2 = Some r"
    using eq fs by (auto simp: lead_begin_def Let_def split: option.splits if_splits)
  then show "atomic_append flt (indexFile (wstore w)) \<longrightarrow> store_file_ok (wstore w) \<longrightarrow>
      length (positions (wstore w)) = length (offsets (wstore w)) \<longrightarrow>
      store_file_ok (wstore (fst r)) \<and> fname (indexFile (wstore (fst r))) = fname (indexFile (wstore w))"
    using IH [of flt seq ?w2 r] lead_finish_store [of flt "w\<lparr>syncing := True, wfile := f\<rparr>" "writeSeq w" serr]
    by (auto simp: atomic_append_def)
qed

context checksum_alg
begin

lemma wal_inv_count:
  assumes "wal_inv recs b s w" "wcsum w = cs"
  shows "length recs < 2 ^ 63"
  using log_image_count [of recs "wfile w" "wstore w"] wal_inv_image [OF assms(1)] assms(2) by simp

text \<open>A successful \<open>Reserve\<close> appends the payload at the next offset; a failed size check
  changes nothing.\<close>

lemma Reserve_ok:
  assumes inv: "wal_inv recs b s w" and cs: "wcsum w = cs" and r: "Reserve flt w data = (w', Inr (off, seq))"
  shows "wal_inv (recs @ [data]) b s w'" "wcsum w' = cs" "off = of_nat (length recs)"
    "seq = of_nat (length recs - b + 1)" "writeSeq w' = seq" "syncing w' = syncing w"
    "syncErr w' = syncErr w" "wfile w' = (wfile w)\<lparr>content := content (wfile w) @ encode_record cs data\<rparr>"
proof -
  let ?buf = "encode_record cs data"
  have sz: "length data \<le> MaxRecordSize" using r by (auto simp: Reserve_def split: if_splits)
  obtain f er where fw: "file_Write flt (wfile w) ?buf = (f, er)" by fastforce
  have w: "file_Write flt (wfile w) ?buf = (f, None)"
    using r sz cs fw by (cases er) (simp_all add: Reserve_def Let_def)
  have w': "w' = w\<lparr>wfile := f, nextOffset := nextOffset w + 1, wsize := int64 (wsize w + int (length ?buf)),
               writeSeq := writeSeq w + 1,
               pending := pending w @ [\<lparr>pc_seq = writeSeq w + 1, pc_offset = nextOffset w, pc_pos = wsize w\<rparr>]\<rparr>"
    and os: "off = nextOffset w" "seq = writeSeq w + 1"
    using r sz cs w by (auto simp: Reserve_def Let_def)
  have f: "f = (wfile w)\<lparr>content := content (wfile w) @ ?buf\<rparr>"
    using w by (auto simp: file_Write_def split: option.splits if_splits)
  have ok: "file_ok f" using file_Write_ok [OF _ w] inv by (simp add: wal_inv_def)
  have len: "int (length (encode_log cs (recs @ [data]))) < 2 ^ 63"
    using ok inv f cs by (simp add: file_ok_def wal_inv_def max_file_size_def)
  have size: "int64 (wsize w + int (length ?buf)) = int (length (encode_log cs (recs @ [data])))"
    using len inv cs by (subst int64_nonneg) (simp_all add: wal_inv_def)
  have b: "b + s \<le> length recs" using inv by (simp add: wal_inv_def)
  then have cnt: "length (recs @ [data]) - b = Suc (length recs - b)" by simp
  have pend: "map (mk_pending cs (recs @ [data]) b) [b + s..<length recs] =
      map (mk_pending cs recs b) [b + s..<length recs]"
    by (rule map_cong) (auto simp: mk_pending_append)
  have sound: "index_lags cs (recs @ [data]) (b + s) f (wstore w)"
    using index_lags_append [of cs recs "b + s" "wfile w" "wstore w" f] b inv cs f by (simp add: wal_inv_def)
  show "wal_inv (recs @ [data]) b s w'"
    unfolding wal_inv_def w'
    using inv cs f ok sz b sound size pend
    by (simp add: wal_inv_def small_def mk_pending_def rec_pos_append rec_pos_all durable_def Suc_diff_le)
  show "off = of_nat (length recs)" "seq = of_nat (length recs - b + 1)"
    using os inv by (simp_all add: wal_inv_def)
  show "wcsum w' = cs" "writeSeq w' = seq" "syncing w' = syncing w" "syncErr w' = syncErr w"
    "wfile w' = (wfile w)\<lparr>content := content (wfile w) @ ?buf\<rparr>"
    using w' os cs f by simp_all
qed

lemma Reserve_succeeds:
  assumes inv: "wal_inv recs b s w" and cs: "wcsum w = cs" and "length data \<le> MaxRecordSize"
    "flt (SysWrite (fname (wfile w))) = None" "length (encode_log cs (recs @ [data])) \<le> max_file_size"
  obtains w' where "Reserve flt w data = (w', Inr (of_nat (length recs), of_nat (length recs - b + 1)))"
  using assms by (simp add: Reserve_def Let_def file_Write_def wal_inv_def add.commute)

text \<open>Draining moves the pending checkpoints up to the target into the index.\<close>

lemma drain_steps:
  assumes "store_inv st" "sound_entries cs recs m (entries st)" "b \<le> m" "m \<le> t" "t \<le> length recs"
    and n: "length (encode_log cs recs) \<le> max_file_size"
  shows "\<exists>st'. drain flt (of_nat (t - b)) (map (mk_pending cs recs b) [m..<length recs]) st =
      (st', map (mk_pending cs recs b) [t..<length recs])
    \<and> store_inv st' \<and> sound_entries cs recs t (entries st')"
  using assms(1-5)
proof (induction "t - m" arbitrary: m st)
  case 0
  have cnt: "length recs < 2 ^ 63" using count_le_length [of recs] n by (simp add: max_file_size_def)
  have "t = m" using 0 by simp
  have "\<not> pc_seq (mk_pending cs recs b m) \<le> of_nat (t - b)" if "t < length recs"
    using that cnt u64_le [of "m - b + 1" "t - b"] \<open>t = m\<close> by (simp add: mk_pending_def)
  then show ?case
    using 0 \<open>t = m\<close> by (cases "t < length recs") (auto simp: upt_conv_Cons)
next
  case (Suc n')
  let ?st = "fst (Checkpoint flt st (of_nat m) (rec_pos cs recs m))"
  have m: "m < t" "m < length recs" using Suc by auto
  have cnt: "length recs < 2 ^ 63" using count_le_length [of recs] n by (simp add: max_file_size_def)
  have le: "(of_nat (m - b + 1) :: u64) \<le> of_nat (t - b)"
    using m cnt Suc.prems by (subst u64_le) auto
  have pos: "is_int64 (rec_pos cs recs m)"
    using rec_pos_mono [of m "length recs" recs] n m
    rec_pos_nonneg [of cs recs m] unfolding is_int64_def by (simp add: rec_pos_all max_file_size_def del: rec_pos_nonneg)
  have above: "fst e < of_nat m \<and> snd e < rec_pos cs recs m" if e: "e \<in> set (entries st)" for e
  proof -
    obtain k where "k < m" "e = (of_nat k, rec_pos cs recs k)"
      using Suc.prems(2) e by (auto simp: sound_entries_def)
    then show ?thesis
      using m cnt rec_pos_strict [of k m recs] by (simp add: u64_less)
  qed
  have inv: "store_inv ?st" by (rule mem_index.record_ok [OF Suc.prems(1) pos above])
  have "sound_entries cs recs (Suc m) (entries ?st)"
    using mem_index.record_ents [OF Suc.prems(1), of flt "of_nat m" "rec_pos cs recs m"]
      sound_entries_snoc [OF Suc.prems(2)] sound_entries_mono [OF Suc.prems(2), of "Suc m"] by auto
  then obtain st' where
    "drain flt (of_nat (t - b)) (map (mk_pending cs recs b) [Suc m..<length recs]) ?st =
      (st', map (mk_pending cs recs b) [t..<length recs])"
    "store_inv st'" "sound_entries cs recs t (entries st')"
    using Suc.hyps(1) [of "Suc m" ?st, OF _ inv] Suc.hyps(2) m Suc.prems(3,5) by fastforce
  moreover have "map (mk_pending cs recs b) [m..<length recs] =
      mk_pending cs recs b m # map (mk_pending cs recs b) [Suc m..<length recs]"
    using m by (simp add: upt_conv_Cons)
  ultimately show ?case using le by (simp add: mk_pending_def)
qed


text \<open>A finished fsync that covered the first \<open>t\<close> records of the session commits them.\<close>

lemma lead_finish_ok:
  assumes inv: "wal_inv recs b s w" and cs: "wcsum w = cs" and "s \<le> t" "b + t \<le> length recs"
    and dur: "durable cs (take (b + t) recs) (wfile w)"
  shows "wal_inv recs b t (lead_finish flt (of_nat t) None w)"
    "\<exists>st ps sq. lead_finish flt (of_nat t) None w =
       w\<lparr>syncing := False, syncedSeq := sq, wstore := st, pending := ps\<rparr>"
proof -
  have n: "length (encode_log cs recs) \<le> max_file_size"
    using wal_inv_image [OF inv] cs by (simp add: log_image_def)
  have cnt: "length recs < 2 ^ 63" using wal_inv_count [OF inv cs] .
  have "store_inv (wstore w)" "sound_entries cs recs (b + s) (entries (wstore w))"
    "pending w = map (mk_pending cs recs b) [b + s..<length recs]"
    using inv cs index_lags_sound by (auto simp: wal_inv_def)
  then obtain st' where d: "drain flt (of_nat t) (pending w) (wstore w) =
      (st', map (mk_pending cs recs b) [b + t..<length recs])"
    and st': "store_inv st'" "sound_entries cs recs (b + t) (entries st')"
    using drain_steps [of "wstore w" recs "b + s" b "b + t" flt] assms(3,4) n by auto
  have seq: "(if of_nat t > syncedSeq w then of_nat t else syncedSeq w) = (of_nat t :: u64)"
    using inv assms(3,4) cnt u64_less [of s t] by (auto simp: wal_inv_def)
  have eq: "lead_finish flt (of_nat t) None w = w\<lparr>syncing := False, syncedSeq := of_nat t, wstore := st',
      pending := map (mk_pending cs recs b) [b + t..<length recs]\<rparr>"
    using d seq by (auto simp: lead_finish_def Let_def split: if_splits)
  then show "\<exists>st ps sq. lead_finish flt (of_nat t) None w =
       w\<lparr>syncing := False, syncedSeq := sq, wstore := st, pending := ps\<rparr>" by blast
  show "wal_inv recs b t (lead_finish flt (of_nat t) None w)"
    unfolding eq using inv cs st' assms(3,4) dur by (auto simp: wal_inv_def index_lags_def)
qed

text \<open>With no fault on the fsync, a commit of a reserved sequence number returns with the
  record durable.\<close>

lemma commitLocked_returns:
  assumes inv: "wal_inv recs b s w" and cs: "wcsum w = cs" and idle: "\<not> syncing w" "syncErr w = None"
    and k: "k \<le> length recs - b" and fl: "flt (SysSync (fname (wfile w))) = None"
  shows "\<exists>w' t. commitLocked flt (of_nat k) w = Some (w', None) \<and> wal_inv recs b t w' \<and> k \<le> t
    \<and> wcsum w' = cs \<and> \<not> syncing w' \<and> syncErr w' = None \<and> content (wfile w') = content (wfile w)
    \<and> fname (wfile w') = fname (wfile w)"
proof (cases "k \<le> s")
  case True
  then have "syncedSeq w \<ge> of_nat k"
    using inv wal_inv_count [OF inv cs] u64_le [of k s] by (simp add: wal_inv_def)
  then have "commitLocked flt (of_nat k) w = Some (w, None)"
    using idle by (subst commitLocked.simps) simp
  then show ?thesis using True inv cs idle by blast
next
  case False
  have bs: "b + s \<le> length recs" using inv by (simp add: wal_inv_def)
  define t where "t = length recs - b"
  have t: "s \<le> t" "b + t = length recs" "k \<le> t" "t < 2 ^ 63" "writeSeq w = of_nat t"
    using bs k wal_inv_count [OF inv cs] inv by (auto simp: t_def wal_inv_def)
  let ?f = "(wfile w)\<lparr>synced := content (wfile w)\<rparr>"
  let ?w1 = "w\<lparr>syncing := True, wfile := ?f\<rparr>"
  let ?w2 = "lead_finish flt (of_nat t) None ?w1"
  have pre: "durable cs (take n recs) ?f" for n
    using inv cs by (intro durable_content) (simp_all add: wal_inv_def)
  have inv0: "wal_inv recs b s (w\<lparr>wfile := ?f\<rparr>)"
    by (rule wal_inv_sync [OF inv wal_inv_file [OF inv] prefix_order.refl])
  have inv1: "wal_inv recs b s ?w1" using inv0 by (auto simp: wal_inv_def)
  note fin = lead_finish_ok [OF inv1 _ t(1), of flt]
  have inv2: "wal_inv recs b t ?w2" using fin(1) cs t(2) pre [of "b + t"] by simp
  obtain st ps sq where w2: "?w2 = ?w1\<lparr>syncing := False, syncedSeq := sq, wstore := st, pending := ps\<rparr>"
    using fin(2) cs t(2) pre [of "b + t"] by auto
  have lt: "\<not> syncedSeq w \<ge> of_nat k" and ge: "syncedSeq ?w2 \<ge> of_nat k"
    using inv inv2 False t u64_le [of k s] u64_le [of k t] by (simp_all add: wal_inv_def)
  have "commitLocked flt (of_nat k) w = commitLocked flt (of_nat k) ?w2"
    using idle lt fl t(5)
    by (subst commitLocked.simps) (simp add: Let_def lead_begin_def file_Sync_def)
  also have "\<dots> = Some (?w2, None)"
    using ge w2 idle by (subst commitLocked.simps) simp
  finally have "commitLocked flt (of_nat k) w = Some (?w2, None)" .
  then show ?thesis using inv2 t(3) w2 cs idle by (intro exI [of _ ?w2] exI [of _ t]) simp
qed


lemma Write_ok:
  assumes inv: "wal_inv recs b s w" and cs: "wcsum w = cs" and idle: "\<not> syncing w" "syncErr w = None"
    and d: "length data \<le> MaxRecordSize" "length (encode_log cs (recs @ [data])) \<le> max_file_size"
    and fl: "flt (SysWrite (fname (wfile w))) = None" "flt (SysSync (fname (wfile w))) = None"
  shows "\<exists>w' t. Write flt w data = Some (w', Inr (of_nat (length recs))) \<and> wal_inv (recs @ [data]) b t w'
    \<and> durable cs (recs @ [data]) (wfile w') \<and> b + t = length recs + 1
    \<and> wcsum w' = cs \<and> \<not> syncing w' \<and> syncErr w' = None \<and> fname (wfile w') = fname (wfile w)"
proof -
  let ?k = "length recs - b + 1"
  obtain w1 where r: "Reserve flt w data = (w1, Inr (of_nat (length recs), of_nat ?k))"
    using Reserve_succeeds [of recs b s w data flt, OF inv cs d(1) fl(1) d(2)] by blast
  note R = Reserve_ok [OF inv cs r]
  have k: "?k \<le> length (recs @ [data]) - b" using inv by (auto simp: wal_inv_def)
  obtain w2 t where c: "commitLocked flt (of_nat ?k) w1 = Some (w2, None)" "wal_inv (recs @ [data]) b t w2"
    "?k \<le> t" "wcsum w2 = cs" "\<not> syncing w2" "syncErr w2 = None" "fname (wfile w2) = fname (wfile w1)"
    using commitLocked_returns [OF R(1,2) _ _ k, of flt] R(6-8) idle fl(2) by auto
  have "b + t = length recs + 1" using c(2,3) inv by (auto simp: wal_inv_def)
  moreover from this have "durable cs (recs @ [data]) (wfile w2)" using c(2,3,4) by (auto simp: wal_inv_def)
  moreover have "Write flt w data = Some (w2, Inr (of_nat (length recs)))"
    using r c(1) by (simp add: Write_def Commit_def)
  ultimately show ?thesis using c(2,4-7) R(8) by (intro exI [of _ w2] exI [of _ t]) simp
qed

text \<open>A failed fsync is reported and remembered: from then on every commit fails.\<close>

lemma commitLocked_fails:
  assumes "\<not> syncing w" "syncErr w = None" "syncedSeq w < seq"
    and fl: "flt (SysSync (fname (wfile w))) = Some (msg, n)"
  shows "commitLocked flt seq w =
    Some (w\<lparr>syncErr := Some (Wrap ''wal: fsync'' (OsError msg))\<rparr>, Some (Wrap ''wal: fsync'' (OsError msg)))"
  using assms
  by (subst commitLocked.simps) (simp add: Let_def lead_begin_def lead_finish_def file_Sync_def)

lemma commitLocked_sticky: "syncErr w = Some e \<Longrightarrow> commitLocked flt seq w = Some (w, Some e)"
  by (subst commitLocked.simps) simp

text \<open>Whatever the fsync does, a commit of a reserved sequence number returns, keeps the records and
  never forgets a failure.\<close>

lemma commitLocked_any:
  assumes inv: "wal_inv recs b s w" and cs: "wcsum w = cs" and idle: "\<not> syncing w" and k: "k \<le> length recs - b"
  shows "\<exists>w' t e. commitLocked flt (of_nat k) w = Some (w', e) \<and> wal_inv recs b t w' \<and> (e = None \<longrightarrow> k \<le> t)
    \<and> wcsum w' = cs \<and> \<not> syncing w' \<and> syncErr w' = e \<and> content (wfile w') = content (wfile w)
    \<and> fname (wfile w') = fname (wfile w)"
proof (cases "syncErr w")
  case (Some e)
  then show ?thesis using commitLocked_sticky [of w e flt "of_nat k"] inv cs idle by auto
next
  case None
  show ?thesis
  proof (cases "flt (SysSync (fname (wfile w)))")
    case nf: None
    then show ?thesis using commitLocked_returns [OF inv cs idle None k] by metis
  next
    case (Some x)
    then obtain msg n where fl: "flt (SysSync (fname (wfile w))) = Some (msg, n)" by fastforce
    show ?thesis
    proof (cases "k \<le> s")
      case True
      then have "syncedSeq w \<ge> of_nat k"
        using inv wal_inv_count [OF inv cs] u64_le [of k s] by (simp add: wal_inv_def)
      then have "commitLocked flt (of_nat k) w = Some (w, None)"
        using None by (subst commitLocked.simps) simp
      then show ?thesis using True inv cs idle None by blast
    next
      case False
      then have "syncedSeq w < of_nat k"
        using inv k wal_inv_count [OF inv cs] u64_less [of s k] by (auto simp: wal_inv_def)
      from commitLocked_fails [of w "of_nat k" flt msg n, OF idle None this fl] show ?thesis using inv cs idle by auto
    qed
  qed
qed

lemma checkpoint_all_drain:
  "\<forall>p \<in> set ps. pc_seq p \<le> t \<Longrightarrow> drain flt t ps st = (checkpoint_all flt ps st, [])"
  by (induction ps arbitrary: st) auto

text \<open>A clean shutdown commits whatever is pending.\<close>

lemma writer_Close_ok:
  assumes inv: "wal_inv recs b s w" and cs: "wcsum w = cs" and err: "syncErr w = None"
    and fl: "flt (SysSync (fname (wfile w))) = None" "flt (SysClose (fname (wfile w))) = None"
  shows "\<exists>w'. writer_Close flt w = (w', None) \<and> wal_inv recs b (length recs - b) w' \<and> wcsum w' = cs"
proof (cases "b + s = length recs")
  case True
  then have s: "length recs - b = s" by simp
  then have "writeSeq w = syncedSeq w" using inv by (simp add: wal_inv_def del: of_nat_diff)
  then have "writer_Close flt w = (w, None)"
    using fl by (simp add: writer_Close_def file_Close_def)
  then show ?thesis using inv cs s by auto
next
  case False
  define t where "t = length recs - b"
  have t: "s < t" "b + t = length recs" "t < 2 ^ 63" "writeSeq w = of_nat t" "syncedSeq w = of_nat s"
    using False wal_inv_count [OF inv cs] inv by (auto simp: t_def wal_inv_def)
  let ?f = "(wfile w)\<lparr>synced := content (wfile w)\<rparr>"
  have pre: "durable cs (take n recs) ?f" for n
    using inv cs by (intro durable_content) (simp_all add: wal_inv_def)
  have inv0: "wal_inv recs b s (w\<lparr>wfile := ?f\<rparr>)"
    by (rule wal_inv_sync [OF inv wal_inv_file [OF inv] prefix_order.refl])
  have fin: "wal_inv recs b t (lead_finish flt (of_nat t) None (w\<lparr>wfile := ?f\<rparr>))"
    using lead_finish_ok(1) [OF inv0 _ less_imp_le [OF t(1)]] cs t(2) pre [of "b + t"] by simp
  have p: "pc_seq p \<le> of_nat t" if "p \<in> set (pending w)" for p
  proof -
    have "\<exists>k < length recs. b \<le> k \<and> pc_seq p = of_nat (k - b + 1)"
      using that inv by (auto simp: wal_inv_def mk_pending_def)
    then obtain k where k: "k < length recs" "b \<le> k" "pc_seq p = of_nat (k - b + 1)" by blast
    have "k - b + 1 \<le> t" using k t(2) by linarith
    then show ?thesis using u64_le [of "k - b + 1" t] k(3) t(3) by simp
  qed
  then have "drain flt (of_nat t) (pending w) (wstore w) = (checkpoint_all flt (pending w) (wstore w), [])"
    by (intro checkpoint_all_drain) blast
  then have eq: "lead_finish flt (of_nat t) None (w\<lparr>wfile := ?f\<rparr>) = w\<lparr>wfile := ?f, syncing := False,
      syncedSeq := of_nat t, wstore := checkpoint_all flt (pending w) (wstore w), pending := []\<rparr>"
    using t u64_less [of s t] by (simp add: lead_finish_def Let_def)
  let ?w' = "w\<lparr>wfile := ?f, wstore := checkpoint_all flt (pending w) (wstore w), pending := [],
      syncedSeq := of_nat t\<rparr>"
  have "writer_Close flt w = (?w', None)"
    using t u64_less [of s t] err fl by (simp add: writer_Close_def file_Sync_def file_Close_def)
  moreover have "wal_inv recs b t ?w'" using fin unfolding eq by (auto simp: wal_inv_def)
  ultimately show ?thesis using cs by (auto simp: t_def [symmetric])
qed

end

end
