(* ===== verification/Wal_Recovery.thy ===== *)
theory Wal_Recovery
  imports Wal_Writer
begin

text \<open>
  Recovery and crashes. The lemmas show that \<open>recover\<close> returns on any bytes, never touches
  complete records, cuts a torn tail to the last complete record, and rebuilds the writer's
  invariant; and that after a machine crash the reopened log holds every committed record.
\<close>

section \<open>The scan returns\<close>

text \<open>What a successful scan leaves: the file cut at the position it stopped at.\<close>

definition scan_result :: "os_file \<Rightarrow> int \<Rightarrow> goerror + os_file \<times> u64 \<times> int \<Rightarrow> bool" where
  "scan_result f pos r \<longleftrightarrow>
     (case r of
        Inl _ \<Rightarrow> True
      | Inr (f', _, pos') \<Rightarrow> pos \<le> pos' \<and> pos' \<le> int (length (content f)) \<and> fname f' = fname f
          \<and> content f' = take (nat pos') (content f) \<and> synced f' = take (nat pos') (synced f))"

lemma truncate_torn_result:
  assumes "0 \<le> pos" "pos \<le> int (length (content f))"
  shows "scan_result f pos (truncate_torn flt what f off pos)"
  using assms
  by (auto simp: scan_result_def truncate_torn_def file_Truncate_def split: option.splits)

lemma scan_result_mono: "scan_result f p r \<Longrightarrow> p' \<le> p \<Longrightarrow> scan_result f p' r"
  by (auto simp: scan_result_def split: sum.splits)

context checksum_alg
begin

lemma headerSize_bounds: "4 \<le> headerSize cs" "int (headerSize cs) < 2 ^ 32"
  using Size_small by (simp_all add: headerSize_def LengthSize_def)

text \<open>A position that wrapped below zero is rejected by the next system call.\<close>

lemma recover_scan_negative:
  assumes "pos < 0"
  shows "\<exists>e. recover_scan flt cs f (int n) off pos = Some (Inl e)"
proof -
  have "truncate_torn flt what f off pos = Inl e" if "file_Truncate flt f pos = (f', Some e')"
    "e = Wrap (''wal: truncate torn '' @ what @ '' at '' @ dec_int pos) e'" for what e e' f'
    using that by (simp add: truncate_torn_def)
  moreover have "\<exists>e'. file_Truncate flt f pos = (f, Some e')"
    using assms by (auto simp: file_Truncate_def split: option.splits)
  ultimately show ?thesis
    using assms by (subst recover_scan.simps) (auto simp: file_ReadAt_def)
qed

lemma int64_advance:
  assumes "0 \<le> pos" "pos < 2 ^ 63" "len \<le> MaxRecordSize"
  shows "int64 (int64 (pos + int (headerSize cs)) + int len) = pos + int (headerSize cs) + int len
    \<or> int64 (int64 (pos + int (headerSize cs)) + int len) < 0"
proof -
  let ?x = "pos + int (headerSize cs) + int len"
  have eq: "int64 (int64 (pos + int (headerSize cs)) + int len) = int64 ?x"
    using signed_take_bit_add [of 63 "signed_take_bit 63 (pos + int (headerSize cs))" "int len"]
      signed_take_bit_add [of 63 "pos + int (headerSize cs)" "int len"] by (simp add: int64_def)
  have "?x < 2 ^ 64" using assms headerSize_bounds by (simp add: MaxRecordSize_def)
  then show ?thesis
    using int64_nonneg [of ?x] int64_wrap [of ?x] assms(1) eq by (cases "?x < 2 ^ 63") auto
qed

lemma recover_scan_returns:
  assumes "0 \<le> pos" "pos \<le> int (length (content f))" and ok: "file_ok f"
  shows "\<exists>r. recover_scan flt cs f (int (length (content f))) off pos = Some r \<and> scan_result f pos r"
  using assms(1,2)
proof (induction "nat (int (length (content f)) - pos)" arbitrary: off pos rule: less_induct)
  case less
  let ?n = "int (length (content f))"
  have n: "?n < 2 ^ 63" using ok by (simp add: file_ok_def max_file_size_def)
  consider (stop) "pos = ?n" | (header) "pos \<noteq> ?n" "int64 (pos + int (headerSize cs)) > ?n"
    | (err) e where "pos \<noteq> ?n" "\<not> int64 (pos + int (headerSize cs)) > ?n" "file_ReadAt flt f pos LengthSize = Inl e"
    | (len) lenBuf where "pos \<noteq> ?n" "\<not> int64 (pos + int (headerSize cs)) > ?n"
        "file_ReadAt flt f pos LengthSize = Inr lenBuf"
    by (cases "file_ReadAt flt f pos LengthSize") auto
  then show ?case
  proof cases
    case stop
    have "length (synced f) \<le> length (content f)" using ok by (auto simp: file_ok_def dest: prefix_length_le)
    then show ?thesis using stop by (subst recover_scan.simps) (simp add: scan_result_def)
  next
    case header
    then show ?thesis
      using truncate_torn_result [OF less.prems] by (subst recover_scan.simps) simp
  next
    case err
    then show ?thesis by (subst recover_scan.simps) (simp add: scan_result_def)
  next
    case len
    let ?l = "unat (Uint32 lenBuf)" and ?e = "int64 (int64 (pos + int (headerSize cs)) + int (unat (Uint32 lenBuf)))"
    have unf: "recover_scan flt cs f ?n off pos =
        (if ?l > MaxRecordSize then Some (Inl (CorruptionError pos [] [] (''length out of bounds: '' @ dec ?l)))
         else if ?e > ?n then Some (truncate_torn flt ''payload'' f off pos)
         else recover_scan flt cs f ?n (off + 1) ?e)"
      using len by (subst recover_scan.simps) (simp add: Let_def)
    consider "?l > MaxRecordSize" | "\<not> ?l > MaxRecordSize" "?e > ?n" | "\<not> ?l > MaxRecordSize" "?e < 0"
      | "\<not> ?l > MaxRecordSize" "\<not> ?e > ?n" "0 \<le> ?e" by linarith
    then show ?thesis
    proof cases
      case 1
      then show ?thesis unfolding unf by (simp add: scan_result_def)
    next
      case 2
      then show ?thesis unfolding unf using truncate_torn_result [OF less.prems] by simp
    next
      case 3
      then show ?thesis
        unfolding unf using recover_scan_negative [OF 3(2), of flt f "length (content f)" "off + 1"]
        by (auto simp: scan_result_def)
    next
      case 4
      have "pos < pos + int (headerSize cs) + int ?l" using headerSize_bounds(1) by linarith
      moreover have "?e = pos + int (headerSize cs) + int ?l \<or> ?e < 0"
        using 4(1) less.prems n by (intro int64_advance) linarith+
      ultimately have "pos < ?e" using 4(3) by linarith
      then show ?thesis
        unfolding unf using less.hyps [of ?e "off + 1"] 4 less.prems scan_result_mono [of f ?e _ pos]
        by auto
    qed
  qed
qed


section \<open>The scan over records\<close>

text \<open>One round over a complete record.\<close>

lemma recover_scan_step:
  assumes c: "content f = encode_log cs recs @ tail" and ok: "file_ok f"
    and sm: "small recs" and rd: "readable flt f" and k: "k < length recs"
  shows "recover_scan flt cs f (int (length (content f))) off (rec_pos cs recs k) =
    recover_scan flt cs f (int (length (content f))) (off + 1) (rec_pos cs recs (Suc k))"
proof -
  let ?d = "recs ! k" and ?p = "rec_pos cs recs k" and ?n = "int (length (content f))"
  let ?len = "PutUint32 (word_of_nat (length ?d))"
  have d: "length ?d \<le> MaxRecordSize" using sm k by (simp add: small_def)
  have split: "content f = encode_log cs (take k recs) @ ?len @ (Compute cs [?len, ?d] @ ?d
      @ encode_log cs (drop (Suc k) recs) @ tail)"
    using c encode_log_split [OF k, of cs] by (simp add: encode_record_def Let_def)
  have size: "length (content f) \<le> max_file_size" using ok by (simp add: file_ok_def)
  have rdl: "file_ReadAt flt f ?p LengthSize = Inr ?len"
    using file_ReadAt_split [OF split _ size, of ?p flt] rd by (simp add: rec_pos_def readable_def LengthSize_def)
  have nxt: "rec_pos cs recs (Suc k) = ?p + int (headerSize cs) + int (length ?d)"
    using rec_pos_Suc [OF k] by simp
  have le: "rec_pos cs recs (Suc k) \<le> ?n"
    using rec_pos_mono [of "Suc k" "length recs" recs] k c by (simp add: rec_pos_all)
  have n: "?n < 2 ^ 63" using size by (simp add: max_file_size_def)
  have i1: "int64 (?p + int (headerSize cs)) = ?p + int (headerSize cs)"
    using le n nxt by (intro int64_nonneg) auto
  have i2: "int64 (?p + int (headerSize cs) + int (length ?d)) = rec_pos cs recs (Suc k)"
    using le n nxt by (subst int64_nonneg) auto
  have ne: "?p \<noteq> ?n" using le nxt headerSize_bounds(1) by linarith
  have h: "\<not> int64 (?p + int (headerSize cs)) > ?n" using i1 le nxt by linarith
  have u: "unat (Uint32 ?len) = length ?d" using d by (simp add: unat_length_u32)
  show ?thesis
    using ne h rdl u d i2 le by (subst recover_scan.simps) (simp add: i1 Let_def)
qed

lemma recover_scan_walk:
  assumes "content f = encode_log cs recs @ tail" "file_ok f" "small recs" "readable flt f" "k \<le> length recs"
  shows "recover_scan flt cs f (int (length (content f))) (of_nat k) (rec_pos cs recs k) =
    recover_scan flt cs f (int (length (content f))) (of_nat (length recs)) (rec_pos cs recs (length recs))"
  using assms(5)
proof (induction "length recs - k" arbitrary: k)
  case (Suc n)
  then show ?case
    using recover_scan_step [OF assms(1-4), of k "of_nat k"] Suc.hyps(1) [of "Suc k"]
    by (simp add: add.commute)
qed simp

end

text \<open>What an interrupted append leaves after the last complete record.\<close>

definition torn_tail :: "checksum \<Rightarrow> bytes \<Rightarrow> bool" where
  "torn_tail cs torn \<longleftrightarrow>
     torn = [] \<or> (\<exists>d. length d \<le> MaxRecordSize \<and> strict_prefix torn (encode_record cs d))"

text \<open>The file operations that recovery uses do not fail.\<close>

definition recoverable :: "faults \<Rightarrow> os_file \<Rightarrow> bool" where
  "recoverable flt f \<longleftrightarrow> readable flt f \<and> (\<forall>n. flt (SysTruncate (fname f) n) = None)
     \<and> flt (SysStat (fname f)) = None"

context checksum_alg
begin

lemma recover_scan_torn:
  assumes c: "content f = encode_log cs recs @ torn" and ok: "file_ok f" and t: "torn_tail cs torn"
    and rc: "recoverable flt f" and room: "length (content f) < 2 ^ 62"
  shows "recover_scan flt cs f (int (length (content f))) off (rec_pos cs recs (length recs)) =
    Some (Inr (f\<lparr>content := encode_log cs recs, synced := take (length (encode_log cs recs)) (synced f)\<rparr>,
               off, rec_pos cs recs (length recs)))"
proof -
  let ?n = "int (length (content f))" and ?p = "rec_pos cs recs (length recs)"
  let ?f = "f\<lparr>content := encode_log cs recs, synced := take (length (encode_log cs recs)) (synced f)\<rparr>"
  have p: "?p = int (length (encode_log cs recs))" by (simp add: rec_pos_def)
  have size: "length (content f) \<le> max_file_size" and n: "?n < 2 ^ 63"
    using ok by (simp_all add: file_ok_def max_file_size_def)
  have trunc: "truncate_torn flt what f off ?p = Inr (?f, off, ?p)" for what
    using rc c by (simp add: truncate_torn_def file_Truncate_def recoverable_def p)
  show ?thesis
  proof (cases "torn = []")
    case True
    have "prefix (synced f) (content f)" using ok by (simp add: file_ok_def)
    then have "length (synced f) \<le> length (encode_log cs recs)" using c True prefix_length_le by fastforce
    then have "?f = f" using c True by (intro os_file.equality) simp_all
    then show ?thesis using c True p by (subst recover_scan.simps) simp
  next
    case False
    then obtain d where d: "length d \<le> MaxRecordSize" "strict_prefix torn (encode_record cs d)"
      using t by (auto simp: torn_tail_def)
    let ?len = "PutUint32 (word_of_nat (length d))"
    have ne: "?p \<noteq> ?n" using False c p by simp
    have lt: "?n < ?p + int (headerSize cs) + int (length d)"
      using prefix_length_less [OF d(2)] c p by simp
    show ?thesis
    proof (cases "int64 (?p + int (headerSize cs)) > ?n")
      case True
      then show ?thesis using ne trunc by (subst recover_scan.simps) simp
    next
      case h: False
      have i1: "int64 (?p + int (headerSize cs)) = ?p + int (headerSize cs)"
        using room c p headerSize_bounds by (intro int64_nonneg) auto
      have i2: "int64 (?p + int (headerSize cs) + int (length d)) = ?p + int (headerSize cs) + int (length d)"
        using room c p headerSize_bounds d(1) by (intro int64_nonneg) (auto simp: MaxRecordSize_def)
      have "4 \<le> length torn" using h i1 c p headerSize_bounds(1) by simp
      then have "prefix ?len torn"
        using d(2) prefix_length_prefix [of ?len "encode_record cs d" torn]
        by (simp add: encode_record_def Let_def strict_prefix_def)
      then have split: "content f = encode_log cs recs @ ?len @ drop 4 torn"
        using c prefix_drop_eq [of ?len torn] by simp
      have rdl: "file_ReadAt flt f ?p LengthSize = Inr ?len"
        using file_ReadAt_split [OF split _ size, of ?p flt] rc p
        by (simp add: recoverable_def readable_def LengthSize_def)
      have u: "unat (Uint32 ?len) = length d" using d(1) by (simp add: unat_length_u32)
      show ?thesis using ne h rdl u d(1) lt trunc by (subst recover_scan.simps) (simp add: i1 i2 Let_def)
    qed
  qed
qed

end

section \<open>Recovery of a crash image\<close>

text \<open>Any prefix of an index file, torn anywhere, loads as a prefix of its checkpoints.\<close>

lemma index_image_loads:
  assumes "prefix i (encode_entries es)" "increasing es" "\<forall>e \<in> set es. is_int64 (snd e)"
    and k: "k = length i div 16"
  shows "keep None (decode_entries k i) = take k es"
proof -
  have "length i \<le> 16 * length es" using prefix_length_le [OF assms(1)] by simp
  then have le: "k \<le> length es" "16 * k \<le> length i" using k by auto
  then have len: "length (take k es) = k" by simp
  have "prefix (encode_entries (take k es)) (encode_entries es)"
    using encode_entries_simps(3) [of "take k es" "drop k es"] by (auto simp: prefix_def)
  then have "prefix (encode_entries (take k es)) i"
    by (rule prefix_length_prefix [OF _ assms(1)]) (simp add: le min_absorb2)
  then obtain rest where i: "i = encode_entries (take k es) @ rest" by (auto simp: prefix_def)
  have "\<forall>e \<in> set (take k es). is_int64 (snd e)" using assms(3) by (meson in_set_takeD)
  from decode_encode [OF this, of rest] have "decode_entries k i = take k es" unfolding len i .
  moreover have "increasing (take k es)"
    using assms(2) unfolding increasing_def by (rule sorted_wrt_take)
  ultimately show ?thesis by (simp add: keep_all)
qed

lemma LoadCheckpoints_returns:
  assumes rc: "recoverable flt (indexFile s)" and size: "length (content (indexFile s)) \<le> max_file_size"
  shows "\<exists>s'. LoadCheckpoints flt s = (s', None)"
proof -
  let ?s0 = "s\<lparr>offsets := [], positions := [], index := Map.empty\<rparr>"
  let ?n = "length (content (indexFile s))"
  have "file_ReadAt flt (indexFile s) 0 (?n - ?n mod 16) = Inr (take (?n - ?n mod 16) (content (indexFile s)))"
    using rc size by (simp add: file_ReadAt_def recoverable_def readable_def)
  then have "\<exists>s1. load_entries flt ?n ?s0 = Inr s1"
    by (simp add: load_entries_def Let_def indexEntryBytes_def)
  then obtain s1 where s1: "load_entries flt ?n ?s0 = Inr s1" ..
  then have "indexFile s1 = indexFile s" using load_entries_Inr [OF s1] by simp
  then have "\<exists>s'. heal_index flt ?n s1 = (s', None)"
    using rc by (simp add: heal_index_def file_Truncate_def recoverable_def Let_def indexEntryBytes_def)
  then show ?thesis
    using s1 rc by (simp add: LoadCheckpoints_def file_Stat_Size_def recoverable_def Let_def)
qed

definition fresh_writer :: "os_file \<Rightarrow> checksum \<Rightarrow> mem_store \<Rightarrow> wal_writer" where
  "fresh_writer f cs st = \<lparr>wfile = f, wcsum = cs, wsize = 0, nextOffset = 0, writeSeq = 0, syncedSeq = 0,
     syncing = False, syncErr = None, pending = [], wstore = st\<rparr>"

context checksum_alg
begin

lemma recover_start_sound:
  assumes "store_inv st" "sound_entries cs recs n (entries st)" "n \<le> length recs" "length recs < 2 ^ 63"
  obtains k where "k \<le> length recs" "recover_start cs st sz = (of_nat k, rec_pos cs recs k)"
proof -
  have "n \<le> 2 ^ 64" using assms(3,4) by simp
  then obtain k where k: "k \<le> length recs" "scan_start st (NOT 0) = (of_nat k, rec_pos cs recs k)"
    using scan_start_sound [OF assms(1,2) _ assms(3), of "NOT 0"] by blast
  have "recover_start cs st sz = scan_start st (NOT 0) \<or> recover_start cs st sz = (0, 0)"
    by (auto simp: recover_start_def scan_start_def split: option.splits)
  then show ?thesis using k that [of k] that [of 0] by auto
qed

lemma recover_ok:
  assumes c: "content f = encode_log cs recs @ torn" "torn_tail cs torn" "length (content f) < 2 ^ 62"
    and ok: "file_ok f" "recoverable flt f" and sm: "small recs"
    and idx: "recoverable flt (indexFile st)" "length (content (indexFile st)) \<le> max_file_size"
    and es: "es = keep None (decode_entries (length (content (indexFile st)) div 16) (content (indexFile st)))"
    and lag: "n \<le> length recs" "sound_entries cs recs n es" "durable cs (take n recs) f"
  shows "\<exists>w. recover flt (fresh_writer f cs st) = Some (w, None) \<and> wal_inv recs (length recs) 0 w
    \<and> wcsum w = cs \<and> \<not> syncing w \<and> syncErr w = None \<and> store_file_ok (wstore w)
    \<and> wfile w = f\<lparr>content := encode_log cs recs, synced := take (length (encode_log cs recs)) (synced f)\<rparr>"
proof -
  let ?f = "f\<lparr>content := encode_log cs recs, synced := take (length (encode_log cs recs)) (synced f)\<rparr>"
  obtain st' where ld: "LoadCheckpoints flt st = (st', None)" using LoadCheckpoints_returns [OF idx] by blast
  have ent: "entries st' = es" using LoadCheckpoints_entries [OF ld] es by simp
  note inv = LoadCheckpoints_inv [OF ld]
  have enc: "length (encode_log cs recs) \<le> max_file_size"
    using c(1,3) by (simp add: max_file_size_def)
  have cnt: "length recs < 2 ^ 63" using count_le_length [of recs] enc by (simp add: max_file_size_def)
  obtain k where k: "k \<le> length recs"
    "recover_start cs st' (int (length (content f))) = (of_nat k, rec_pos cs recs k)"
    using recover_start_sound [OF inv(1) _ lag(1) cnt] lag(2) ent by blast
  have rd: "readable flt f" using ok(2) by (simp add: recoverable_def)
  have sc: "recover_scan flt cs f (int (length (content f))) (of_nat k) (rec_pos cs recs k) =
      Some (Inr (?f, of_nat (length recs), rec_pos cs recs (length recs)))"
    unfolding recover_scan_walk [OF c(1) ok(1) sm rd k(1)] by (rule recover_scan_torn [OF c(1) ok(1) c(2) ok(2) c(3)])
  let ?w = "(fresh_writer f cs st)\<lparr>wstore := st', wfile := ?f, nextOffset := of_nat (length recs),
      wsize := rec_pos cs recs (length recs)\<rparr>"
  have "recover flt (fresh_writer f cs st) = Some (?w, None)"
    using ld k(2) sc ok(2)
    by (simp add: recover_def fresh_writer_def file_Stat_Size_def recoverable_def)
  moreover have "wal_inv recs (length recs) 0 ?w"
  proof -
    have "prefix (take (length (encode_log cs recs)) (synced f)) (encode_log cs recs)"
      using ok(1) c(1) prefix_take_mono [of "synced f" "content f" "length (encode_log cs recs)"]
      by (simp add: file_ok_def)
    moreover have "durable cs (take n recs) ?f"
    proof -
      have "length (encode_log cs (take n recs)) \<le> length (encode_log cs recs)"
        using encode_log_simps(3) [of cs "take n recs" "drop n recs"] by (metis append_take_drop_id
            length_append le_add1)
      then show ?thesis
        using lag(3) prefix_take_mono [of "encode_log cs (take n recs)" "synced f" "length (encode_log cs recs)"]
        by (simp add: durable_def)
    qed
    ultimately show ?thesis
      using inv(1) ent lag(1,2) enc sm
      by (auto simp: wal_inv_def fresh_writer_def file_ok_def rec_pos_all index_lags_def)
  qed
  moreover have "length (content (indexFile st')) \<le> max_file_size"
    using LoadCheckpoints_ok(2,5) [OF ld] prefix_length_le idx(2) by fastforce
  ultimately show ?thesis using inv(2) by (simp add: fresh_writer_def store_file_ok_def)
qed

end

section \<open>Crashes\<close>

text \<open>The operations that opening a file uses do not fail.\<close>

definition openable :: "faults \<Rightarrow> os_file \<Rightarrow> bool" where
  "openable flt f \<longleftrightarrow> recoverable flt f \<and> flt (SysOpen (fname f)) = None \<and> flt (SysDirSync (fname f)) = None"

text \<open>What a crash leaves of a file: every guaranteed byte, and of the rest some prefix.\<close>

definition crashed :: "os_file \<Rightarrow> os_file \<Rightarrow> bool" where
  "crashed f f' \<longleftrightarrow> fname f' = fname f \<and> crash_image f (content f')
     \<and> prefix (synced f) (synced f') \<and> prefix (synced f') (content f')"

context checksum_alg
begin

text \<open>A prefix of a log is some complete records and a torn tail.\<close>

lemma log_prefix_split:
  assumes "prefix c (encode_log cs recs)" "small recs"
  shows "\<exists>m \<le> length recs. \<exists>torn. c = encode_log cs (take m recs) @ torn \<and> torn_tail cs torn
    \<and> (\<forall>n \<le> length recs. prefix (encode_log cs (take n recs)) c \<longrightarrow> n \<le> m)"
  using assms
proof (induction recs arbitrary: c)
  case Nil
  then show ?case by (simp add: torn_tail_def)
next
  case (Cons r rs)
  show ?case
  proof (cases "strict_prefix c (encode_record cs r)")
    case True
    have "n = 0" if "prefix (encode_log cs (take n (r # rs))) c" for n
    proof (rule ccontr)
      assume "n \<noteq> 0"
      then have "prefix (encode_record cs r) c"
        using that by (cases n) (auto dest: append_prefixD)
      then show False using True by (meson prefix_order.leD)
    qed
    then show ?thesis
      using True Cons.prems(2) by (intro exI [of _ 0]) (auto simp: torn_tail_def small_def)
  next
    case False
    then obtain c' where c': "c = encode_record cs r @ c'" "prefix c' (encode_log cs rs)"
      using Cons.prems(1) by (auto simp: prefix_append strict_prefix_def)
    have "small rs" using Cons.prems(2) by (simp add: small_def)
    then obtain m torn where m: "m \<le> length rs" "c' = encode_log cs (take m rs) @ torn" "torn_tail cs torn"
      and max: "\<forall>n \<le> length rs. prefix (encode_log cs (take n rs)) c' \<longrightarrow> n \<le> m"
      using Cons.IH [OF c'(2)] by blast
    have "n \<le> Suc m" if "n \<le> length (r # rs)" "prefix (encode_log cs (take n (r # rs))) c" for n
      using that max c' by (cases n) auto
    then show ?thesis using m c'(1) by (intro exI [of _ "Suc m"]) auto
  qed
qed

lemma crash_recovery:
  assumes inv: "wal_inv recs b s w" and cs: "wcsum w = cs" and syn: "store_file_ok (wstore w)"
    and f': "crashed (wfile w) f'" and i': "prefix i (content (indexFile (wstore w)))"
    and st: "content (indexFile st) = i" and flt: "recoverable flt f'" "recoverable flt (indexFile st)"
    and room: "length (content (wfile w)) < 2 ^ 62"
  shows "\<exists>m w'. m \<le> length recs
    \<and> (\<forall>n \<le> length recs. durable cs (take n recs) (wfile w) \<longrightarrow> n \<le> m \<and> durable cs (take n recs) (wfile w'))
    \<and> recover flt (fresh_writer f' cs st) = Some (w', None) \<and> wal_inv (take m recs) m 0 w'
    \<and> wcsum w' = cs \<and> \<not> syncing w' \<and> syncErr w' = None \<and> store_file_ok (wstore w')"
proof -
  have c: "content (wfile w) = encode_log cs recs" "small recs" "store_inv (wstore w)"
    "index_lags cs recs (b + s) (wfile w) (wstore w)" "b + s \<le> length recs"
    and syn': "store_synced (wstore w)" "length (content (indexFile (wstore w))) \<le> max_file_size"
    using inv cs syn by (auto simp: wal_inv_def store_file_ok_def)
  have pf: "prefix (content f') (encode_log cs recs)" using f' c(1) by (simp add: crashed_def crash_image_def)
  obtain m torn where m: "m \<le> length recs" "content f' = encode_log cs (take m recs) @ torn" "torn_tail cs torn"
    and max: "\<And>n. n \<le> length recs \<Longrightarrow> prefix (encode_log cs (take n recs)) (content f') \<Longrightarrow> n \<le> m"
    using log_prefix_split [OF pf c(2)] by blast
  have dur: "durable cs (take n recs) f'" "n \<le> m" if "n \<le> length recs" "durable cs (take n recs) (wfile w)" for n
  proof -
    show d: "durable cs (take n recs) f'" using that(2) f' durable_grows by (auto simp: crashed_def)
    show "n \<le> m" using max [OF that(1)] d f' prefix_order.trans by (fastforce simp: durable_def crashed_def)
  qed
  obtain n where n: "n \<le> b + s" "sound_entries cs recs n (entries (wstore w))" "durable cs (take n recs) (wfile w)"
    using c(4) by (auto simp: index_lags_def)
  note nm = dur(2) [OF order.trans [OF n(1) c(5)] n(3)]
  define k where "k = length i div 16"
  have es: "keep None (decode_entries k i) = take k (entries (wstore w))"
    using i' syn'(1) c(3) store_inv_int64 [OF c(3)]
    by (intro index_image_loads [OF _ _ _ k_def]) (simp_all add: store_synced_def store_inv_def)
  have sound: "sound_entries cs (take m recs) n (take k (entries (wstore w)))"
    using sound_entries_take [OF n(2) nm] by (auto simp: sound_entries_def dest: in_set_takeD)
  have ok: "file_ok f'" "length (content f') < 2 ^ 62"
    using f' room prefix_length_le [OF pf] c(1) by (simp_all add: file_ok_def crashed_def max_file_size_def)
  have idx: "length (content (indexFile st)) \<le> max_file_size"
    using prefix_length_le [OF i'] syn'(2) st by simp
  have sm: "small (take m recs)" using c(2) by (auto simp: small_def dest: in_set_takeD)
  let ?e = "encode_log cs (take m recs)"
  obtain w' where w': "recover flt (fresh_writer f' cs st) = Some (w', None)"
    "wal_inv (take m recs) (length (take m recs)) 0 w'" "wcsum w' = cs" "\<not> syncing w'" "syncErr w' = None"
    "store_file_ok (wstore w')" "wfile w' = f'\<lparr>content := ?e, synced := take (length ?e) (synced f')\<rparr>"
    using recover_ok [OF m(2,3) ok(2,1) flt(1) sm flt(2) idx, of "take k (entries (wstore w))" n]
      es k_def st sound nm m(1) dur(1) [OF order.trans [OF n(1) c(5)] n(3)]
    by (auto simp: min_absorb1)
  have "durable cs (take j recs) (wfile w')" if "j \<le> length recs" "durable cs (take j recs) (wfile w)" for j
  proof -
    have "encode_log cs (take m recs) = encode_log cs (take j recs) @ encode_log cs (drop j (take m recs))"
      using dur(2) [OF that] encode_log_simps(3) [of cs "take j recs" "drop j (take m recs)"]
      by (metis append_take_drop_id min.absorb1 take_take)
    then show ?thesis
      using dur(1) [OF that] w'(7) prefix_take_mono [of "encode_log cs (take j recs)" "synced f'" "length ?e"]
      by (simp add: durable_def)
  qed
  then show ?thesis
    using m(1) w' dur(2) by (intro exI [of _ m] exI [of _ w']) (simp add: min_absorb2)
qed


section \<open>Recovery of arbitrary bytes\<close>

text \<open>Whatever the log and the index hold, the scan returns from wherever the index sends it.\<close>

lemma recover_scan_past:
  assumes "int n < pos" "n = length (content f)" "\<not> int64 (pos + int (headerSize cs)) > int n"
  shows "\<exists>e. recover_scan flt cs f (int n) off pos = Some (Inl e)"
proof -
  have "\<exists>e. file_ReadAt flt f pos LengthSize = Inl e"
    using assms(1,2) by (auto simp: file_ReadAt_def LengthSize_def split: option.splits)
  then show ?thesis using assms by (subst recover_scan.simps) auto
qed

lemma recover_start_fits:
  "recover_start cs st sz = (off, pos) \<Longrightarrow> (off, pos) = (0, 0) \<or> int64 (pos + int (headerSize cs)) \<le> sz"
  by (auto simp: recover_start_def split: option.splits if_splits)

lemma recover_from_start:
  assumes ok: "file_ok f" and st: "recover_start cs st (int (length (content f))) = (off, pos)"
  shows "\<exists>r. recover_scan flt cs f (int (length (content f))) off pos = Some r \<and> scan_result f 0 r"
proof -
  consider "pos < 0" | "0 \<le> pos" "pos \<le> int (length (content f))" | "int (length (content f)) < pos"
    by linarith
  then show ?thesis
  proof cases
    case 1
    then show ?thesis
      using recover_scan_negative [of pos flt f "length (content f)" off] by (auto simp: scan_result_def)
  next
    case 2
    then show ?thesis using recover_scan_returns [OF 2 ok, of flt off] scan_result_mono by blast
  next
    case 3
    then have "\<not> int64 (pos + int (headerSize cs)) > int (length (content f))"
      using recover_start_fits [OF st] by auto
    then show ?thesis
      using recover_scan_past [OF 3 refl, of flt off] by (auto simp: scan_result_def)
  qed
qed

lemma recover_returns:
  assumes ok: "file_ok (wfile w)" and cs: "wcsum w = cs"
  shows "\<exists>w' e. recover flt w = Some (w', e) \<and> prefix (content (wfile w')) (content (wfile w))
    \<and> (e = None \<longrightarrow> wsize w' = int (length (content (wfile w'))))"
proof (cases "LoadCheckpoints flt (wstore w)")
  case (Pair st e)
  let ?n = "int (length (content (wfile w)))"
  obtain off pos where st: "recover_start cs st ?n = (off, pos)" by fastforce
  obtain r where r: "recover_scan flt cs (wfile w) ?n off pos = Some r" "scan_result (wfile w) 0 r"
    using recover_from_start [OF ok st] by blast
  show ?thesis
  proof (cases "e = None \<and> flt (SysStat (fname (wfile w))) = None")
    case True
    then show ?thesis
      using Pair cs st r
      by (cases r) (auto simp: recover_def file_Stat_Size_def scan_result_def take_is_prefix)
  next
    case False
    then show ?thesis using Pair by (auto simp: recover_def file_Stat_Size_def split: option.splits)
  qed
qed

end

lemma NewWalWriter_recover:
  assumes "recover flt (fresh_writer f cs st) = Some (w, None)" "openable flt f"
  shows "NewWalWriter flt f isNew st cs = Some (Inr w)"
  using assms by (simp add: NewWalWriter_def fresh_writer_def openable_def)

end
