(* ===== verification/Group_Commit.thy ===== *)
theory Group_Commit
  imports Wal_Recovery
begin

text \<open>
  Concurrent writers on one \<open>WALWriter\<close> (\<open>internal/wal/wal_writer.go\<close>): any number of
  goroutines run \<open>Write\<close>, that is \<open>Reserve\<close> and then the loop of \<open>commitLocked\<close>, interleaved
  at the points where the mutex is released. The fsync itself runs outside the mutex and
  covers what was in the file when it started. A crash stops every goroutine and reopens
  the log from what survived.

  The invariant \<open>gc_inv\<close> holds in every reachable state. It gives: an acknowledged record
  is durable, stays readable at its offset for ever, also after any number of crashes;
  there is at most one leader; nobody waits without a leader that will wake them.
\<close>

section \<open>Goroutines\<close>

text \<open>One call of \<open>Write\<close> after its \<open>Reserve\<close>: the offset and sequence number it was given.\<close>

record job =
  j_offset :: u64
  j_seq :: u64
  j_data :: bytes

text \<open>
  Program counters: outside \<open>Write\<close>; at the head of the \<open>commitLocked\<close> loop; in
  \<open>cond.Wait\<close>; in \<open>file.Sync\<close> with the target and the contents the fsync covers; after
  \<open>file.Sync\<close> with its result, before taking the mutex again.
\<close>

datatype pc =
    Idle
  | AtLoop job
  | Waiting job
  | Syncing job u64 bytes
  | SyncDone job u64 "goerror option"

text \<open>The writer, the goroutines by number, and the writes that returned success so far.\<close>

record gc =
  gw :: wal_writer
  pcs :: "nat \<Rightarrow> pc"
  acked :: "(u64 \<times> bytes) list"

text \<open>\<open>cond.Broadcast\<close>: every waiter is back at the head of its loop.\<close>

definition wake :: "pc \<Rightarrow> pc" where
  "wake p = (case p of Waiting j \<Rightarrow> AtLoop j | _ \<Rightarrow> p)"

text \<open>One round of the loop up to the point where the mutex is released.\<close>

definition loop_round :: "gc \<Rightarrow> nat \<Rightarrow> job \<Rightarrow> gc" where
  "loop_round c t j =
     (if syncErr (gw c) \<noteq> None then c\<lparr>pcs := (pcs c)(t := Idle)\<rparr>
      else if syncedSeq (gw c) \<ge> j_seq j then
        c\<lparr>pcs := (pcs c)(t := Idle), acked := acked c @ [(j_offset j, j_data j)]\<rparr>
      else if syncing (gw c) then c\<lparr>pcs := (pcs c)(t := Waiting j)\<rparr>
      else
        let (w, target) = lead_begin (gw c) in
        c\<lparr>gw := w, pcs := (pcs c)(t := Syncing j target (content (wfile w)))\<rparr>)"

text \<open>The leader back under the mutex: it records the outcome and wakes the waiters. After a
  failed fsync it returns; otherwise it goes round the loop.\<close>

definition finish_round :: "faults \<Rightarrow> gc \<Rightarrow> nat \<Rightarrow> job \<Rightarrow> u64 \<Rightarrow> goerror option \<Rightarrow> gc" where
  "finish_round flt c t j target serr =
     c\<lparr>gw := lead_finish flt target serr (gw c),
       pcs := (\<lambda>u. wake (pcs c u))(t := if serr = None then AtLoop j else Idle)\<rparr>"

inductive gc_step :: "faults \<Rightarrow> gc \<Rightarrow> gc \<Rightarrow> bool" where
  reserve: "pcs c t = Idle \<Longrightarrow> Reserve flt (gw c) data = (w, Inr (off, seq)) \<Longrightarrow>
    gc_step flt c (c\<lparr>gw := w, pcs := (pcs c)(t := AtLoop \<lparr>j_offset = off, j_seq = seq, j_data = data\<rparr>)\<rparr>)"
| reserve_fails: "pcs c t = Idle \<Longrightarrow> Reserve flt (gw c) data = (w, Inl e) \<Longrightarrow> gc_step flt c (c\<lparr>gw := w\<rparr>)"
| loop: "pcs c t = AtLoop j \<Longrightarrow> gc_step flt c (loop_round c t j)"
| fsync: "pcs c t = Syncing j target snap \<Longrightarrow> prefix snap y \<Longrightarrow> prefix (synced (wfile (gw c))) y \<Longrightarrow>
    prefix y (content (wfile (gw c))) \<Longrightarrow>
    gc_step flt c (c\<lparr>gw := (gw c)\<lparr>wfile := (wfile (gw c))\<lparr>synced := y\<rparr>\<rparr>,
                     pcs := (pcs c)(t := SyncDone j target None)\<rparr>)"
| fsync_fails: "pcs c t = Syncing j target snap \<Longrightarrow>
    gc_step flt c (c\<lparr>pcs := (pcs c)(t := SyncDone j target (Some (OsError msg)))\<rparr>)"
| finish: "pcs c t = SyncDone j target serr \<Longrightarrow> gc_step flt c (finish_round flt c t j target serr)"
| crash: "crashed (wfile (gw c)) f \<Longrightarrow> crashed (indexFile (wstore (gw c))) i \<Longrightarrow>
    openable flt f \<Longrightarrow> openable flt i \<Longrightarrow> length (content (wfile (gw c))) < 2 ^ 62 \<Longrightarrow>
    NewInMemoryStore flt i False nthI = Inr st \<Longrightarrow> NewWalWriter flt f False st (wcsum (gw c)) = Some (Inr w) \<Longrightarrow>
    gc_step flt c (c\<lparr>gw := w, pcs := (\<lambda>_. Idle)\<rparr>)"

text \<open>
  Executions from an opened writer. A failed append must leave nothing behind: what happens
  otherwise is the subject of \<open>partial_append_loses_acked\<close> below.
\<close>

definition append_atomic :: "faults \<Rightarrow> gc \<Rightarrow> bool" where
  "append_atomic flt c \<longleftrightarrow> atomic_append flt (wfile (gw c)) \<and> atomic_append flt (indexFile (wstore (gw c)))"

inductive gc_reach :: "gc \<Rightarrow> gc \<Rightarrow> bool" for c0 where
  start: "gc_reach c0 c0"
| step: "gc_reach c0 c \<Longrightarrow> append_atomic flt c \<Longrightarrow> gc_step flt c c' \<Longrightarrow> gc_reach c0 c'"

text \<open>A fresh log: empty files and no goroutine in \<open>Write\<close>.\<close>

definition gc_init :: "string \<Rightarrow> string \<Rightarrow> checksum \<Rightarrow> u32 \<Rightarrow> gc" where
  "gc_init logName idxName cs nthI =
     \<lparr>gw = fresh_writer \<lparr>fname = logName, content = [], synced = []\<rparr> cs
        \<lparr>offsets = [], positions = [], index = Map.empty,
         indexFile = \<lparr>fname = idxName, content = [], synced = []\<rparr>, seen = 0, nthIndex = nthI\<rparr>,
      pcs = (\<lambda>_. Idle), acked = []\<rparr>"

section \<open>Invariant\<close>

definition leader :: "pc \<Rightarrow> bool" where
  "leader p \<longleftrightarrow> (case p of Syncing _ _ _ \<Rightarrow> True | SyncDone _ _ _ \<Rightarrow> True | _ \<Rightarrow> False)"

definition waits :: "pc \<Rightarrow> bool" where
  "waits p \<longleftrightarrow> (case p of Waiting _ \<Rightarrow> True | _ \<Rightarrow> False)"

definition job_of :: "pc \<Rightarrow> job option" where
  "job_of p = (case p of Idle \<Rightarrow> None | AtLoop j \<Rightarrow> Some j | Waiting j \<Rightarrow> Some j
     | Syncing j _ _ \<Rightarrow> Some j | SyncDone j _ _ \<Rightarrow> Some j)"

text \<open>A job names a record of the session, by offset, sequence number and payload.\<close>

definition job_ok :: "bytes list \<Rightarrow> nat \<Rightarrow> job \<Rightarrow> bool" where
  "job_ok recs b j \<longleftrightarrow> (\<exists>k. b \<le> k \<and> k < length recs \<and> j_offset j = of_nat k
     \<and> j_seq j = of_nat (k - b + 1) \<and> j_data j = recs ! k)"

text \<open>What a leader may rely on: the fsync covers (will cover) every record up to its target.\<close>

definition leader_ok :: "checksum \<Rightarrow> bytes list \<Rightarrow> nat \<Rightarrow> nat \<Rightarrow> os_file \<Rightarrow> pc \<Rightarrow> bool" where
  "leader_ok cs recs b s f p \<longleftrightarrow>
     (case p of
        Syncing j target snap \<Rightarrow> (\<exists>t. target = of_nat t \<and> s \<le> t \<and> b + t \<le> length recs \<and> j_seq j \<le> target
          \<and> prefix (encode_log cs (take (b + t) recs)) snap \<and> prefix snap (content f))
      | SyncDone j target None \<Rightarrow> (\<exists>t. target = of_nat t \<and> s \<le> t \<and> b + t \<le> length recs \<and> j_seq j \<le> target
          \<and> durable cs (take (b + t) recs) f)
      | _ \<Rightarrow> True)"

text \<open>Every acknowledged write is one of the durable records.\<close>

definition acked_ok :: "checksum \<Rightarrow> bytes list \<Rightarrow> os_file \<Rightarrow> (u64 \<times> bytes) list \<Rightarrow> bool" where
  "acked_ok cs recs f as \<longleftrightarrow> (\<exists>d \<le> length recs. durable cs (take d recs) f
     \<and> (\<forall>(off, data) \<in> set as. \<exists>k < d. off = of_nat k \<and> data = recs ! k))"

text \<open>The flag \<open>syncing\<close> is up exactly while one goroutine leads, and waiters have a leader.\<close>

definition elected :: "bool \<Rightarrow> (nat \<Rightarrow> pc) \<Rightarrow> bool" where
  "elected sy P \<longleftrightarrow> (\<forall>t. leader (P t) \<longrightarrow> sy) \<and> (\<forall>t u. leader (P t) \<longrightarrow> leader (P u) \<longrightarrow> t = u)
     \<and> (sy \<longrightarrow> (\<exists>t. leader (P t))) \<and> (\<forall>t. waits (P t) \<longrightarrow> sy)"

definition threads_ok :: "checksum \<Rightarrow> bytes list \<Rightarrow> nat \<Rightarrow> nat \<Rightarrow> os_file \<Rightarrow> (nat \<Rightarrow> pc) \<Rightarrow> bool" where
  "threads_ok cs recs b s f P \<longleftrightarrow>
     (\<forall>t. (\<forall>j. job_of (P t) = Some j \<longrightarrow> job_ok recs b j) \<and> leader_ok cs recs b s f (P t))"

definition gc_inv :: "checksum \<Rightarrow> bytes list \<Rightarrow> nat \<Rightarrow> nat \<Rightarrow> gc \<Rightarrow> bool" where
  "gc_inv cs recs b s c \<longleftrightarrow>
     wcsum (gw c) = cs \<and> wal_inv recs b s (gw c) \<and> store_file_ok (wstore (gw c))
     \<and> acked_ok cs recs (wfile (gw c)) (acked c)
     \<and> threads_ok cs recs b s (wfile (gw c)) (pcs c) \<and> elected (syncing (gw c)) (pcs c)"

lemmas pc_defs = leader_def waits_def job_of_def wake_def

lemma elected_set:
  "elected sy P \<Longrightarrow> leader p = leader (P t) \<Longrightarrow> (waits p \<Longrightarrow> sy) \<Longrightarrow> elected sy (P(t := p))"
  unfolding elected_def by (metis fun_upd_apply)

lemma elected_lead: "elected False P \<Longrightarrow> leader p \<Longrightarrow> \<not> waits p \<Longrightarrow> elected True (P(t := p))"
  by (auto simp: elected_def)

lemma threads_ok_set:
  "threads_ok cs recs b s f P \<Longrightarrow> (\<And>j. job_of p = Some j \<Longrightarrow> job_ok recs b j) \<Longrightarrow>
     leader_ok cs recs b s f p \<Longrightarrow> threads_ok cs recs b s f (P(t := p))"
  by (simp add: threads_ok_def)

lemma acked_ok_append:
  assumes "acked_ok cs recs f as" "synced f' = synced f"
  shows "acked_ok cs (recs @ recs') f' as"
proof -
  obtain d where d: "d \<le> length recs" "durable cs (take d recs) f"
    "\<forall>(off, data) \<in> set as. \<exists>k < d. off = of_nat k \<and> data = recs ! k"
    using assms(1) by (auto simp: acked_ok_def)
  have "\<forall>(off, data) \<in> set as. \<exists>k < d. off = of_nat k \<and> data = (recs @ recs') ! k"
    using d(1,3) by (fastforce simp: nth_append)
  then show ?thesis
    using d assms(2) unfolding acked_ok_def by (intro exI [of _ d]) (simp add: durable_def)
qed

lemma acked_ok_snoc:
  assumes "acked_ok cs recs f as" "n \<le> length recs" "durable cs (take n recs) f" "k < n"
  shows "acked_ok cs recs f (as @ [(of_nat k, recs ! k)])"
proof -
  obtain d where d: "d \<le> length recs" "durable cs (take d recs) f"
    "\<forall>(off, data) \<in> set as. \<exists>k < d. off = of_nat k \<and> data = recs ! k"
    using assms(1) by (auto simp: acked_ok_def)
  have "durable cs (take (max d n) recs) f" using d(2) assms(3) by (simp add: max_def)
  moreover have "\<forall>(off, data) \<in> set (as @ [(of_nat k, recs ! k)]). \<exists>k < max d n. off = of_nat k \<and> data = recs ! k"
    using d(3) assms(4) by (auto simp: less_max_iff_disj)
  ultimately show ?thesis using d(1) assms(2) unfolding acked_ok_def by (intro exI [of _ "max d n"]) simp
qed

lemma job_ok_append: "job_ok recs b j \<Longrightarrow> job_ok (recs @ recs') b j"
  unfolding job_ok_def by (metis length_append nth_append trans_less_add1)

lemma leader_ok_append:
  assumes "leader_ok cs recs b s f p" "synced f' = synced f" "prefix (content f) (content f')"
  shows "leader_ok cs (recs @ recs') b s f' p"
proof -
  have "leader_ok cs recs b s f' p"
    using assms prefix_order.trans [OF _ assms(3)]
    by (auto simp: leader_ok_def durable_def split: pc.splits option.splits)
  moreover have "take (b + t) (recs @ recs') = take (b + t) recs" if "b + t \<le> length recs" for t
    using that by simp
  ultimately show ?thesis
    unfolding leader_ok_def by (fastforce split: pc.splits option.splits)
qed

context checksum_alg
begin

lemma step_reserve:
  assumes inv: "gc_inv cs recs b s c" and idle: "pcs c t = Idle"
    and r: "Reserve flt (gw c) data = (w, Inr (off, seq))"
  shows "gc_inv cs (recs @ [data]) b s
    (c\<lparr>gw := w, pcs := (pcs c)(t := AtLoop \<lparr>j_offset = off, j_seq = seq, j_data = data\<rparr>)\<rparr>)"
proof -
  have w: "wal_inv recs b s (gw c)" "wcsum (gw c) = cs" using inv by (simp_all add: gc_inv_def)
  note R = Reserve_ok [OF w r]
  have st: "wstore w = wstore (gw c)"
    using r by (auto simp: Reserve_def Let_def split: if_splits prod.splits option.splits)
  have f: "synced (wfile w) = synced (wfile (gw c))" "prefix (content (wfile (gw c))) (content (wfile w))"
    using R(8) by simp_all
  have bl: "b \<le> length recs" using w(1) by (simp add: wal_inv_def)
  have new: "job_ok (recs @ [data]) b \<lparr>j_offset = off, j_seq = seq, j_data = data\<rparr>"
    unfolding job_ok_def using R(3,4) bl by (intro exI [of _ "length recs"]) simp
  have "threads_ok cs (recs @ [data]) b s (wfile w) (pcs c)"
    using inv f job_ok_append [of recs b _ "[data]"]
      leader_ok_append [of cs recs b s "wfile (gw c)" _ "wfile w" "[data]"]
    by (simp add: gc_inv_def threads_ok_def)
  then have "threads_ok cs (recs @ [data]) b s (wfile w)
      ((pcs c)(t := AtLoop \<lparr>j_offset = off, j_seq = seq, j_data = data\<rparr>))"
    using new by (intro threads_ok_set) (simp_all add: pc_defs leader_ok_def)
  moreover have "elected (syncing w) ((pcs c)(t := AtLoop \<lparr>j_offset = off, j_seq = seq, j_data = data\<rparr>))"
    using inv R(6) idle by (intro elected_set) (simp_all add: gc_inv_def pc_defs)
  ultimately show ?thesis
    using inv R(1,2) st f(1) acked_ok_append [of cs recs "wfile (gw c)" "acked c" "wfile w" "[data]"]
    by (simp add: gc_inv_def)
qed


lemma step_reserve_fails:
  assumes "Reserve flt w data = (w', Inl e)" "atomic_append flt (wfile w)"
  shows "w' = w"
  using assms
  by (auto simp: Reserve_def Let_def file_Write_def atomic_append_def split: if_splits option.splits)

lemma job_seq_le:
  assumes "job_ok recs b j" "syncedSeq w \<ge> j_seq j" "wal_inv recs b s w" "wcsum w = cs"
  shows "\<exists>k < b + s. j_offset j = of_nat k \<and> j_data j = recs ! k \<and> 0 < s"
proof -
  obtain k where k: "b \<le> k" "k < length recs" "j_offset j = of_nat k" "j_seq j = of_nat (k - b + 1)"
    "j_data j = recs ! k" using assms(1) by (auto simp: job_ok_def)
  have "length recs < 2 ^ 63" "b + s \<le> length recs" "syncedSeq w = of_nat s"
    using wal_inv_count [OF assms(3,4)] assms(3) by (simp_all add: wal_inv_def)
  then have "k - b + 1 \<le> s" using assms(2) k u64_le [of "k - b + 1" s] by simp
  then show ?thesis using k by (intro exI [of _ k]) auto
qed

text \<open>A goroutine that becomes the leader covers its own record.\<close>

lemma leader_ok_start:
  assumes "job_ok recs b j" "wal_inv recs b s w" "wcsum w = cs"
  shows "leader_ok cs recs b s (wfile w) (Syncing j (writeSeq w) (content (wfile w)))"
proof -
  define t where "t = length recs - b"
  obtain k where k: "b \<le> k" "k < length recs" "j_seq j = of_nat (k - b + 1)"
    using assms(1) by (auto simp: job_ok_def)
  have w: "length recs < 2 ^ 63" "b + s \<le> length recs" "writeSeq w = of_nat t" "content (wfile w) = encode_log cs recs"
    using wal_inv_count [OF assms(2,3)] assms(2,3) by (simp_all add: wal_inv_def t_def)
  have "s \<le> t" "b + t = length recs" using w(2) by (simp_all add: t_def)
  moreover have "k - b + 1 \<le> t" using k(1,2) by (simp add: t_def)
  then have "j_seq j \<le> of_nat t" using k(3) w(1) u64_le [of "k - b + 1" t] \<open>b + t = length recs\<close> by simp
  ultimately show ?thesis using w unfolding leader_ok_def by (auto intro!: exI [of _ t])
qed

lemma step_loop:
  assumes inv: "gc_inv cs recs b s c" and at: "pcs c t = AtLoop j"
  shows "gc_inv cs recs b s (loop_round c t j)"
proof -
  have w: "wal_inv recs b s (gw c)" "wcsum (gw c) = cs" and th: "threads_ok cs recs b s (wfile (gw c)) (pcs c)"
    and el: "elected (syncing (gw c)) (pcs c)"
    using inv by (simp_all add: gc_inv_def)
  have j: "job_ok recs b j" using th at job_of_def [of "AtLoop j"] by (auto simp: threads_ok_def dest: spec [of _ t])
  have set_pc: "threads_ok cs recs b s (wfile (gw c)) ((pcs c)(t := p))"
    if "job_of p \<in> {None, Some j}" "leader_ok cs recs b s (wfile (gw c)) p" for p
    using th that j by (intro threads_ok_set) auto
  consider (err) "syncErr (gw c) \<noteq> None"
    | (ok) "syncErr (gw c) = None" "syncedSeq (gw c) \<ge> j_seq j"
    | (wait) "syncErr (gw c) = None" "\<not> syncedSeq (gw c) \<ge> j_seq j" "syncing (gw c)"
    | (lead) "syncErr (gw c) = None" "\<not> syncedSeq (gw c) \<ge> j_seq j" "\<not> syncing (gw c)" by blast
  then show ?thesis
  proof cases
    case err
    then show ?thesis
      using inv at set_pc [of Idle] elected_set [OF el, of Idle t]
      by (simp add: loop_round_def gc_inv_def pc_defs leader_ok_def)
  next
    case ok
    obtain k where k: "k < b + s" "j_offset j = of_nat k" "j_data j = recs ! k" "0 < s"
      using job_seq_le [OF j ok(2) w] by blast
    have "acked_ok cs recs (wfile (gw c)) (acked c @ [(of_nat k, recs ! k)])"
      using inv k w by (intro acked_ok_snoc [of _ _ _ _ "b + s"]) (simp_all add: gc_inv_def wal_inv_def)
    then show ?thesis
      using ok inv at set_pc [of Idle] elected_set [OF el, of Idle t] k(2,3)
      by (simp add: loop_round_def gc_inv_def pc_defs leader_ok_def)
  next
    case wait
    then show ?thesis
      using inv at set_pc [of "Waiting j"] elected_set [OF el, of "Waiting j" t]
      by (simp add: loop_round_def gc_inv_def pc_defs leader_ok_def)
  next
    case lead
    let ?p = "Syncing j (writeSeq (gw c)) (content (wfile (gw c)))"
    have "leader_ok cs recs b s (wfile (gw c)) ?p" using leader_ok_start [OF j w] .
    then have "threads_ok cs recs b s (wfile (gw c)) ((pcs c)(t := ?p))"
      by (intro set_pc) (simp_all add: job_of_def)
    moreover have "elected True ((pcs c)(t := ?p))"
      using el lead(3) by (intro elected_lead) (simp_all add: pc_defs)
    ultimately show ?thesis
      using lead inv by (simp add: loop_round_def lead_begin_def gc_inv_def)
  qed
qed


lemma step_fsync:
  assumes inv: "gc_inv cs recs b s c" and at: "pcs c t = Syncing j target snap"
    and y: "prefix snap y" "prefix (synced (wfile (gw c))) y" "prefix y (content (wfile (gw c)))"
  shows "gc_inv cs recs b s (c\<lparr>gw := (gw c)\<lparr>wfile := (wfile (gw c))\<lparr>synced := y\<rparr>\<rparr>,
                     pcs := (pcs c)(t := SyncDone j target None)\<rparr>)"
proof -
  let ?f = "(wfile (gw c))\<lparr>synced := y\<rparr>"
  have w: "wal_inv recs b s (gw c)" and th: "threads_ok cs recs b s (wfile (gw c)) (pcs c)"
    and el: "elected (syncing (gw c)) (pcs c)" and ac: "acked_ok cs recs (wfile (gw c)) (acked c)"
    using inv by (simp_all add: gc_inv_def)
  have grow: "durable cs r ?f" if "durable cs r (wfile (gw c))" for r
    using durable_grows [OF that, of ?f] y(2) by simp
  have ac': "acked_ok cs recs ?f (acked c)" using ac grow unfolding acked_ok_def by blast
  have lo: "leader_ok cs recs b s (wfile (gw c)) (pcs c t)" and jo: "job_ok recs b j"
    using th at unfolding threads_ok_def by (auto simp: job_of_def dest: spec [of _ t])
  have new: "leader_ok cs recs b s ?f (SyncDone j target None)"
    using lo at prefix_order.trans [OF _ y(1)] by (auto simp: leader_ok_def durable_def)
  have "leader_ok cs recs b s ?f p" if "leader_ok cs recs b s (wfile (gw c)) p" for p
    using that grow by (auto simp: leader_ok_def split: pc.splits option.splits)
  then have "threads_ok cs recs b s ?f (pcs c)" using th by (simp add: threads_ok_def)
  then have "threads_ok cs recs b s ?f ((pcs c)(t := SyncDone j target None))"
    using new jo by (intro threads_ok_set) (simp_all add: job_of_def)
  moreover have "elected (syncing (gw c)) ((pcs c)(t := SyncDone j target None))"
    using at by (intro elected_set [OF el]) (simp_all add: pc_defs)
  ultimately show ?thesis using inv ac' wal_inv_sync [OF w y(2,3)] by (simp add: gc_inv_def)
qed

lemma step_fsync_fails:
  assumes inv: "gc_inv cs recs b s c" and at: "pcs c t = Syncing j target snap"
  shows "gc_inv cs recs b s (c\<lparr>pcs := (pcs c)(t := SyncDone j target (Some e))\<rparr>)"
proof -
  have th: "threads_ok cs recs b s (wfile (gw c)) (pcs c)" and el: "elected (syncing (gw c)) (pcs c)"
    using inv by (simp_all add: gc_inv_def)
  have "job_ok recs b j"
    using th at unfolding threads_ok_def by (auto simp: job_of_def dest: spec [of _ t])
  then have "threads_ok cs recs b s (wfile (gw c)) ((pcs c)(t := SyncDone j target (Some e)))"
    by (intro threads_ok_set [OF th]) (simp_all add: job_of_def leader_ok_def)
  moreover have "elected (syncing (gw c)) ((pcs c)(t := SyncDone j target (Some e)))"
    using at by (intro elected_set [OF el]) (simp_all add: pc_defs)
  ultimately show ?thesis using inv by (simp add: gc_inv_def)
qed

lemma wake_simps [simp]: "job_of (wake p) = job_of p" "leader (wake p) = leader p" "\<not> waits (wake p)"
  by (simp_all add: pc_defs split: pc.splits)

text \<open>Once the leader has woken the others, nobody leads and nobody waits.\<close>

lemma woken:
  assumes th: "threads_ok cs recs b s f P" and el: "elected sy P" and at: "leader (P t)"
    and p: "\<not> leader p" "\<not> waits p" "\<And>j. job_of p = Some j \<Longrightarrow> job_of (P t) = Some j"
  shows "threads_ok cs recs b s' f' ((\<lambda>u. wake (P u))(t := p))" "elected False ((\<lambda>u. wake (P u))(t := p))"
proof -
  have nl: "\<not> leader (((\<lambda>u. wake (P u))(t := p)) u)" for u
    using el at p(1) by (auto simp: elected_def)
  have idle: "leader_ok cs recs b s' f' q" if "\<not> leader q" for q
    using that by (auto simp: leader_ok_def leader_def split: pc.splits)
  have "job_of (((\<lambda>u. wake (P u))(t := p)) u) = Some j \<Longrightarrow> job_ok recs b j" for u j
    using th p(3) by (auto simp: threads_ok_def split: if_splits)
  then show "threads_ok cs recs b s' f' ((\<lambda>u. wake (P u))(t := p))"
    using idle [OF nl] unfolding threads_ok_def by blast
  show "elected False ((\<lambda>u. wake (P u))(t := p))"
    using nl p(2) by (simp add: elected_def)
qed

lemma step_finish:
  assumes inv: "gc_inv cs recs b s c" and at: "pcs c t = SyncDone j target serr"
    and fl: "atomic_append flt (indexFile (wstore (gw c)))"
  shows "\<exists>s'. gc_inv cs recs b s' (finish_round flt c t j target serr)"
proof -
  have w: "wal_inv recs b s (gw c)" "wcsum (gw c) = cs" and th: "threads_ok cs recs b s (wfile (gw c)) (pcs c)"
    and el: "elected (syncing (gw c)) (pcs c)" and sf: "store_file_ok (wstore (gw c))"
    using inv by (simp_all add: gc_inv_def)
  let ?w = "lead_finish flt target serr (gw c)"
  let ?p = "if serr = None then AtLoop j else Idle"
  have lo: "leader_ok cs recs b s (wfile (gw c)) (SyncDone j target serr)"
    using th at unfolding threads_ok_def by (metis (no_types))
  note wk = woken [OF th el, of t ?p]
  have thr: "threads_ok cs recs b s' f ((\<lambda>u. wake (pcs c u))(t := ?p))"
    "elected False ((\<lambda>u. wake (pcs c u))(t := ?p))" for s' f
    using wk at by (auto simp: pc_defs)
  have sf': "store_file_ok (wstore ?w)"
    using lead_finish_file [OF fl sf] w(1) by (simp add: wal_inv_def)
  obtain s' where "wal_inv recs b s' ?w" "wfile ?w = wfile (gw c)" "wcsum ?w = cs" "\<not> syncing ?w"
  proof (cases serr)
    case None
    then obtain q where q: "target = of_nat q" "s \<le> q" "b + q \<le> length recs" "durable cs (take (b + q) recs) (wfile (gw c))"
      using lo by (auto simp: leader_ok_def)
    show thesis
      using lead_finish_ok [OF w q(2-4), of flt] None q(1) w(2) that [of q] by auto
  next
    case (Some e)
    then show thesis using w that [of s] by (simp add: lead_finish_def Let_def)
  qed
  then show ?thesis
    using inv sf' thr unfolding gc_inv_def finish_round_def by (intro exI [of _ s']) simp
qed

lemma step_crash:
  assumes inv: "gc_inv cs recs b s c"
    and f: "crashed (wfile (gw c)) f" "crashed (indexFile (wstore (gw c))) i" "openable flt f" "openable flt i"
    and room: "length (content (wfile (gw c))) < 2 ^ 62"
    and st: "NewInMemoryStore flt i False nthI = Inr st"
    and w: "NewWalWriter flt f False st (wcsum (gw c)) = Some (Inr w)"
  shows "\<exists>m \<le> length recs. gc_inv cs (take m recs) m 0 (c\<lparr>gw := w, pcs := (\<lambda>_. Idle)\<rparr>)"
proof -
  have wi: "wal_inv recs b s (gw c)" "wcsum (gw c) = cs" "store_file_ok (wstore (gw c))"
    and ac: "acked_ok cs recs (wfile (gw c)) (acked c)"
    using inv by (simp_all add: gc_inv_def)
  have si: "indexFile st = i" using st by (auto simp: NewInMemoryStore_def split: option.splits)
  have "prefix (content i) (content (indexFile (wstore (gw c))))"
    using f(2) by (simp add: crashed_def crash_image_def)
  then obtain m w' where m: "m \<le> length recs"
    "\<forall>n \<le> length recs. durable cs (take n recs) (wfile (gw c)) \<longrightarrow> n \<le> m \<and> durable cs (take n recs) (wfile w')"
    and r: "recover flt (fresh_writer f cs st) = Some (w', None)" "wal_inv (take m recs) m 0 w'"
      "wcsum w' = cs" "\<not> syncing w'" "store_file_ok (wstore w')"
    using crash_recovery [OF wi f(1) _ _ _ _ room, of "content i" st flt] si f(3,4) by (auto simp: openable_def)
  have ww: "w = w'" using NewWalWriter_recover [OF r(1) f(3)] w wi(2) by simp
  have "acked_ok cs (take m recs) (wfile w') (acked c)"
  proof -
    obtain d where d: "d \<le> length recs" "durable cs (take d recs) (wfile (gw c))"
      "\<forall>(off, data) \<in> set (acked c). \<exists>k < d. off = of_nat k \<and> data = recs ! k"
      using ac by (auto simp: acked_ok_def)
    have dm: "d \<le> m" "durable cs (take d recs) (wfile w')" using m(2) d(1,2) by auto
    have "\<forall>(off, data) \<in> set (acked c). \<exists>k < d. off = of_nat k \<and> data = take m recs ! k"
      using d(3) dm(1) by fastforce
    then show ?thesis
      using dm m(1) unfolding acked_ok_def by (intro exI [of _ d]) (simp add: min_absorb1)
  qed
  then show ?thesis
    using r m(1) ww unfolding gc_inv_def
    by (intro exI [of _ m]) (simp add: threads_ok_def elected_def pc_defs leader_ok_def)
qed


section \<open>Reachable states\<close>

lemma gc_init_inv: "gc_inv cs [] 0 0 (gc_init l i cs nthI)"
proof -
  have "wal_inv [] 0 0 (gw (gc_init l i cs nthI))"
    by (simp add: gc_init_def fresh_writer_def wal_inv_def file_ok_def small_def store_inv_def entries_def
        index_lags_def sound_entries_def durable_def)
  then show ?thesis
    by (simp add: gc_inv_def gc_init_def fresh_writer_def store_file_ok_def store_synced_def entries_def
        acked_ok_def durable_def threads_ok_def elected_def pc_defs leader_ok_def)
qed

lemma gc_step_inv:
  assumes "gc_step flt c c'" "gc_inv cs recs b s c" "append_atomic flt c"
  shows "\<exists>recs' b' s'. gc_inv cs recs' b' s' c'"
  using assms
proof (cases rule: gc_step.cases)
  case (reserve t data w off seq)
  then show ?thesis using step_reserve [OF assms(2), of t flt data] by auto
next
  case (reserve_fails t data w e)
  then have "w = gw c" using step_reserve_fails [of flt "gw c" data] assms(3) by (simp add: append_atomic_def)
  then show ?thesis using reserve_fails assms(2) by auto
next
  case (loop t j)
  then show ?thesis using step_loop [OF assms(2)] by blast
next
  case (fsync t j target snap y)
  then show ?thesis using step_fsync [OF assms(2)] by blast
next
  case (fsync_fails t j target snap msg)
  then show ?thesis using step_fsync_fails [OF assms(2)] by blast
next
  case (finish t j target serr)
  then show ?thesis using step_finish [OF assms(2), of t j target serr flt] assms(3) by (auto simp: append_atomic_def)
next
  case (crash f i nthI st w)
  then show ?thesis using step_crash [OF assms(2), of f i flt nthI st w] by auto
qed

lemma gc_reach_inv:
  assumes "gc_reach c0 c" "gc_inv cs recs b s c0"
  shows "\<exists>recs' b' s'. gc_inv cs recs' b' s' c"
  using assms(1)
proof (induction rule: gc_reach.induct)
  case start
  then show ?case using assms(2) by blast
next
  case (step c flt c')
  then show ?case using gc_step_inv by blast
qed

lemma gc_inv_acked_readable:
  assumes "gc_inv cs recs b s c" "(off, data) \<in> set (acked c)" "readable flt (wfile (gw c))" "rcsum r = cs"
  shows "reader_ReadAt flt r (wfile (gw c)) (wstore (gw c)) off = Inr data"
proof -
  obtain d where d: "d \<le> length recs" "\<forall>(off, data) \<in> set (acked c). \<exists>k < d. off = of_nat k \<and> data = recs ! k"
    using assms(1) by (auto simp: gc_inv_def acked_ok_def)
  have "\<exists>k < d. off = of_nat k \<and> data = recs ! k" using bspec [OF d(2) assms(2)] by simp
  then obtain k where kd: "k < d" and k: "off = of_nat k" "data = recs ! k" by blast
  have kl: "k < length recs" using kd d(1) by simp
  have "log_image cs recs (wfile (gw c)) (wstore (gw c))"
    using assms(1) wal_inv_image [of recs b s "gw c"] by (auto simp: gc_inv_def)
  from reader_hit [OF this assms(3,4) kl] show ?thesis using k by simp
qed

end

section \<open>Progress\<close>

text \<open>The call of \<open>Write\<close> with job \<open>j\<close> is over: acknowledged, or failed with a broken writer.\<close>

definition returned :: "gc \<Rightarrow> nat \<Rightarrow> job \<Rightarrow> bool" where
  "returned c t j \<longleftrightarrow> pcs c t = Idle \<and> ((j_offset j, j_data j) \<in> set (acked c) \<or> syncErr (gw c) \<noteq> None)"

lemma gc_reach_trans: "gc_reach b c \<Longrightarrow> gc_reach a b \<Longrightarrow> gc_reach a c"
  by (induction rule: gc_reach.induct) (auto intro: gc_reach.step)

lemma gc_reach_step: "gc_step no_faults a b \<Longrightarrow> gc_reach a b"
  by (rule gc_reach.step [OF gc_reach.start, of no_faults]) (simp_all add: append_atomic_def atomic_append_def no_faults_def)

context checksum_alg
begin

lemma finish_reach:
  assumes "gc_inv cs recs b s c" "pcs c t = SyncDone j target serr"
  shows "gc_reach c (finish_round no_faults c t j target serr)"
    "\<exists>s'. gc_inv cs recs b s' (finish_round no_faults c t j target serr)"
  using gc_reach_step [OF gc_step.finish [OF assms(2)]] step_finish [OF assms, of no_faults]
  by (simp_all add: atomic_append_def no_faults_def)

lemma finish_covers:
  assumes inv: "gc_inv cs recs b s c" and at: "pcs c t = SyncDone j target None"
  shows "j_seq j \<le> syncedSeq (lead_finish flt target None (gw c))"
proof -
  have "leader_ok cs recs b s (wfile (gw c)) (pcs c t)" using inv by (simp add: gc_inv_def threads_ok_def)
  then obtain q where q: "target = of_nat q" "s \<le> q" "b + q \<le> length recs" "j_seq j \<le> target"
    "durable cs (take (b + q) recs) (wfile (gw c))"
    using at by (auto simp: leader_ok_def)
  have "wal_inv recs b q (lead_finish flt target None (gw c))"
    using lead_finish_ok(1) [of recs b s "gw c" q flt] inv q by (simp add: gc_inv_def)
  then show ?thesis using q by (simp add: wal_inv_def)
qed

lemma loop_reach: "pcs c t = AtLoop j \<Longrightarrow> gc_reach c (loop_round c t j)"
  by (rule gc_reach_step [OF gc_step.loop])

lemma done_returns:
  assumes inv: "gc_inv cs recs b s c" and at: "pcs c t = SyncDone j target serr"
  shows "\<exists>c'. gc_reach c c' \<and> returned c' t j"
proof -
  let ?c = "finish_round no_faults c t j target serr"
  note fin = finish_reach(1) [OF inv at]
  show ?thesis
  proof (cases serr)
    case (Some e)
    then have "returned ?c t j" by (simp add: returned_def finish_round_def lead_finish_def Let_def)
    then show ?thesis using fin by blast
  next
    case None
    then have "pcs ?c t = AtLoop j" by (simp add: finish_round_def)
    moreover have "j_seq j \<le> syncedSeq (gw ?c)"
      using finish_covers [OF inv, of t j target no_faults] at None by (simp add: finish_round_def)
    ultimately have "gc_reach ?c (loop_round ?c t j)" "returned (loop_round ?c t j) t j"
      using loop_reach by (auto simp: loop_round_def returned_def)
    then show ?thesis using gc_reach_trans fin by blast
  qed
qed

lemma sync_reach:
  assumes inv: "gc_inv cs recs b s c" and at: "pcs c t = Syncing j target snap"
  obtains c' where "gc_reach c c'" "gc_inv cs recs b s c'" "pcs c' = (pcs c)(t := SyncDone j target None)"
proof -
  let ?f = "wfile (gw c)"
  have "leader_ok cs recs b s ?f (pcs c t)" "wal_inv recs b s (gw c)"
    using inv by (simp_all add: gc_inv_def threads_ok_def)
  then have p: "prefix snap (content ?f)" "prefix (synced ?f) (content ?f)"
    using at wal_inv_file by (auto simp: leader_ok_def)
  show thesis
    using that [OF gc_reach_step [OF gc_step.fsync [OF at p prefix_order.refl]]
        step_fsync [OF inv at p prefix_order.refl]] by simp
qed

text \<open>A goroutine at the head of its loop with nobody leading returns.\<close>

lemma at_loop_returns:
  assumes inv: "gc_inv cs recs b s c" and at: "pcs c t = AtLoop j" and "\<not> syncing (gw c)"
  shows "\<exists>c'. gc_reach c c' \<and> returned c' t j"
proof (cases "syncErr (gw c) \<noteq> None \<or> syncedSeq (gw c) \<ge> j_seq j")
  case True
  then have "returned (loop_round c t j) t j" by (auto simp: loop_round_def returned_def)
  then show ?thesis using loop_reach [OF at] by blast
next
  case False
  let ?c = "loop_round c t j"
  have sy: "pcs ?c t = Syncing j (writeSeq (gw c)) (content (wfile (gw c)))"
    using False assms(3) by (simp add: loop_round_def lead_begin_def)
  obtain c2 where c2: "gc_reach ?c c2" "gc_inv cs recs b s c2"
    "pcs c2 = (pcs ?c)(t := SyncDone j (writeSeq (gw c)) None)"
    using sync_reach [OF step_loop [OF inv at] sy] by blast
  from done_returns [OF c2(2), of t j] c2(3) obtain c3 where "gc_reach c2 c3" "returned c3 t j" by auto
  then show ?thesis using loop_reach [OF at] c2(1) gc_reach_trans by blast
qed

lemma waiter_woken:
  assumes inv: "gc_inv cs recs b s c" and at: "pcs c t = Waiting j"
    and u: "pcs c u = SyncDone j' target serr"
  shows "\<exists>c'. gc_reach c c' \<and> returned c' t j"
proof -
  let ?c = "finish_round no_faults c u j' target serr"
  have "t \<noteq> u" using at u by auto
  then have "pcs ?c t = AtLoop j" using at by (simp add: finish_round_def wake_def)
  moreover have "\<not> syncing (gw ?c)"
    by (auto simp: finish_round_def lead_finish_def Let_def split: option.splits prod.splits)
  moreover obtain s' where "gc_inv cs recs b s' ?c" using finish_reach(2) [OF inv u] by blast
  ultimately obtain c' where "gc_reach ?c c'" "returned c' t j" using at_loop_returns by blast
  then show ?thesis using finish_reach(1) [OF inv u] gc_reach_trans by blast
qed

lemma waiter_returns:
  assumes inv: "gc_inv cs recs b s c" and at: "pcs c t = Waiting j"
  shows "\<exists>c'. gc_reach c c' \<and> returned c' t j"
proof -
  have "waits (pcs c t)" using at by (simp add: waits_def)
  then have "syncing (gw c)" using inv by (auto simp: gc_inv_def elected_def)
  then obtain u where u: "leader (pcs c u)" using inv by (auto simp: gc_inv_def elected_def)
  then consider j' target snap where "pcs c u = Syncing j' target snap"
    | j' target serr where "pcs c u = SyncDone j' target serr"
    by (auto simp: leader_def split: pc.splits)
  then show ?thesis
  proof cases
    case 1
    then obtain c1 where c1: "gc_reach c c1" "gc_inv cs recs b s c1" "pcs c1 = (pcs c)(u := SyncDone j' target None)"
      using sync_reach [OF inv] by blast
    moreover have "t \<noteq> u" using at 1 by auto
    ultimately obtain c' where "gc_reach c1 c'" "returned c' t j"
      using waiter_woken [OF c1(2), of t j u j' target None] at by auto
    then show ?thesis using c1(1) gc_reach_trans by blast
  next
    case 2
    then show ?thesis using waiter_woken [OF inv at] by blast
  qed
qed

lemma thread_returns:
  assumes inv: "gc_inv cs recs b s c" and j: "job_of (pcs c t) = Some j"
  shows "\<exists>c'. gc_reach c c' \<and> returned c' t j"
proof (cases "pcs c t")
  case Idle
  then show ?thesis using j by (simp add: job_of_def)
next
  case (AtLoop j')
  then have at: "pcs c t = AtLoop j" using j by (simp add: job_of_def)
  show ?thesis
  proof (cases "syncing (gw c) \<and> syncErr (gw c) = None \<and> \<not> syncedSeq (gw c) \<ge> j_seq j")
    case True
    then have "pcs (loop_round c t j) t = Waiting j" by (simp add: loop_round_def)
    then show ?thesis
      using waiter_returns [OF step_loop [OF inv at]] loop_reach [OF at] gc_reach_trans by blast
  next
    case False
    then consider "\<not> syncing (gw c)" | "returned (loop_round c t j) t j"
      by (auto simp: loop_round_def returned_def)
    then show ?thesis using at_loop_returns [OF inv at] loop_reach [OF at] by cases blast+
  qed
next
  case (Waiting j')
  then show ?thesis using waiter_returns [OF inv] j by (simp add: job_of_def)
next
  case (Syncing j' target snap)
  then have j': "j' = j" using j by (simp add: job_of_def)
  obtain c1 where c1: "gc_reach c c1" "gc_inv cs recs b s c1" "pcs c1 = (pcs c)(t := SyncDone j' target None)"
    using sync_reach [OF inv Syncing] by blast
  then show ?thesis using done_returns [OF c1(2), of t j target None] j' gc_reach_trans by auto
next
  case (SyncDone j' target serr)
  then show ?thesis using done_returns [OF inv] j by (simp add: job_of_def)
qed

end

end
