(* ===== verification/Wal_Properties.thy ===== *)
theory Wal_Properties
  imports Group_Commit
begin

text \<open>
  The properties of \<open>internal/wal\<close>: what a reader sees of a log, what \<open>Write\<close>, \<open>Commit\<close> and
  \<open>Close\<close> guarantee, what recovery does with the bytes a crash left, and what holds of every
  interleaving of concurrent writers and crashes. Each is proved for any checksum algorithm
  that meets the contract of theory \<open>Checksum\<close> and instantiated on CRC32C with concrete files.
\<close>

section \<open>Concrete logs\<close>

lemma crc32c_alg: "checksum_alg NewCRC32C"
  by (rule crc32c.checksum_alg_axioms)

lemma headerSize_crc32c [simp]: "headerSize NewCRC32C = 8"
  by (simp add: headerSize_def LengthSize_def NewCRC32C_def)

lemma readable_no_faults: "readable no_faults f"
  by (simp add: readable_def no_faults_def)

definition fresh_log :: "u32 \<Rightarrow> wal_writer" where
  "fresh_log nthI = gw (gc_init ''0.log'' ''0.index'' NewCRC32C nthI)"

lemmas fresh_log_simps = fresh_log_def gc_init_def fresh_writer_def

lemma fresh_log_inv: "wal_inv [] 0 0 (fresh_log nthI)"
  using crc32c.gc_init_inv [of "''0.log''" "''0.index''" nthI] by (simp add: gc_inv_def fresh_log_def)

definition demo_index :: mem_store where
  "demo_index = \<lparr>offsets = [], positions = [], index = Map.empty,
     indexFile = \<lparr>fname = ''0.index'', content = [], synced = []\<rparr>, seen = 0, nthIndex = NthIndex\<rparr>"

definition demo_recs :: "bytes list" where
  "demo_recs = [[104, 105], [], [1, 2, 3]]"

definition demo_log :: os_file where
  "demo_log = \<lparr>fname = ''0.log'', content = encode_log NewCRC32C demo_recs, synced = []\<rparr>"

lemma length_demo_log: "length (encode_log NewCRC32C demo_recs) = 29"
  by (simp add: demo_recs_def)

lemma demo_index_inv: "store_inv demo_index" "entries demo_index = []"
  by (simp_all add: demo_index_def store_inv_def entries_def)

lemma demo_log_image: "log_image NewCRC32C demo_recs demo_log demo_index"
  using length_demo_log demo_index_inv
  by (simp add: log_image_def demo_log_def max_file_size_def small_def demo_recs_def MaxRecordSize_def
      sound_entries_def)

section \<open>Reading\<close>

text \<open>Reading past the last record of a log gives \<open>io.EOF\<close>, wherever the index starts the scan.\<close>

lemma read_past_end:
  assumes "checksum_alg cs" "log_image cs recs f st" "readable flt f" "rcsum r = cs" "length recs \<le> unat t"
  shows "reader_ReadAt flt r f st t = Inl EOF"
  by (rule checksum_alg.reader_EOF [OF assms])

text \<open>C14: one changed payload byte of a stored record is never returned as data: \<open>ReadAt\<close> reports a
  corruption error with the byte position of the record, the stored and the recomputed checksum.\<close>

theorem read_detects_damage:
  assumes "byte_sensitive cs" "log_image cs (recs1 @ (xs @ b # ys) # recs2) f st" "b \<noteq> b'"
    and "readable flt f" "rcsum r = cs"
    and "len = PutUint32 (word_of_nat (length (xs @ b # ys)))"
    and "f' = f\<lparr>content := encode_log cs recs1 @ (len @ Compute cs [len, xs @ b # ys] @ (xs @ b' # ys)) @ encode_log cs recs2\<rparr>"
  shows "reader_ReadAt flt r f' st (of_nat (length recs1)) =
    Inl (CorruptionError (rec_pos cs recs1 (length recs1))
           (Compute cs [len, xs @ b # ys]) (Compute cs [len, xs @ b' # ys])
           (''checksum mismatch reading offset '' @ dec (length recs1)))"
  by (rule byte_sensitive.reader_detects_payload [OF assms])

theorem read_detects_damage_witness:
  "\<exists>sum. reader_ReadAt no_faults \<lparr>roffset = 0, rcsum = NewCRC32C\<rparr>
     (demo_log\<lparr>content := encode_log NewCRC32C [[104, 105], []] @
        (PutUint32 3 @ Compute NewCRC32C [PutUint32 3, [1] @ 2 # [3]] @ ([1] @ 66 # [3])) @ []\<rparr>)
     demo_index 2 =
   Inl (CorruptionError 18 (Compute NewCRC32C [PutUint32 3, [1, 2, 3]]) sum
          ''checksum mismatch reading offset 2'')"
proof -
  have img: "log_image NewCRC32C ([[104, 105], []] @ ([1] @ 2 # [3]) # []) demo_log demo_index"
    using demo_log_image by (simp add: demo_recs_def)
  have "rec_pos NewCRC32C [[104, 105], []] (Suc (Suc 0)) = 18"
    by (simp add: rec_pos_def)
  moreover have "dec (Suc (Suc 0)) = ''2''" by code_simp
  ultimately show ?thesis
    using read_detects_damage [of NewCRC32C "[[104, 105], []]" "[1]" 2 "[3]" "[]" demo_log demo_index 66 no_faults
        "\<lparr>roffset = 0, rcsum = NewCRC32C\<rparr>", OF crc32c.byte_sensitive_axioms img _ readable_no_faults _ refl refl]
    by (simp add: demo_log_def)
qed

section \<open>Writing\<close>

text \<open>C10: with no fault, \<open>Write\<close> returns the next offset, the record is durable when it does, and
  from then on every offset of the log reads back the payload written there.\<close>

theorem write_then_read:
  assumes "checksum_alg cs" "wal_inv recs b s w" "wcsum w = cs" "\<not> syncing w" "syncErr w = None"
    and "length data \<le> MaxRecordSize" "length (encode_log cs (recs @ [data])) \<le> max_file_size"
    and "flt (SysWrite (fname (wfile w))) = None" "flt (SysSync (fname (wfile w))) = None"
  shows "\<exists>w'. Write flt w data = Some (w', Inr (of_nat (length recs)))
    \<and> prefix (encode_log cs (recs @ [data])) (synced (wfile w'))
    \<and> (\<forall>flt' r j. readable flt' (wfile w') \<longrightarrow> rcsum r = cs \<longrightarrow> j < length (recs @ [data]) \<longrightarrow>
          reader_ReadAt flt' r (wfile w') (wstore w') (of_nat j) = Inr ((recs @ [data]) ! j))"
proof -
  obtain w' t where w': "Write flt w data = Some (w', Inr (of_nat (length recs)))" "wal_inv (recs @ [data]) b t w'"
    "durable cs (recs @ [data]) (wfile w')" "wcsum w' = cs"
    using checksum_alg.Write_ok [OF assms] by blast
  have "log_image cs (recs @ [data]) (wfile w') (wstore w')" using wal_inv_image [OF w'(2)] w'(4) by simp
  then show ?thesis
    using w' checksum_alg.reader_hit [OF assms(1)] unfolding durable_def by blast
qed

theorem write_then_read_witness:
  "\<exists>w'. Write no_faults (fresh_log 10) [7] = Some (w', Inr 0)
    \<and> prefix (encode_record NewCRC32C [7]) (synced (wfile w'))
    \<and> reader_ReadAt no_faults \<lparr>roffset = 0, rcsum = NewCRC32C\<rparr> (wfile w') (wstore w') 0 = Inr [7]"
proof -
  have "wcsum (fresh_log 10) = NewCRC32C" "\<not> syncing (fresh_log 10)" "syncErr (fresh_log 10) = None"
    "length [7 :: byte] \<le> MaxRecordSize" "length (encode_log NewCRC32C ([] @ [[7]])) \<le> max_file_size"
    by (simp_all add: fresh_log_simps MaxRecordSize_def max_file_size_def)
  from write_then_read [of NewCRC32C "[]" 0 0 "fresh_log 10" "[7]" no_faults, OF crc32c_alg fresh_log_inv this]
  obtain w' where w': "Write no_faults (fresh_log 10) [7] = Some (w', Inr 0)"
    "prefix (encode_record NewCRC32C [7]) (synced (wfile w'))"
    and rd: "\<forall>flt' r j. readable flt' (wfile w') \<longrightarrow> rcsum r = NewCRC32C \<longrightarrow> j < length ([] @ [[7 :: byte]]) \<longrightarrow>
          reader_ReadAt flt' r (wfile w') (wstore w') (of_nat j) = Inr (([] @ [[7]]) ! j)"
    by (auto simp: no_faults_def)
  from rd [rule_format, of no_faults "\<lparr>roffset = 0, rcsum = NewCRC32C\<rparr>" 0] w' show ?thesis
    by (auto simp: readable_no_faults)
qed


definition fsync_broken :: faults where
  "fsync_broken c = (if c = SysSync ''0.log'' then Some (''input/output error'', 0) else None)"


text \<open>A payload over the 64 MB cap is refused with an error and the writer is left as it was.\<close>

lemma oversized_payload_refused:
  assumes "MaxRecordSize < length data"
  shows "\<exists>msg. Write flt w data = Some (w, Inl (Errorf msg))"
  using assms by (simp add: Write_def Reserve_def)

text \<open>C15: a clean shutdown loses nothing: after \<open>Close\<close> every record reserved so far is durable and no
  checkpoint is pending.\<close>

theorem close_makes_durable:
  assumes "checksum_alg cs" "wal_inv recs b s w" "wcsum w = cs" "syncErr w = None" "b < length recs"
    and "flt (SysSync (fname (wfile w))) = None" "flt (SysClose (fname (wfile w))) = None"
  shows "\<exists>w'. writer_Close flt w = (w', None) \<and> prefix (encode_log cs recs) (synced (wfile w')) \<and> pending w' = []"
proof -
  obtain w' where "writer_Close flt w = (w', None)" "wal_inv recs b (length recs - b) w'" "wcsum w' = cs"
    using checksum_alg.writer_Close_ok [OF assms(1-4,6,7)] by blast
  then show ?thesis using assms(5) by (auto simp: wal_inv_def durable_def)
qed

theorem close_makes_durable_witness:
  "\<exists>w w'. fst (Reserve no_faults (fresh_log 10) [7]) = w \<and> synced (wfile w) = [] \<and>
     writer_Close no_faults w = (w', None) \<and> prefix (encode_record NewCRC32C [7]) (synced (wfile w')) \<and> pending w' = []"
proof -
  obtain w where r: "Reserve no_faults (fresh_log 10) [7] = (w, Inr (of_nat (length []), of_nat (length [] - 0 + 1)))"
    by (rule crc32c.Reserve_succeeds [of "[]" 0 0 "fresh_log 10" "[7]" no_faults, OF fresh_log_inv])
      (simp_all add: fresh_log_simps no_faults_def MaxRecordSize_def max_file_size_def)
  note R = crc32c.Reserve_ok [OF fresh_log_inv _ r]
  have cs: "wcsum (fresh_log 10) = NewCRC32C" "syncErr (fresh_log 10) = None" "synced (wfile (fresh_log 10)) = []"
    by (simp_all add: fresh_log_simps)
  have "\<exists>w'. writer_Close no_faults w = (w', None) \<and> prefix (encode_log NewCRC32C ([] @ [[7]])) (synced (wfile w'))
      \<and> pending w' = []"
    by (rule close_makes_durable [OF crc32c_alg R(1)]) (simp_all add: cs R no_faults_def)
  then show ?thesis using r R(8) cs by auto
qed

section \<open>Recovery\<close>

text \<open>C12: recovery always returns, whatever bytes the log and the index hold and whatever system call
  fails, and never invents data: the log file it leaves is a prefix of the one it found.\<close>

theorem recovery_total:
  assumes "checksum_alg cs" "file_ok f"
  shows "\<exists>w e. recover flt (fresh_writer f cs st) = Some (w, e) \<and> prefix (content (wfile w)) (content f)
    \<and> (e = None \<longrightarrow> wsize w = int (length (content (wfile w))))"
  using checksum_alg.recover_returns [OF assms(1), of "fresh_writer f cs st" flt] assms(2)
  by (simp add: fresh_writer_def)

theorem recovery_total_witness:
  "\<exists>w e. recover no_faults (fresh_writer \<lparr>fname = ''0.log'', content = [9, 9, 9, 9, 9, 9, 9, 9, 9], synced = []\<rparr>
        NewCRC32C demo_index) = Some (w, e)
    \<and> prefix (content (wfile w)) [9, 9, 9, 9, 9, 9, 9, 9, 9]"
  using recovery_total [OF crc32c_alg, of "\<lparr>fname = ''0.log'', content = [9, 9, 9, 9, 9, 9, 9, 9, 9], synced = []\<rparr>"
      no_faults demo_index] by (auto simp: file_ok_def max_file_size_def)

text \<open>C11: a log that ends in a torn record (any proper prefix of one) is cut back to exactly its
  complete records, and the writer continues at the offset after the last of them. The index may be
  empty, complete or lag behind.\<close>

theorem recovery_keeps_complete_records:
  assumes "checksum_alg cs" "content f = encode_log cs recs @ torn" "torn_tail cs torn" "length (content f) < 2 ^ 62"
    and "file_ok f" "recoverable flt f" "small recs" "recoverable flt (indexFile st)"
    and "length (content (indexFile st)) \<le> max_file_size"
    and "es = keep None (decode_entries (length (content (indexFile st)) div 16) (content (indexFile st)))"
    and "n \<le> length recs" "sound_entries cs recs n es" "durable cs (take n recs) f"
  shows "\<exists>w. recover flt (fresh_writer f cs st) = Some (w, None) \<and> content (wfile w) = encode_log cs recs
    \<and> nextOffset w = of_nat (length recs) \<and> entries (wstore w) = es"
proof -
  obtain w where w: "recover flt (fresh_writer f cs st) = Some (w, None)" "wal_inv recs (length recs) 0 w"
    "wfile w = f\<lparr>content := encode_log cs recs, synced := take (length (encode_log cs recs)) (synced f)\<rparr>"
    using checksum_alg.recover_ok [OF assms] by blast
  have "entries (wstore w) = es"
  proof -
    obtain st' where "LoadCheckpoints flt st = (st', None)" using LoadCheckpoints_returns [OF assms(8,9)] by blast
    moreover from this have "wstore w = st'"
      using w(1) by (auto simp: recover_def fresh_writer_def split: sum.splits prod.splits option.splits)
    ultimately show ?thesis using LoadCheckpoints_entries assms(10) by simp
  qed
  then show ?thesis using w by (auto simp: wal_inv_def)
qed

theorem recovery_keeps_complete_records_witness:
  "\<exists>w. recover no_faults (fresh_writer (demo_log\<lparr>content := content demo_log @ [0, 0, 0, 5]\<rparr>) NewCRC32C demo_index)
       = Some (w, None)
    \<and> content (wfile w) = content demo_log \<and> nextOffset w = 3"
proof -
  let ?f = "demo_log\<lparr>content := content demo_log @ [0, 0, 0, 5]\<rparr>"
  have c: "content ?f = encode_log NewCRC32C demo_recs @ [0, 0, 0, 5]" by (simp add: demo_log_def)
  have "strict_prefix [0, 0, 0, 5] (encode_record NewCRC32C [1, 2, 3, 4, 5])"
    by (simp add: encode_record_def PutUint32_def strict_prefix_def)
  then have t: "torn_tail NewCRC32C [0, 0, 0, 5]"
    unfolding torn_tail_def by (intro disjI2 exI [of _ "[1, 2, 3, 4, 5]"]) (simp add: MaxRecordSize_def)
  have len: "length (content ?f) = 33" unfolding c by (simp add: length_demo_log)
  have rc: "recoverable no_faults f" for f by (simp add: recoverable_def readable_def no_faults_def)
  have "file_ok ?f" "length (content ?f) < 2 ^ 62" using len by (simp_all add: file_ok_def demo_log_def max_file_size_def)
  moreover have "small demo_recs" by (simp add: small_def demo_recs_def MaxRecordSize_def)
  ultimately show ?thesis
    using recovery_keeps_complete_records [of NewCRC32C ?f demo_recs "[0, 0, 0, 5]" no_faults demo_index "[]" 0,
        OF crc32c_alg c t _ _ rc _ rc]
    by (auto simp: demo_index_def demo_log_def demo_recs_def sound_entries_def durable_def max_file_size_def)
qed

section \<open>Concurrent writers and crashes\<close>

text \<open>C6: in every execution of concurrent writers, failing fsyncs and crashes, a record whose \<open>Write\<close>
  returned success reads back at its offset, now and after every later crash and restart.\<close>

theorem acked_always_readable:
  assumes "checksum_alg cs" "gc_reach (gc_init l i cs nthI) c" "(off, data) \<in> set (acked c)"
    and "readable flt (wfile (gw c))" "rcsum r = cs"
  shows "reader_ReadAt flt r (wfile (gw c)) (wstore (gw c)) off = Inr data"
  using checksum_alg.gc_reach_inv [OF assms(1,2) checksum_alg.gc_init_inv [OF assms(1)]]
    checksum_alg.gc_inv_acked_readable [OF assms(1) _ assms(3-5)] by blast

text \<open>C9: group commit elects at most one leader at a time, the \<open>syncing\<close> flag is up exactly while there
  is one, and no goroutine waits on the condition variable without a leader that will broadcast.\<close>

theorem commit_coordination:
  assumes "checksum_alg cs" "gc_reach (gc_init l i cs nthI) c"
  shows "(\<forall>t u. leader (pcs c t) \<longrightarrow> leader (pcs c u) \<longrightarrow> t = u) \<and> (syncing (gw c) \<longleftrightarrow> (\<exists>t. leader (pcs c t)))
    \<and> (\<forall>t. waits (pcs c t) \<longrightarrow> (\<exists>u. u \<noteq> t \<and> leader (pcs c u)))"
proof -
  obtain recs b s where "gc_inv cs recs b s c"
    using checksum_alg.gc_reach_inv [OF assms checksum_alg.gc_init_inv [OF assms(1)]] by blast
  then have el: "elected (syncing (gw c)) (pcs c)" by (simp add: gc_inv_def)
  have "u \<noteq> t" if "waits (pcs c t)" "leader (pcs c u)" for t u
    using that by (auto simp: waits_def leader_def split: pc.splits)
  moreover have "\<exists>u. leader (pcs c u)" if "waits (pcs c t)" for t using that el by (auto simp: elected_def)
  moreover have "syncing (gw c) \<longleftrightarrow> (\<exists>t. leader (pcs c t))" using el by (auto simp: elected_def)
  moreover have "\<forall>t u. leader (pcs c t) \<longrightarrow> leader (pcs c u) \<longrightarrow> t = u" using el by (simp add: elected_def)
  ultimately show ?thesis by blast
qed


text \<open>C8: write-ahead ordering: every checkpoint in the index names a record of the log by its offset and
  byte position, and that record is durable.\<close>

theorem index_never_ahead:
  assumes "checksum_alg cs" "gc_reach (gc_init l i cs nthI) c"
  shows "\<exists>recs. content (wfile (gw c)) = encode_log cs recs \<and>
    (\<forall>e \<in> set (entries (wstore (gw c))). \<exists>k < length recs. e = (of_nat k, rec_pos cs recs k)
       \<and> prefix (encode_log cs (take (Suc k) recs)) (synced (wfile (gw c))))"
proof -
  obtain recs b s where inv: "gc_inv cs recs b s c"
    using checksum_alg.gc_reach_inv [OF assms checksum_alg.gc_init_inv [OF assms(1)]] by blast
  then have "content (wfile (gw c)) = encode_log cs recs" and "b + s \<le> length recs"
    and "index_lags cs recs (b + s) (wfile (gw c)) (wstore (gw c))"
    by (auto simp: gc_inv_def wal_inv_def)
  then obtain n where n: "n \<le> length recs" "sound_entries cs recs n (entries (wstore (gw c)))"
    "durable cs (take n recs) (wfile (gw c))" unfolding index_lags_def by (meson order.trans)
  have "prefix (encode_log cs (take (Suc k) recs)) (synced (wfile (gw c)))" if "k < n" for k
  proof -
    have "take n recs = take (Suc k) recs @ drop (Suc k) (take n recs)"
      using that by (metis append_take_drop_id min.absorb1 Suc_leI take_take)
    then have "prefix (encode_log cs (take (Suc k) recs)) (encode_log cs (take n recs))"
      by (metis encode_log_simps(3) prefixI)
    then show ?thesis using n(3) prefix_order.trans by (auto simp: durable_def)
  qed
  moreover have "\<exists>k < n. e = (of_nat k, rec_pos cs recs k)" if "e \<in> set (entries (wstore (gw c)))" for e
    using n(2) that unfolding sound_entries_def by blast
  ultimately have "\<exists>k < length recs. e = (of_nat k, rec_pos cs recs k)
       \<and> prefix (encode_log cs (take (Suc k) recs)) (synced (wfile (gw c)))" if "e \<in> set (entries (wstore (gw c)))" for e
    using that n(1) less_le_trans by blast
  then show ?thesis using \<open>content (wfile (gw c)) = encode_log cs recs\<close> by blast
qed

subsection \<open>A concrete run\<close>

text \<open>One goroutine writes one record: it reserves, leads, syncs, finishes and returns.\<close>

definition demo0 :: gc where "demo0 = gc_init ''0.log'' ''0.index'' NewCRC32C 1"
definition demo_job :: job where "demo_job = \<lparr>j_offset = 0, j_seq = 1, j_data = [7]\<rparr>"
definition demo1 :: gc where
  "demo1 = demo0\<lparr>gw := fst (Reserve no_faults (gw demo0) [7]), pcs := (pcs demo0)(0 := AtLoop demo_job)\<rparr>"
definition demo2 :: gc where "demo2 = loop_round demo1 0 demo_job"
definition demo3 :: gc where
  "demo3 = demo2\<lparr>gw := (gw demo2)\<lparr>wfile := (wfile (gw demo2))\<lparr>synced := content (wfile (gw demo2))\<rparr>\<rparr>,
     pcs := (pcs demo2)(0 := SyncDone demo_job 1 None)\<rparr>"
definition demo4 :: gc where "demo4 = finish_round no_faults demo3 0 demo_job 1 None"
definition demo5 :: gc where "demo5 = loop_round demo4 0 demo_job"

lemma demo1_gw: "Reserve no_faults (gw demo0) [7] = (gw demo1, Inr (0, 1))"
proof -
  have "length (encode_record NewCRC32C [7]) \<le> max_file_size" by (simp add: max_file_size_def)
  then show ?thesis
    by (simp add: demo1_def demo0_def gc_init_def fresh_writer_def Reserve_def file_Write_def no_faults_def
        MaxRecordSize_def Let_def)
qed

lemma demo1_fields: "syncErr (gw demo1) = None" "syncedSeq (gw demo1) = 0" "writeSeq (gw demo1) = 1"
  "\<not> syncing (gw demo1)" "synced (wfile (gw demo1)) = []" "pcs demo1 0 = AtLoop demo_job" "acked demo1 = []"
proof -
  have "length (encode_record NewCRC32C [7]) \<le> max_file_size" by (simp add: max_file_size_def)
  then show "syncErr (gw demo1) = None" "syncedSeq (gw demo1) = 0" "writeSeq (gw demo1) = 1"
    "\<not> syncing (gw demo1)" "synced (wfile (gw demo1)) = []" "pcs demo1 0 = AtLoop demo_job" "acked demo1 = []"
    by (simp_all add: demo1_def demo0_def gc_init_def fresh_writer_def Reserve_def file_Write_def no_faults_def
        MaxRecordSize_def Let_def)
qed

lemma demo2_eq: "demo2 = demo1\<lparr>gw := (gw demo1)\<lparr>syncing := True\<rparr>,
    pcs := (pcs demo1)(0 := Syncing demo_job 1 (content (wfile (gw demo1))))\<rparr>"
  using demo1_fields by (simp add: demo2_def loop_round_def lead_begin_def demo_job_def)

lemma demo2_pcs: "pcs demo2 0 = Syncing demo_job 1 (content (wfile (gw demo2)))" "synced (wfile (gw demo2)) = []"
  using demo1_fields by (simp_all add: demo2_eq)

lemma demo4_fields: "syncErr (gw demo4) = None" "syncedSeq (gw demo4) = 1" "pcs demo4 0 = AtLoop demo_job" "acked demo4 = []"
  using demo1_fields by (simp_all add: demo4_def demo3_def demo2_eq finish_round_def lead_finish_def Let_def split: prod.splits)

lemma demo5_acked: "acked demo5 = [(0, [7])]"
  using demo4_fields by (simp add: demo5_def loop_round_def demo_job_def)

lemma demo_steps: "gc_step no_faults demo0 demo1" "gc_step no_faults demo1 demo2" "gc_step no_faults demo2 demo3"
  "gc_step no_faults demo3 demo4" "gc_step no_faults demo4 demo5"
proof -
  have idle: "pcs demo0 0 = Idle" by (simp add: demo0_def gc_init_def)
  have "demo0\<lparr>gw := gw demo1, pcs := (pcs demo0)(0 := AtLoop \<lparr>j_offset = 0, j_seq = 1, j_data = [7]\<rparr>)\<rparr> = demo1"
    by (simp add: demo1_def demo_job_def)
  then show "gc_step no_faults demo0 demo1" using gc_step.reserve [OF idle demo1_gw] by simp
  show "gc_step no_faults demo1 demo2" unfolding demo2_def by (rule gc_step.loop [OF demo1_fields(6)])
  have "prefix (synced (wfile (gw demo2))) (content (wfile (gw demo2)))" by (simp add: demo2_pcs(2))
  from gc_step.fsync [OF demo2_pcs(1) prefix_order.refl this prefix_order.refl]
  show "gc_step no_faults demo2 demo3" unfolding demo3_def .
  show "gc_step no_faults demo3 demo4" unfolding demo4_def by (rule gc_step.finish) (simp add: demo3_def)
  show "gc_step no_faults demo4 demo5" unfolding demo5_def by (rule gc_step.loop [OF demo4_fields(3)])
qed

lemma demo_reach: "gc_reach demo0 demo1" "gc_reach demo0 demo5"
proof -
  show r1: "gc_reach demo0 demo1" by (rule gc_reach_step [OF demo_steps(1)])
  have "gc_reach demo3 demo5"
    by (rule gc_reach_trans [OF gc_reach_step [OF demo_steps(5)] gc_reach_step [OF demo_steps(4)]])
  moreover have "gc_reach demo1 demo3"
    by (rule gc_reach_trans [OF gc_reach_step [OF demo_steps(3)] gc_reach_step [OF demo_steps(2)]])
  ultimately show "gc_reach demo0 demo5" by (meson gc_reach_trans r1)
qed

theorem acked_always_readable_witness:
  "gc_reach demo0 demo5 \<and> (0, [7]) \<in> set (acked demo5)
    \<and> reader_ReadAt no_faults \<lparr>roffset = 0, rcsum = NewCRC32C\<rparr> (wfile (gw demo5)) (wstore (gw demo5)) 0 = Inr [7]"
  using acked_always_readable [OF crc32c_alg demo_reach(2) [unfolded demo0_def], of 0 "[7]" no_faults
      "\<lparr>roffset = 0, rcsum = NewCRC32C\<rparr>"] demo_reach(2) demo5_acked readable_no_faults by simp

lemma demo_reach2: "gc_reach demo0 demo2"
  by (rule gc_reach_trans [OF gc_reach_step [OF demo_steps(2)] demo_reach(1)])

theorem commit_coordination_witness:
  "gc_reach demo0 demo2 \<and> leader (pcs demo2 0) \<and> syncing (gw demo2) \<and> \<not> leader (pcs demo2 1)"
proof -
  have "leader (pcs demo2 0)" by (simp add: demo2_pcs(1) leader_def)
  then show ?thesis
    using commit_coordination [OF crc32c_alg demo_reach2 [unfolded demo0_def]] demo_reach2
    by (metis zero_neq_one)
qed


lemma demo5_entries: "(0, 0) \<in> set (entries (wstore (gw demo5)))"
proof -
  have "16 \<le> max_file_size" "length (encode_record NewCRC32C [7]) \<le> max_file_size"
    by (simp_all add: max_file_size_def)
  then have "entries (wstore (gw demo4)) = [(0, 0)]"
    by (simp add: demo4_def demo3_def demo2_eq demo1_def demo0_def gc_init_def fresh_writer_def Reserve_def
        file_Write_def no_faults_def MaxRecordSize_def Let_def finish_round_def lead_finish_def Checkpoint_def
        add_checkpoint_def entries_def)
  then show ?thesis using demo4_fields by (simp add: demo5_def loop_round_def demo_job_def)
qed

theorem index_never_ahead_witness:
  "(0, 0) \<in> set (entries (wstore (gw demo5))) \<and> (\<exists>recs k. content (wfile (gw demo5)) = encode_log NewCRC32C recs
    \<and> k < length recs \<and> (0 :: u64, 0) = (of_nat k, rec_pos NewCRC32C recs k)
    \<and> prefix (encode_log NewCRC32C (take (Suc k) recs)) (synced (wfile (gw demo5))))"
  using index_never_ahead [OF crc32c_alg demo_reach(2) [unfolded demo0_def]] demo5_entries by blast

end
