(* ===== verification/Wal_Faults.thy ===== *)
theory Wal_Faults
  imports Wal_Properties
begin

text \<open>
  What goes wrong when an append fails half-way. The theorems of \<open>Group_Commit\<close> assume that a
  failing write leaves nothing behind. The two runs below show that the assumption is needed:
  the code neither cuts a torn record off the log nor a torn entry off the index, and in both
  cases records that were acknowledged later, or earlier, are lost.
\<close>

section \<open>A torn record in the log\<close>

text \<open>The disk is full: a write to the named file stores \<open>k\<close> bytes and fails.\<close>

definition no_space :: "string \<Rightarrow> nat \<Rightarrow> faults" where
  "no_space name k = (\<lambda>c. if c = SysWrite name then Some (''no space left on device'', k) else None)"

definition after_partial :: wal_writer where
  "after_partial = fst (Reserve (no_space ''0.log'' 1) (fresh_log 10) [65])"

lemma max_file_size_big: "100 \<le> max_file_size" by (simp add: max_file_size_def)

lemma after_partial_eq: "after_partial = (fresh_log 10)\<lparr>wfile := \<lparr>fname = ''0.log'', content = [0], synced = []\<rparr>\<rparr>"
  by (simp add: after_partial_def fresh_log_def gc_init_def fresh_writer_def Reserve_def file_Write_def
      no_space_def MaxRecordSize_def Let_def encode_record_def PutUint32_def)

definition rec7 :: bytes where "rec7 = encode_record NewCRC32C [7]"

lemma rec7: "rec7 = [0, 0, 0, 1] @ Compute NewCRC32C [[0, 0, 0, 1], [7]] @ [7]" "length rec7 = 9"
  by (simp_all add: rec7_def) (simp add: encode_record_def PutUint32_def)

definition acked_partial :: wal_writer where
  "acked_partial = (fresh_log 10)\<lparr>wfile := \<lparr>fname = ''0.log'', content = [0] @ rec7, synced = [0] @ rec7\<rparr>,
     wsize := 9, nextOffset := 1, writeSeq := 1, syncedSeq := 1, wstore := (wstore (fresh_log 10))\<lparr>seen := 1\<rparr>\<rparr>"

lemma write_after_partial: "Write no_faults after_partial [7] = Some (acked_partial, Inr 0)"
proof -
  let ?w1 = "after_partial\<lparr>wfile := \<lparr>fname = ''0.log'', content = [0] @ rec7, synced = []\<rparr>, wsize := 9,
    nextOffset := 1, writeSeq := 1, pending := [\<lparr>pc_seq = 1, pc_offset = 0, pc_pos = 0\<rparr>]\<rparr>"
  have "Reserve no_faults after_partial [7] = (?w1, Inr (0, 1))"
    using rec7(2) max_file_size_big
    by (simp add: after_partial_eq fresh_log_def gc_init_def fresh_writer_def Reserve_def file_Write_def
        no_faults_def MaxRecordSize_def Let_def rec7_def [symmetric] int64_id)
  moreover have "commitLocked no_faults 1 ?w1 = commitLocked no_faults 1 acked_partial"
    by (subst commitLocked.simps)
      (simp add: after_partial_eq acked_partial_def fresh_log_def gc_init_def fresh_writer_def lead_begin_def
        file_Sync_def no_faults_def lead_finish_def Let_def Checkpoint_def)
  moreover have "commitLocked no_faults 1 acked_partial = Some (acked_partial, None)"
    by (subst commitLocked.simps) (simp add: acked_partial_def fresh_log_def gc_init_def fresh_writer_def)
  ultimately show ?thesis by (simp add: Write_def Commit_def)
qed

text \<open>C20: an append that fails after writing one byte leaves that byte in the log and \<open>w.size\<close> unchanged.
  The next \<open>Write\<close> is acknowledged with offset 0, but reading offset 0 does not return its payload.\<close>

theorem partial_append_loses_acked:
  "\<exists>e. Reserve (no_space ''0.log'' 1) (fresh_log 10) [65] = (after_partial, Inl e)
    \<and> Write no_faults after_partial [7] = Some (acked_partial, Inr 0)
    \<and> reader_ReadAt no_faults \<lparr>roffset = 0, rcsum = NewCRC32C\<rparr> (wfile acked_partial) (wstore acked_partial) 0 \<noteq> Inr [7]"
proof -
  have "\<exists>e. Reserve (no_space ''0.log'' 1) (fresh_log 10) [65] = (after_partial, Inl e)"
    by (simp add: after_partial_def fresh_log_def gc_init_def fresh_writer_def Reserve_def file_Write_def
      no_space_def MaxRecordSize_def Let_def)
  moreover have "reader_ReadAt no_faults \<lparr>roffset = 0, rcsum = NewCRC32C\<rparr> (wfile acked_partial) (wstore acked_partial) 0 \<noteq> Inr [7]"
  proof -
    let ?f = "\<lparr>fname = ''0.log'', content = [0] @ rec7, synced = [0] @ rec7\<rparr>"
    let ?header = "take 8 ([0] @ rec7)"
    have hd: "file_ReadAt no_faults ?f 0 8 = Inr ?header"
      using rec7(2) max_file_size_big by (simp add: file_ReadAt_def no_faults_def)
    have len: "Uint32 (take 4 ?header) = 0" by (simp add: rec7(1) numeral_eq_Suc)
    have "read_scan no_faults NewCRC32C ?f 0 0 0 \<noteq> Inr [7]"
      using hd len by (subst read_scan.simps) (simp add: Let_def LengthSize_def file_ReadAt_def int64_id)
    moreover have "Floor (wstore acked_partial) 0 = None"
      by (simp add: Floor_def acked_partial_def fresh_log_def gc_init_def fresh_writer_def sort_Search_def
          search_loop.simps)
    ultimately show ?thesis by (simp add: reader_ReadAt_def acked_partial_def)
  qed
  ultimately show ?thesis using write_after_partial by blast
qed


section \<open>A torn entry in the index\<close>

definition rec8 :: bytes where "rec8 = encode_record NewCRC32C [8]"

lemma length_rec8: "length rec8 = 9" by (simp add: rec8_def)

definition torn_index1 :: mem_store where
  "torn_index1 = (wstore (fresh_log 1))\<lparr>indexFile := \<lparr>fname = ''0.index'', content = replicate 8 0, synced = []\<rparr>\<rparr>"

definition torn_index2 :: mem_store where
  "torn_index2 = (wstore (fresh_log 1))\<lparr>offsets := [1], positions := [9], index := [1 \<mapsto> 9],
     indexFile := \<lparr>fname = ''0.index'', content = replicate 8 0 @ index_entry 1 9, synced = []\<rparr>\<rparr>"

definition acked_torn1 :: wal_writer where
  "acked_torn1 = (fresh_log 1)\<lparr>wfile := \<lparr>fname = ''0.log'', content = rec7, synced = rec7\<rparr>,
     wsize := 9, nextOffset := 1, writeSeq := 1, syncedSeq := 1, wstore := torn_index1\<rparr>"

definition acked_torn2 :: wal_writer where
  "acked_torn2 = (fresh_log 1)\<lparr>wfile := \<lparr>fname = ''0.log'', content = rec7 @ rec8, synced = rec7 @ rec8\<rparr>,
     wsize := 18, nextOffset := 2, writeSeq := 2, syncedSeq := 2, wstore := torn_index2\<rparr>"

lemma index_entry_0: "take 8 (index_entry 0 0) = replicate 8 0"
  by (simp add: index_entry_def PutUint64_def numeral_eq_Suc)

lemma write_torn1: "Write (no_space ''0.index'' 8) (fresh_log 1) [7] = Some (acked_torn1, Inr 0)"
proof -
  let ?flt = "no_space ''0.index'' 8"
  let ?w1 = "(fresh_log 1)\<lparr>wfile := \<lparr>fname = ''0.log'', content = rec7, synced = []\<rparr>, wsize := 9,
    nextOffset := 1, writeSeq := 1, pending := [\<lparr>pc_seq = 1, pc_offset = 0, pc_pos = 0\<rparr>]\<rparr>"
  have "Reserve ?flt (fresh_log 1) [7] = (?w1, Inr (0, 1))"
    using rec7(2) max_file_size_big
    by (simp add: fresh_log_simps Reserve_def file_Write_def
        no_space_def MaxRecordSize_def Let_def rec7_def [symmetric] int64_id)
  moreover have "commitLocked ?flt 1 ?w1 = commitLocked ?flt 1 acked_torn1"
    by (subst commitLocked.simps)
      (simp add: acked_torn1_def torn_index1_def fresh_log_simps lead_begin_def file_Write_def
        file_Sync_def no_space_def lead_finish_def Let_def Checkpoint_def index_entry_0)
  moreover have "commitLocked ?flt 1 acked_torn1 = Some (acked_torn1, None)"
    by (subst commitLocked.simps) (simp add: acked_torn1_def fresh_log_simps)
  ultimately show ?thesis by (simp add: Write_def Commit_def)
qed

lemma write_torn2: "Write no_faults acked_torn1 [8] = Some (acked_torn2, Inr 1)"
proof -
  let ?w1 = "acked_torn1\<lparr>wfile := \<lparr>fname = ''0.log'', content = rec7 @ rec8, synced = rec7\<rparr>, wsize := 18,
    nextOffset := 2, writeSeq := 2, pending := [\<lparr>pc_seq = 2, pc_offset = 1, pc_pos = 9\<rparr>]\<rparr>"
  have "Reserve no_faults acked_torn1 [8] = (?w1, Inr (1, 2))"
    using rec7(2) length_rec8 max_file_size_big
    by (simp add: acked_torn1_def fresh_log_simps Reserve_def file_Write_def
        no_faults_def MaxRecordSize_def Let_def rec8_def [symmetric] int64_id)
  moreover have "\<not> (2 :: u64) \<le> 1" by (simp add: word_le_nat_alt)
  then have "commitLocked no_faults 2 ?w1 = commitLocked no_faults 2 acked_torn2"
    using max_file_size_big
    by (subst commitLocked.simps)
      (simp add: acked_torn1_def acked_torn2_def torn_index1_def torn_index2_def fresh_log_simps lead_begin_def
        file_Write_def file_Sync_def no_faults_def lead_finish_def Let_def Checkpoint_def add_checkpoint_def)
  moreover have "commitLocked no_faults 2 acked_torn2 = Some (acked_torn2, None)"
    by (subst commitLocked.simps) (simp add: acked_torn2_def fresh_log_simps)
  ultimately show ?thesis by (simp add: Write_def Commit_def)
qed

lemma misread_length: "256 \<le> unat (Uint32 [0, 0, 1, c])" "unat (Uint32 [0, 0, 1, c]) < 512"
proof -
  have "drop_bit 8 (Uint32 [0, 0, 1, c]) = 1"
    by (rule bit_word_eqI) (auto simp: bit_simps)
  then have "drop_bit 8 (unat (Uint32 [0, 0, 1, c])) = 1"
    using unat_drop_bit_eq [of 8 "Uint32 [0, 0, 1, c]"] by simp
  then have "unat (Uint32 [0, 0, 1, c]) div 256 = 1" by (simp add: drop_bit_eq_div)
  then show "256 \<le> unat (Uint32 [0, 0, 1, c])" "unat (Uint32 [0, 0, 1, c]) < 512" by auto
qed


definition reopened_index :: mem_store where
  "reopened_index = \<lparr>offsets = [0], positions = [1], index = [0 \<mapsto> 1],
     indexFile = \<lparr>fname = ''0.index'', content = replicate 8 0 @ PutUint64 1, synced = []\<rparr>, seen = 0, nthIndex = 1\<rparr>"

definition empty_index :: "os_file \<Rightarrow> u32 \<Rightarrow> mem_store" where
  "empty_index f nthI = \<lparr>offsets = [], positions = [], index = Map.empty, indexFile = f, seen = 0, nthIndex = nthI\<rparr>"

lemma reload_torn: "LoadCheckpoints no_faults (empty_index (indexFile torn_index2) 1) = (reopened_index, None)"
proof -
  have "Uint64 (replicate 8 0 @ xs) = 0" for xs by (simp add: numeral_eq_Suc)
  then show ?thesis
    using max_file_size_big
    by (simp add: LoadCheckpoints_def torn_index2_def empty_index_def reopened_index_def no_faults_def file_Stat_Size_def
        load_entries_def heal_index_def file_ReadAt_def file_Truncate_def Let_def indexEntryBytes_def
        add_checkpoint_def index_entry_def)
qed

text \<open>C21: an index write that fails after 8 of its 16 bytes shifts the entries after it. Both writes are
  acknowledged and durable, yet reopening the untouched files reads a checkpoint that sends recovery
  into the middle of the first record, where it truncates the log: every record is gone.\<close>

theorem partial_checkpoint_loses_log:
  "Write (no_space ''0.index'' 8) (fresh_log 1) [7] = Some (acked_torn1, Inr 0)
    \<and> Write no_faults acked_torn1 [8] = Some (acked_torn2, Inr 1)
    \<and> (\<exists>st w. NewInMemoryStore no_faults (indexFile (wstore acked_torn2)) False 1 = Inr st
         \<and> NewWalWriter no_faults (wfile acked_torn2) False st NewCRC32C = Some (Inr w)
         \<and> nextOffset w = 0 \<and> content (wfile w) = [0])"
proof -
  let ?st = "empty_index (indexFile torn_index2) 1"
  let ?f = "wfile acked_torn2"
  obtain c ys where c: "rec7 = [0, 0, 0, 1] @ c # ys" "length ys = 4"
  proof -
    have "length (Compute NewCRC32C [[0, 0, 0, 1], [7]]) = 4" using crc32c.Compute_size by (simp add: NewCRC32C_def)
    then show thesis using that rec7(1) by (cases "Compute NewCRC32C [[0, 0, 0, 1], [7]]") auto
  qed
  have fc: "content ?f = rec7 @ rec8" "fname ?f = ''0.log''" by (simp_all add: acked_torn2_def)
  have start: "recover_start NewCRC32C reopened_index 18 = (0, 1)"
    by (simp add: recover_start_def Floor_def reopened_index_def sort_Search_def search_loop.simps int64_id Let_def)
  have rd: "file_ReadAt no_faults ?f 1 LengthSize = Inr [0, 0, 1, c]"
  proof -
    have "take 4 (drop (Suc 0) rec7) = [0, 0, 1, c]" unfolding c(1) by simp
    then show ?thesis
      using rec7(2) length_rec8 max_file_size_big by (simp add: file_ReadAt_def no_faults_def fc LengthSize_def)
  qed
  have scan: "recover_scan no_faults NewCRC32C ?f 18 0 1 =
      Some (Inr (?f\<lparr>content := [0], synced := [0]\<rparr>, 0, 1))"
  proof -
    have "take 1 rec7 = [0]" unfolding c(1) by simp
    then have tr: "truncate_torn no_faults ''payload'' ?f 0 1 = Inr (?f\<lparr>content := [0], synced := [0]\<rparr>, 0, 1)"
      using rec7(2) by (simp add: truncate_torn_def file_Truncate_def no_faults_def acked_torn2_def)
    obtain n where n: "unat (Uint32 [0, 0, 1, c]) = n" "256 \<le> n" "n < 512" using misread_length [of c] by blast
    have "int64 (9 + int n) = 9 + int n" "int64 (1 + int (headerSize NewCRC32C)) = 9"
      using n(2,3) by (auto simp: int64_id)
    moreover have "\<not> n > MaxRecordSize" using n(3) by (simp add: MaxRecordSize_def)
    ultimately show ?thesis
      using rd tr n by (subst recover_scan.simps) (simp add: Let_def del: Uint32.simps)
  qed
  have "NewInMemoryStore no_faults (indexFile (wstore acked_torn2)) False 1 = Inr ?st"
    by (simp add: NewInMemoryStore_def no_faults_def empty_index_def acked_torn2_def)
  moreover have "recover no_faults (fresh_writer ?f NewCRC32C ?st) =
      Some ((fresh_writer ?f NewCRC32C ?st)\<lparr>wstore := reopened_index, wfile := ?f\<lparr>content := [0], synced := [0]\<rparr>,
        nextOffset := 0, wsize := 1\<rparr>, None)"
    using reload_torn start scan rec7(2) length_rec8
    by (simp add: recover_def fresh_writer_def file_Stat_Size_def fc no_faults_def [abs_def])
  ultimately show ?thesis 
    using write_torn1 write_torn2 NewWalWriter_recover [of no_faults ?f NewCRC32C ?st _ False]
    by (auto simp: openable_def recoverable_def readable_def no_faults_def)
qed

end
