(* ===== verification/Protocol.thy ===== *)
theory Protocol
  imports Prelude
begin

text \<open>
  The wire format of \<open>internal/protocol\<close>: requests and responses framed as a tag byte, a
  4-byte length and a payload, written to and read from the two directions of a connection.

  The lemmas give the exact bytes a writer sends, the round trip through a reader with
  whatever follows in the stream left untouched, and the reaction to every kind of short or
  oversized input.
\<close>

section \<open>Connections\<close>

text \<open>
  One end of a connection: the bytes that will still arrive before the peer closes, the bytes
  sent so far, and how many more bytes can be sent before a write fails (no limit: \<open>None\<close>).
\<close>

record conn =
  inbox :: bytes
  sent :: bytes
  budget :: "nat option"

text \<open>\<open>io.ReadFull\<close>: all \<open>n\<close> bytes, or the error that says how the stream ended.\<close>

definition ReadFull :: "conn \<Rightarrow> nat \<Rightarrow> conn \<times> (goerror + bytes)" where
  "ReadFull c n =
     (if n \<le> length (inbox c) then (c\<lparr>inbox := drop n (inbox c)\<rparr>, Inr (take n (inbox c)))
      else (c\<lparr>inbox := []\<rparr>, Inl (if inbox c = [] then EOF else UnexpectedEOF)))"

text \<open>\<open>net.Conn.Write\<close>: everything, or what fits before the connection breaks.\<close>

definition conn_Write :: "conn \<Rightarrow> bytes \<Rightarrow> conn \<times> goerror option" where
  "conn_Write c buf =
     (case budget c of
        None \<Rightarrow> (c\<lparr>sent := sent c @ buf\<rparr>, None)
      | Some k \<Rightarrow>
          if length buf \<le> k then (c\<lparr>sent := sent c @ buf, budget := Some (k - length buf)\<rparr>, None)
          else (c\<lparr>sent := sent c @ take k buf, budget := Some 0\<rparr>, Some (OsError ''broken pipe'')))"

section \<open>Frames\<close>

definition OpProduce :: byte where "OpProduce = 1"
definition OpRead :: byte where "OpRead = 2"
definition OpNextOffset :: byte where "OpNextOffset = 3"
definition OpEarliestOffset :: byte where "OpEarliestOffset = 4"
definition OpStreamRead :: byte where "OpStreamRead = 5"
definition StatusOK :: byte where "StatusOK = 0"
definition StatusError :: byte where "StatusError = 1"
definition StatusStreamEnd :: byte where "StatusStreamEnd = 2"
definition MaxPayloadSize :: nat where "MaxPayloadSize = 64 * 1024 * 1024"

record Request =
  Op :: byte
  ReqPayload :: bytes

record Response =
  Status :: byte
  RespPayload :: bytes

text \<open>Both directions share the frame layout; only the texts of the errors differ.\<close>

definition WriteRequest :: "conn \<Rightarrow> Request \<Rightarrow> conn \<times> goerror option" where
  "WriteRequest w req =
     (let header = Op req # PutUint32 (word_of_nat (length (ReqPayload req))) in
      case conn_Write w header of
        (w1, Some e) \<Rightarrow> (w1, Some (Wrap ''write request header'' e))
      | (w1, None) \<Rightarrow>
          if length (ReqPayload req) > 0 then
            (case conn_Write w1 (ReqPayload req) of
               (w2, Some e) \<Rightarrow> (w2, Some (Wrap ''write request payload'' e))
             | (w2, None) \<Rightarrow> (w2, None))
          else (w1, None))"

definition ReadRequest :: "conn \<Rightarrow> conn \<times> (goerror + Request)" where
  "ReadRequest r =
     (case ReadFull r 5 of
        (r1, Inl e) \<Rightarrow> (r1, Inl e)
      | (r1, Inr header) \<Rightarrow>
          (let len = unat (Uint32 (drop 1 header)) in
           if len > MaxPayloadSize then (r1, Inl (Errorf (''request payload too large: '' @ dec len)))
           else if len > 0 then
             (case ReadFull r1 len of
                (r2, Inl e) \<Rightarrow> (r2, Inl (Wrap ''read request payload'' e))
              | (r2, Inr payload) \<Rightarrow> (r2, Inr \<lparr>Op = header ! 0, ReqPayload = payload\<rparr>))
           else (r1, Inr \<lparr>Op = header ! 0, ReqPayload = []\<rparr>)))"

definition WriteResponse :: "conn \<Rightarrow> Response \<Rightarrow> conn \<times> goerror option" where
  "WriteResponse w resp =
     (let header = Status resp # PutUint32 (word_of_nat (length (RespPayload resp))) in
      case conn_Write w header of
        (w1, Some e) \<Rightarrow> (w1, Some (Wrap ''write response header'' e))
      | (w1, None) \<Rightarrow>
          if length (RespPayload resp) > 0 then
            (case conn_Write w1 (RespPayload resp) of
               (w2, Some e) \<Rightarrow> (w2, Some (Wrap ''write response payload'' e))
             | (w2, None) \<Rightarrow> (w2, None))
          else (w1, None))"

definition ReadResponse :: "conn \<Rightarrow> conn \<times> (goerror + Response)" where
  "ReadResponse r =
     (case ReadFull r 5 of
        (r1, Inl e) \<Rightarrow> (r1, Inl e)
      | (r1, Inr header) \<Rightarrow>
          (let len = unat (Uint32 (drop 1 header)) in
           if len > MaxPayloadSize then (r1, Inl (Errorf (''response payload too large: '' @ dec len)))
           else if len > 0 then
             (case ReadFull r1 len of
                (r2, Inl e) \<Rightarrow> (r2, Inl (Wrap ''read response payload'' e))
              | (r2, Inr payload) \<Rightarrow> (r2, Inr \<lparr>Status = header ! 0, RespPayload = payload\<rparr>))
           else (r1, Inr \<lparr>Status = header ! 0, RespPayload = []\<rparr>)))"

section \<open>Round trips\<close>

text \<open>The bytes of one frame.\<close>

definition frame :: "byte \<Rightarrow> bytes \<Rightarrow> bytes" where
  "frame tag payload = tag # PutUint32 (word_of_nat (length payload)) @ payload"

lemma length_frame: "length (frame tag payload) = 5 + length payload"
  by (simp add: frame_def)

lemma payload_length:
  "length p \<le> MaxPayloadSize \<Longrightarrow> unat (word_of_nat (length p) :: u32) = length p"
  by (simp add: MaxPayloadSize_def unat_of_nat)

lemma conn_Write_unlimited: "budget c = None \<Longrightarrow> conn_Write c buf = (c\<lparr>sent := sent c @ buf\<rparr>, None)"
  by (simp add: conn_Write_def)

lemma WriteRequest_ok:
  "budget c = None \<Longrightarrow> WriteRequest c req = (c\<lparr>sent := sent c @ frame (Op req) (ReqPayload req)\<rparr>, None)"
  by (simp add: WriteRequest_def conn_Write_unlimited frame_def Let_def)

lemma WriteResponse_ok:
  "budget c = None \<Longrightarrow> WriteResponse c resp = (c\<lparr>sent := sent c @ frame (Status resp) (RespPayload resp)\<rparr>, None)"
  by (simp add: WriteResponse_def conn_Write_unlimited frame_def Let_def)

lemma ReadFull_append: "inbox c = xs @ ys \<Longrightarrow> n = length xs \<Longrightarrow> ReadFull c n = (c\<lparr>inbox := ys\<rparr>, Inr xs)"
  by (simp add: ReadFull_def)

lemma ReadFull_header:
  "inbox c = frame tag p @ rest \<Longrightarrow>
     ReadFull c 5 = (c\<lparr>inbox := p @ rest\<rparr>, Inr (tag # PutUint32 (word_of_nat (length p))))"
  by (rule ReadFull_append) (simp_all add: frame_def)

lemma ReadRequest_ok:
  assumes "inbox c = frame (Op req) (ReqPayload req) @ rest" "length (ReqPayload req) \<le> MaxPayloadSize"
  shows "ReadRequest c = (c\<lparr>inbox := rest\<rparr>, Inr req)"
  using ReadFull_header [OF assms(1)] payload_length [OF assms(2)] assms(2)
    ReadFull_append [of "c\<lparr>inbox := ReqPayload req @ rest\<rparr>" "ReqPayload req" rest]
  by (simp add: ReadRequest_def Let_def)

lemma ReadResponse_ok:
  assumes "inbox c = frame (Status resp) (RespPayload resp) @ rest" "length (RespPayload resp) \<le> MaxPayloadSize"
  shows "ReadResponse c = (c\<lparr>inbox := rest\<rparr>, Inr resp)"
  using ReadFull_header [OF assms(1)] payload_length [OF assms(2)] assms(2)
    ReadFull_append [of "c\<lparr>inbox := RespPayload resp @ rest\<rparr>" "RespPayload resp" rest]
  by (simp add: ReadResponse_def Let_def)

text \<open>A stream that ends inside a frame is never mistaken for a frame, and a reader consumes
  at least a header whenever it returns one.\<close>

lemma ReadRequest_short:
  assumes "strict_prefix (inbox c) (frame tag p)" "length p \<le> MaxPayloadSize"
  shows "\<exists>c' e. ReadRequest c = (c', Inl e)"
proof (cases "length (inbox c) < 5")
  case True
  then show ?thesis by (simp add: ReadRequest_def ReadFull_def)
next
  case False
  let ?h = "tag # PutUint32 (word_of_nat (length p))"
  have "prefix ?h (inbox c)"
    using assms(1) False prefix_length_prefix [of ?h "frame tag p" "inbox c"]
    by (simp add: frame_def strict_prefix_def)
  then obtain q where q: "inbox c = ?h @ q" by (auto simp: prefix_def)
  have "length q < length p"
    using prefix_length_less [OF assms(1)] q by (simp add: length_frame)
  then show ?thesis
    using q payload_length [OF assms(2)] assms(2)
    by (auto simp: ReadRequest_def ReadFull_def Let_def)
qed

lemma ReadRequest_consumes:
  assumes "ReadRequest c = (c', Inr req)"
  shows "length (inbox c') + 5 \<le> length (inbox c)" "sent c' = sent c" "budget c' = budget c"
    "length (ReqPayload req) \<le> MaxPayloadSize"
  using assms by (auto simp: ReadRequest_def ReadFull_def Let_def split: if_splits prod.splits)

lemma ReadRequest_keeps:
  assumes "ReadRequest c = (c', Inl e)"
  shows "sent c' = sent c" "budget c' = budget c"
  using assms by (auto simp: ReadRequest_def ReadFull_def Let_def split: if_splits prod.splits)

section \<open>Properties\<close>

text \<open>C28: a request or response written by one side is read back unchanged by the other, and the
  reader leaves exactly the bytes that follow the frame, so that frames can be pipelined.\<close>

theorem protocol_roundtrip:
  assumes "budget c = None" "length (ReqPayload req) \<le> MaxPayloadSize" "length (RespPayload resp) \<le> MaxPayloadSize"
  shows "(\<exists>c1. WriteRequest c req = (c1, None) \<and>
            ReadRequest (d\<lparr>inbox := drop (length (sent c)) (sent c1) @ rest\<rparr>) = (d\<lparr>inbox := rest\<rparr>, Inr req))
       \<and> (\<exists>c1. WriteResponse c resp = (c1, None) \<and>
            ReadResponse (d\<lparr>inbox := drop (length (sent c)) (sent c1) @ rest\<rparr>) = (d\<lparr>inbox := rest\<rparr>, Inr resp))"
  using ReadRequest_ok [of "d\<lparr>inbox := frame (Op req) (ReqPayload req) @ rest\<rparr>" req rest]
    ReadResponse_ok [of "d\<lparr>inbox := frame (Status resp) (RespPayload resp) @ rest\<rparr>" resp rest] assms
  by (simp add: WriteRequest_ok WriteResponse_ok)

definition quiet_conn :: conn where
  "quiet_conn = \<lparr>inbox = [], sent = [], budget = None\<rparr>"

theorem protocol_roundtrip_witness:
  "(\<exists>c1. WriteRequest quiet_conn \<lparr>Op = OpProduce, ReqPayload = [1, 2]\<rparr> = (c1, None) \<and>
      ReadRequest (quiet_conn\<lparr>inbox := drop 0 (sent c1) @ [9]\<rparr>) =
        (quiet_conn\<lparr>inbox := [9]\<rparr>, Inr \<lparr>Op = OpProduce, ReqPayload = [1, 2]\<rparr>))"
  using protocol_roundtrip [of quiet_conn "\<lparr>Op = OpProduce, ReqPayload = [1, 2]\<rparr>" "\<lparr>Status = 0, RespPayload = []\<rparr>"
      "[9]" quiet_conn] by (simp add: quiet_conn_def MaxPayloadSize_def)

text \<open>A request cut off anywhere, in the header or in the payload, is reported as an error and never
  read as a shorter request.\<close>

lemma truncated_request_rejected:
  assumes "strict_prefix (inbox c) (frame tag p)" "length p \<le> MaxPayloadSize"
  shows "\<exists>c' e. ReadRequest c = (c', Inl e)"
  by (rule ReadRequest_short [OF assms])

end
