(* ===== verification/Atomic_File.thy ===== *)
theory Atomic_File
  imports Prelude
begin

text \<open>
  Directories under crashes, for the files that are replaced as a whole: the committed offset of a
  consumer (theory \<open>Consumer_Offset\<close>) and the persistent state of a Raft node (theory \<open>Raft_Storage\<close>).
  Both are written to a temporary file, synced, renamed into place, and the directory is synced.
\<close>

section \<open>The directory\<close>

text \<open>
  Names as the running system sees them, and as the last directory sync left them on disk.
  After a crash a name stands for what either of the two says, and a file holds its
  guaranteed prefix and possibly more of its contents.
\<close>

record dir =
  live :: "string \<rightharpoonup> os_file"
  stable :: "string \<rightharpoonup> os_file"

definition crash_read :: "dir \<Rightarrow> string \<Rightarrow> bytes option \<Rightarrow> bool" where
  "crash_read d name r \<longleftrightarrow>
     (\<exists>entry \<in> {live d name, stable d name}.
        case entry of None \<Rightarrow> r = None | Some f \<Rightarrow> (\<exists>c. r = Some c \<and> crash_image f c))"

text \<open>The contents of a file are certain: both views of its name agree on a fully synced file, or on its absence.\<close>

definition file_settled :: "dir \<Rightarrow> string \<Rightarrow> bytes option \<Rightarrow> bool" where
  "file_settled d path v \<longleftrightarrow>
     (case v of
        None \<Rightarrow> live d path = None \<and> stable d path = None
      | Some c \<Rightarrow> (\<exists>f g. live d path = Some f \<and> stable d path = Some g
          \<and> content f = c \<and> synced f = c \<and> content g = c \<and> synced g = c))"

lemma tmp_neq [simp]: "path @ ''.tmp'' \<noteq> path" "path \<noteq> path @ ''.tmp''"
  by simp_all

lemma crash_image_synced: "content f = x \<Longrightarrow> synced f = x \<Longrightarrow> crash_image f c \<longleftrightarrow> c = x"
  by (auto simp: crash_image_def prefix_order.eq_iff)

lemma crash_read_settled: "file_settled d path v \<Longrightarrow> crash_read d path r \<longleftrightarrow> r = v"
  by (auto simp: crash_read_def file_settled_def crash_image_synced split: option.splits)

lemma crash_read_tmp:
  "live d' path = live d path \<Longrightarrow> stable d' = stable d \<Longrightarrow> crash_read d' path r = crash_read d path r"
  by (simp add: crash_read_def)

lemma crash_read_renamed:
  assumes "file_settled d path v" "live d' path = Some f" "stable d' = stable d" "content f = c" "synced f = c"
  shows "crash_read d' path r \<longleftrightarrow> r = v \<or> r = Some c"
  using assms by (auto simp: crash_read_def file_settled_def crash_image_synced split: option.splits)

text \<open>While a settled file is replaced by a synced one, a crash finds the old contents or the new.\<close>

lemma crash_read_replaced:
  assumes st: "file_settled d path v"
    and d': "live d' path = live d path \<and> stable d' = stable d
      \<or> live d' path = Some f \<and> (stable d' = stable d \<or> stable d' path = Some f)"
    and f: "content f = c" "synced f = c" and r: "crash_read d' path r"
  shows "r = v \<or> r = Some c"
proof -
  from d' consider "live d' path = live d path" "stable d' = stable d"
    | "live d' path = Some f" "stable d' = stable d"
    | "live d' path = Some f" "stable d' path = Some f" by blast
  then show ?thesis
  proof cases
    case 1
    then show ?thesis using crash_read_tmp [OF 1, of r] crash_read_settled [OF st] r by simp
  next
    case 2
    then show ?thesis using crash_read_renamed [OF st 2 f] r by simp
  next
    case 3
    then show ?thesis using r f by (simp add: crash_read_def crash_image_synced)
  qed
qed

end
