(* ===== verification/Consumer_Offset.thy ===== *)
theory Consumer_Offset
  imports Atomic_File
begin

text \<open>
  The committed offset of a consumer, \<open>internal/consumeroffset\<close>: \<open>OffsetWriter\<close> replaces an
  8-byte file by writing a temporary file, syncing it, renaming it into place and syncing the
  directory; \<open>OffsetReader\<close> reads it back.

  A crash is possible between any two of these steps. The state keeps the directory as running
  programs see it and as it is certain to be on disk. The lemmas show that at every such
  point a reader after the crash gets the old committed offset or the new one.
\<close>

section \<open>Writer\<close>

record OffsetWriter =
  ow_path :: string
  nthOffset :: u32
  previousOffset :: u64

definition NewOffsetWriter :: "string \<Rightarrow> u32 \<Rightarrow> OffsetWriter" where
  "NewOffsetWriter path nthO = \<lparr>ow_path = path, nthOffset = nthO, previousOffset = 0\<rparr>"

text \<open>
  \<open>writeLocked\<close>, with every state of the directory it passes through, the last one first:
  create or empty the temporary file, write, sync, close, rename, sync the directory. Each
  step that fails ends it with its error.
\<close>

definition writeLocked :: "faults \<Rightarrow> dir \<Rightarrow> string \<Rightarrow> u64 \<Rightarrow> dir list \<times> goerror option" where
  "writeLocked flt d path offset =
     (let tmp = path @ ''.tmp'' in
      case flt (SysOpen tmp) of
        Some (msg, _) \<Rightarrow> ([d], Some (Wrap (''offset: open tmp '' @ fmt_q tmp) (OsError msg)))
      | None \<Rightarrow>
      let f0 = \<lparr>fname = tmp, content = [], synced = []\<rparr>;
          d0 = d\<lparr>live := (live d)(tmp \<mapsto> f0)\<rparr> in
      case file_Write flt f0 (PutUint64 offset) of
        (f1, Some e) \<Rightarrow> ([d0\<lparr>live := (live d0)(tmp \<mapsto> f1)\<rparr>, d0, d], Some (Wrap ''offset: write'' e))
      | (f1, None) \<Rightarrow>
      let d1 = d0\<lparr>live := (live d0)(tmp \<mapsto> f1)\<rparr> in
      case file_Sync flt f1 of
        (_, Some e) \<Rightarrow> ([d1, d0, d], Some (Wrap ''offset: fsync'' e))
      | (f2, None) \<Rightarrow>
      let d2 = d1\<lparr>live := (live d1)(tmp \<mapsto> f2)\<rparr> in
      case file_Close flt f2 of
        Some e \<Rightarrow> ([d2, d1, d0, d], Some (Wrap ''offset: close tmp'' e))
      | None \<Rightarrow>
      case flt (SysRename tmp) of
        Some (msg, _) \<Rightarrow>
          ([d2, d1, d0, d], Some (Wrap (''offset: rename '' @ fmt_q tmp @ '' -> '' @ fmt_q path) (OsError msg)))
      | None \<Rightarrow>
      let d3 = d2\<lparr>live := (live d2)(path \<mapsto> f2\<lparr>fname := path\<rparr>, tmp := None)\<rparr> in
      case flt (SysDirSync path) of
        Some (msg, _) \<Rightarrow> ([d3, d2, d1, d0, d], Some (Wrap ''offset: fsync dir'' (OsError msg)))
      | None \<Rightarrow> ([d3\<lparr>stable := live d3\<rparr>, d3, d2, d1, d0, d], None))"

definition offset_Write :: "faults \<Rightarrow> dir \<Rightarrow> OffsetWriter \<Rightarrow> u64 \<Rightarrow> dir list \<times> goerror option" where
  "offset_Write flt d w offset = writeLocked flt d (ow_path w) offset"

text \<open>\<open>BatchWrite\<close>: skips the commit until enough progress has accumulated. The sum wraps as
  \<open>uint64\<close>.\<close>

definition BatchWrite :: "faults \<Rightarrow> dir \<Rightarrow> OffsetWriter \<Rightarrow> u64 \<Rightarrow> OffsetWriter \<times> dir list \<times> goerror option" where
  "BatchWrite flt d w offset =
     (if offset < previousOffset w + ucast (nthOffset w) then (w, [d], None)
      else (w\<lparr>previousOffset := offset\<rparr>, writeLocked flt d (ow_path w) offset))"

section \<open>Reader\<close>

record OffsetReader =
  or_path :: string

definition NewOffsetReader :: "string \<Rightarrow> OffsetReader" where
  "NewOffsetReader path = \<lparr>or_path = path\<rparr>"

text \<open>\<open>Read\<close> on what the path holds (\<open>None\<close>: no such file).\<close>

definition offset_Read :: "faults \<Rightarrow> OffsetReader \<Rightarrow> bytes option \<Rightarrow> goerror + u64" where
  "offset_Read flt r found =
     (case found of
        None \<Rightarrow> Inr 0
      | Some buf \<Rightarrow>
          (case flt (SysOpen (or_path r)) of
             Some (msg, _) \<Rightarrow> Inl (Wrap (''offset: read '' @ fmt_q (or_path r)) (OsError msg))
           | None \<Rightarrow>
               if length buf < 8 then
                 Inl (Errorf (''offset: file '' @ fmt_q (or_path r) @ '' too short ('' @ dec (length buf) @ '' bytes)''))
               else Inr (Uint64 (take 8 buf))))"

section \<open>Crash safety\<close>

text \<open>The file certainly holds the committed offset, or is certainly absent for a consumer that never committed.\<close>

definition committed :: "u64 option \<Rightarrow> bytes option" where
  "committed v = map_option PutUint64 v"

definition settled :: "dir \<Rightarrow> string \<Rightarrow> u64 option \<Rightarrow> bool" where
  "settled d path v \<longleftrightarrow> file_settled d path (committed v)"

lemma writeLocked_crash:
  assumes st: "settled d path v" and "d' \<in> set (fst (writeLocked flt d path offset))" "crash_read d' path r"
  shows "r = committed v \<or> r = Some (PutUint64 offset)"
proof -
  let ?f = "\<lparr>fname = path, content = PutUint64 offset, synced = PutUint64 offset\<rparr>"
  have "live d' path = live d path \<and> stable d' = stable d
      \<or> live d' path = Some ?f \<and> (stable d' = stable d \<or> stable d' path = Some ?f)"
    using assms(2)
    by (auto simp: writeLocked_def Let_def file_Write_def file_Sync_def split: option.splits if_splits)
  then show ?thesis
    using crash_read_replaced [of d path "committed v" d' ?f "PutUint64 offset" r] st assms(3) by (simp add: settled_def)
qed

lemma writeLocked_ok:
  assumes "writeLocked flt d path offset = (ds, None)"
  shows "settled (hd ds) path (Some offset)"
  using assms
  by (auto simp: writeLocked_def Let_def file_Write_def file_Sync_def settled_def file_settled_def committed_def split: option.splits if_splits)

lemma writeLocked_succeeds: "\<exists>ds. writeLocked no_faults d path offset = (ds, None)"
  by (simp add: writeLocked_def Let_def file_Write_def file_Sync_def file_Close_def no_faults_def max_file_size_def)

lemma offset_Read_committed:
  "flt (SysOpen (or_path r)) = None \<Longrightarrow> offset_Read flt r (committed v) = Inr (case v of None \<Rightarrow> 0 | Some off \<Rightarrow> off)"
  by (auto simp: offset_Read_def committed_def split: option.splits)

section \<open>Properties\<close>

text \<open>C27: a commit is atomic under crashes. At every point of \<open>Write\<close>, including after a failed
  step, a consumer that restarts after a crash reads the offset committed before or the one being
  written, and once \<open>Write\<close> has returned without error it reads the new one.\<close>

theorem commit_is_atomic:
  assumes "settled d (ow_path w) v" "offset_Write flt d w offset = (ds, err)"
    and "d' \<in> set ds" "crash_read d' (ow_path w) img" "no_read_fault (SysOpen (ow_path w)) = None"
  shows "offset_Read no_read_fault (NewOffsetReader (ow_path w)) img \<in> {Inr (case v of None \<Rightarrow> 0 | Some o' \<Rightarrow> o'), Inr offset}
    \<and> (err = None \<longrightarrow> d' = hd ds \<longrightarrow> offset_Read no_read_fault (NewOffsetReader (ow_path w)) img = Inr offset)"
proof -
  let ?r = "NewOffsetReader (ow_path w)"
  have rd: "offset_Read no_read_fault ?r (committed u) = Inr (case u of None \<Rightarrow> 0 | Some off \<Rightarrow> off)" for u
    using assms(5) by (intro offset_Read_committed) (simp add: NewOffsetReader_def)
  have new: "committed (Some offset) = Some (PutUint64 offset)" by (simp add: committed_def)
  have "img = committed v \<or> img = committed (Some offset)"
    using writeLocked_crash [OF assms(1), of d' flt offset img] assms(2-4) new by (simp add: offset_Write_def)
  moreover have "img = committed (Some offset)" if "err = None" "d' = hd ds"
    using writeLocked_ok [of flt d "ow_path w" offset ds] crash_read_settled [of d' "ow_path w" "committed (Some offset)" img]
      assms(2,4) that by (simp add: offset_Write_def settled_def)
  ultimately show ?thesis using rd [of v] rd [of "Some offset"] by auto
qed

definition new_dir :: dir where
  "new_dir = \<lparr>live = Map.empty, stable = Map.empty\<rparr>"

theorem commit_is_atomic_witness:
  "\<exists>ds. offset_Write no_faults new_dir (NewOffsetWriter ''c.offset'' 10) 42 = (ds, None)
    \<and> settled (hd ds) ''c.offset'' (Some 42)
    \<and> offset_Read no_faults (NewOffsetReader ''c.offset'') (Some (PutUint64 42)) = Inr 42"
proof -
  let ?w = "NewOffsetWriter ''c.offset'' 10"
  obtain ds where ds: "offset_Write no_faults new_dir ?w 42 = (ds, None)"
    using writeLocked_succeeds by (simp add: offset_Write_def) blast
  have st: "settled (hd ds) ''c.offset'' (Some 42)"
    using writeLocked_ok [of no_faults new_dir "''c.offset''" 42 ds] ds by (simp add: offset_Write_def NewOffsetWriter_def)
  have "ds \<noteq> []" using ds by (auto simp: offset_Write_def writeLocked_def Let_def split: option.splits prod.splits)
  moreover have "crash_read (hd ds) ''c.offset'' (Some (PutUint64 42))"
    using st by (simp add: settled_def crash_read_settled committed_def)
  ultimately show ?thesis
    using commit_is_atomic [of new_dir ?w None no_faults 42 ds None "hd ds" "Some (PutUint64 42)" no_faults] ds st
    by (simp add: settled_def file_settled_def committed_def new_dir_def NewOffsetWriter_def no_faults_def)
qed



text \<open>C30: the bound is lost once a commit fails: \<open>BatchWrite\<close> advances \<open>previousOffset\<close> before it knows that
  the offset was written. Here the commit of offset 100 fails, and the next call, at offset 109,
  reports success without writing anything: the consumer is 109 records past its last commit.\<close>

theorem failed_batch_is_forgotten:
  "\<exists>w' ds e. BatchWrite (\<lambda>c. if c = SysSync ''c.offset.tmp'' then Some (''input/output error'', 0) else None) new_dir
       (NewOffsetWriter ''c.offset'' 10) 100 = (w', ds, Some e)
    \<and> BatchWrite no_faults (hd ds) w' 109 = (w', [hd ds], None) \<and> live (hd ds) ''c.offset'' = None"
proof -
  have "\<not> (100 :: u64) < 10" "(109 :: u64) < 110" by (simp_all add: word_less_nat_alt)
  moreover have "8 \<le> max_file_size" by (simp add: max_file_size_def)
  ultimately show ?thesis
    by (simp add: BatchWrite_def NewOffsetWriter_def writeLocked_def Let_def file_Write_def file_Sync_def new_dir_def)
qed

end
