(* ===== verification/Segment.thy ===== *)
theory Segment
  imports Wal_Recovery
begin

text \<open>
  One segment file of the log, \<open>internal/segment/segment.go\<close>: its name, its opening (index,
  writer, reader) and the translation between global offsets and the local slots of the WAL.

  The lemmas show that segment names and base offsets determine each other, that a segment
  opened on the files another one left holds the same records, and what \<open>reserve\<close>, \<open>commit\<close>
  and \<open>ReadAt\<close> do to the records of a segment.
\<close>

section \<open>File names\<close>

definition segmentSuffix :: string where "segmentSuffix = ''.log''"
definition baseOffsetDigits :: nat where "baseOffsetDigits = 20"

text \<open>\<open>fmt.Sprintf("%0*d")\<close>: decimal digits, filled up with zeros on the left.\<close>

definition zero_pad :: "nat \<Rightarrow> string \<Rightarrow> string" where
  "zero_pad k s = replicate (k - length s) (CHR ''0'') @ s"

definition SegmentFileName :: "u64 \<Rightarrow> string" where
  "SegmentFileName base = zero_pad baseOffsetDigits (dec (unat base)) @ segmentSuffix"

text \<open>\<open>strings.HasSuffix\<close> and \<open>strings.TrimSuffix\<close>.\<close>

definition HasSuffix :: "string \<Rightarrow> string \<Rightarrow> bool" where
  "HasSuffix s sfx \<longleftrightarrow> length sfx \<le> length s \<and> drop (length s - length sfx) s = sfx"

definition TrimSuffix :: "string \<Rightarrow> string \<Rightarrow> string" where
  "TrimSuffix s sfx = (if HasSuffix s sfx then take (length s - length sfx) s else s)"

definition indexFileName :: "string \<Rightarrow> string" where
  "indexFileName logPath = TrimSuffix logPath segmentSuffix @ ''.index''"

text \<open>\<open>strconv.ParseUint(s, 10, 64)\<close>: digits only, at least one, below \<open>2 ^ 64\<close>.\<close>

fun parse_digits :: "nat \<Rightarrow> string \<Rightarrow> nat option" where
  "parse_digits n [] = Some n"
| "parse_digits n (c # cs) =
     (let d = of_char c in
      if 48 \<le> d \<and> d \<le> (57 :: nat) then parse_digits (10 * n + (d - 48)) cs else None)"

definition ParseUint :: "string \<Rightarrow> u64 option" where
  "ParseUint s =
     (if s = [] then None
      else case parse_digits 0 s of
        None \<Rightarrow> None
      | Some n \<Rightarrow> if n < 2 ^ 64 then Some (of_nat n) else None)"

subsection \<open>Names and base offsets determine each other\<close>

lemma parse_digits_append:
  "parse_digits n (xs @ ys) = (case parse_digits n xs of None \<Rightarrow> None | Some m \<Rightarrow> parse_digits m ys)"
  by (induction n xs rule: parse_digits.induct) (auto simp: Let_def)

lemma of_char_digit: "d < 10 \<Longrightarrow> of_char (char_of (48 + d)) = (48 + d :: nat)"
  by simp

lemma parse_dec: "parse_digits 0 (dec n) = Some n"
proof (induction n rule: dec.induct)
  case (1 n)
  show ?case
  proof (cases "n < 10")
    case True
    then show ?thesis using of_char_digit [OF True] by (subst dec.simps) (simp add: Let_def)
  next
    case False
    have "n mod 10 < 10" by simp
    then show ?thesis
      using 1 [OF False] False of_char_digit [of "n mod 10"]
      by (subst dec.simps) (simp add: parse_digits_append Let_def)
  qed
qed

lemma parse_zeros: "parse_digits 0 (replicate k (CHR ''0'') @ s) = parse_digits 0 s"
  by (induction k) (simp_all add: Let_def)

lemma dec_nonempty: "dec n \<noteq> []"
  by (subst dec.simps) simp

lemma TrimSuffix_append [simp]: "TrimSuffix (s @ sfx) sfx = s"
  by (simp add: TrimSuffix_def HasSuffix_def)

lemma HasSuffix_append [simp]: "HasSuffix (s @ sfx) sfx"
  by (simp add: HasSuffix_def)

lemma unat_u64_less: "unat (w :: u64) < 2 ^ 64"
proof -
  have "unat w < 2 ^ LENGTH(64)" by (rule unsigned_less)
  then show ?thesis by simp
qed

lemma ParseUint_zero_pad: "ParseUint (zero_pad k (dec (unat base))) = Some base"
proof -
  have "parse_digits 0 (zero_pad k (dec (unat base))) = Some (unat base)"
    by (simp add: zero_pad_def parse_zeros parse_dec)
  then show ?thesis
    using unat_u64_less [of base] by (simp add: ParseUint_def zero_pad_def dec_nonempty)
qed

lemma SegmentFileName_parse: "ParseUint (TrimSuffix (SegmentFileName base) segmentSuffix) = Some base"
  by (simp add: SegmentFileName_def ParseUint_zero_pad)

lemma SegmentFileName_inject [simp]: "SegmentFileName a = SegmentFileName b \<longleftrightarrow> a = b"
  by (metis SegmentFileName_parse option.inject)

lemma indexFileName_SegmentFileName:
  "indexFileName (SegmentFileName base) = zero_pad baseOffsetDigits (dec (unat base)) @ ''.index''"
  by (simp add: indexFileName_def SegmentFileName_def)

lemma index_not_segment: "indexFileName (SegmentFileName a) \<noteq> SegmentFileName b"
proof
  assume "indexFileName (SegmentFileName a) = SegmentFileName b"
  then have "last (indexFileName (SegmentFileName a)) = last (SegmentFileName b)" by simp
  then show False
    unfolding indexFileName_SegmentFileName by (simp add: SegmentFileName_def segmentSuffix_def)
qed

lemma indexFileName_inject:
  "indexFileName (SegmentFileName a) = indexFileName (SegmentFileName b) \<longleftrightarrow> a = b"
  by (simp add: indexFileName_SegmentFileName) (metis ParseUint_zero_pad option.inject)

section \<open>Segments\<close>

text \<open>
  A segment with its open files. The store and the log file are those of its writer, the
  reader has its own handle on the same file. Times are nanoseconds.
\<close>

record segment =
  baseOffset :: u64
  writer :: wal_writer
  sreader :: wal_reader
  path :: string
  lastAppend :: int
  readers :: nat

text \<open>The files of the log directory that no segment has open, by name.\<close>

type_synonym disk = "(string \<times> os_file) list"

definition filepath_Join :: "string \<Rightarrow> string \<Rightarrow> string" where
  "filepath_Join dir name = dir @ ''/'' @ name"

text \<open>\<open>os.OpenFile\<close> with \<open>O_CREATE\<close>: the file found or a new empty one, and whether it is new.\<close>

definition open_file :: "disk \<Rightarrow> string \<Rightarrow> string \<Rightarrow> os_file \<times> bool" where
  "open_file disk dir name =
     (case map_of disk name of
        Some f \<Rightarrow> (f, False)
      | None \<Rightarrow> (\<lparr>fname = filepath_Join dir name, content = [], synced = []\<rparr>, True))"

definition created :: "faults \<Rightarrow> disk \<Rightarrow> string \<Rightarrow> os_file \<Rightarrow> disk" where
  "created flt disk name f =
     (if flt (SysOpen (fname f)) = None \<and> map_of disk name = None then (name, f) # disk else disk)"

definition without :: "string list \<Rightarrow> disk \<Rightarrow> disk" where
  "without names disk = filter (\<lambda>(n, _). n \<notin> set names) disk"

text \<open>
  \<open>NewSegment\<close> in the directory \<open>dir\<close>; \<open>mtime\<close> is the modification time of the log file if it can
  be read. The segment takes its two files off the disk. An open that fails leaves the files it
  created, which are empty, and closes the handles it had opened.
\<close>

definition NewSegment ::
  "faults \<Rightarrow> disk \<Rightarrow> int option \<Rightarrow> int \<Rightarrow> string \<Rightarrow> u64 \<Rightarrow> checksum \<Rightarrow> (disk \<times> (goerror + segment)) option" where
  "NewSegment flt disk mtime now dir base cs =
     (let name = SegmentFileName base;
          idxName = indexFileName name;
          (idxFile, idxNew) = open_file disk dir idxName;
          (logFile, logNew) = open_file disk dir name;
          disk1 = created flt disk idxName idxFile;
          disk2 = created flt disk1 name logFile in
      case NewInMemoryStore flt idxFile idxNew NthIndex of
        Inl e \<Rightarrow> Some (disk1, Inl e)
      | Inr store \<Rightarrow>
          (case NewWalWriter flt logFile logNew store cs of
             None \<Rightarrow> None
           | Some (Inl e) \<Rightarrow> Some (disk2, Inl e)
           | Some (Inr w) \<Rightarrow>
               (case NewWALReader flt (wfile w) cs of
                  Inl e \<Rightarrow>
                    Some ((name, wfile w) # (idxName, indexFile (wstore w)) # without [name, idxName] disk, Inl e)
                | Inr r \<Rightarrow>
                    Some (without [name, idxName] disk,
                          Inr \<lparr>baseOffset = base, writer = w, sreader = r, path = filepath_Join dir name,
                               lastAppend = (case mtime of Some t \<Rightarrow> t | None \<Rightarrow> now), readers = 0\<rparr>))))"

definition BaseOffset :: "segment \<Rightarrow> u64" where
  "BaseOffset s = baseOffset s"

definition seg_NextOffset :: "segment \<Rightarrow> u64" where
  "seg_NextOffset s = baseOffset s + NextOffset (writer s)"

definition Count :: "segment \<Rightarrow> u64" where
  "Count s = NextOffset (writer s)"

definition seg_Size :: "segment \<Rightarrow> int" where
  "seg_Size s = writer_Size (writer s)"

definition Contains :: "segment \<Rightarrow> u64 \<Rightarrow> bool" where
  "Contains s off \<longleftrightarrow> off \<ge> baseOffset s \<and> off < seg_NextOffset s"

definition seg_reserve :: "faults \<Rightarrow> segment \<Rightarrow> bytes \<Rightarrow> int \<Rightarrow> segment \<times> (goerror + u64 \<times> u64)" where
  "seg_reserve flt s data now =
     (case Reserve flt (writer s) data of
        (w, Inl e) \<Rightarrow> (s\<lparr>writer := w\<rparr>, Inl e)
      | (w, Inr (localOffset, seq)) \<Rightarrow> (s\<lparr>writer := w, lastAppend := now\<rparr>, Inr (localOffset, seq)))"

definition seg_commit :: "faults \<Rightarrow> segment \<Rightarrow> u64 \<Rightarrow> (segment \<times> goerror option) option" where
  "seg_commit flt s seq =
     (case Commit flt (writer s) seq of
        None \<Rightarrow> None
      | Some (w, e) \<Rightarrow> Some (s\<lparr>writer := w\<rparr>, e))"

definition seg_Append :: "faults \<Rightarrow> segment \<Rightarrow> bytes \<Rightarrow> int \<Rightarrow> (segment \<times> (goerror + u64)) option" where
  "seg_Append flt s data now =
     (case seg_reserve flt s data now of
        (s1, Inl e) \<Rightarrow> Some (s1, Inl e)
      | (s1, Inr (localSlot, seq)) \<Rightarrow>
          (case seg_commit flt s1 seq of
             None \<Rightarrow> None
           | Some (s2, Some e) \<Rightarrow> Some (s2, Inl e)
           | Some (s2, None) \<Rightarrow> Some (s2, Inr (baseOffset s2 + localSlot))))"

definition LastAppend :: "segment \<Rightarrow> int" where
  "LastAppend s = lastAppend s"

definition acquireRead :: "segment \<Rightarrow> segment" where
  "acquireRead s = s\<lparr>readers := readers s + 1\<rparr>"

definition releaseRead :: "segment \<Rightarrow> segment" where
  "releaseRead s = s\<lparr>readers := readers s - 1\<rparr>"

definition seg_ReadAt :: "faults \<Rightarrow> segment \<Rightarrow> u64 \<Rightarrow> goerror + bytes" where
  "seg_ReadAt flt s off =
     (if off < baseOffset s then
        Inl (Errorf (''segment: offset '' @ dec (unat off) @ '' below base '' @ dec (unat (baseOffset s))))
      else reader_ReadAt flt (sreader s) (wfile (writer s)) (wstore (writer s)) (off - baseOffset s))"

text \<open>\<open>waitReaders\<close> blocks until nobody reads: \<open>None\<close> while a reader is left.\<close>

definition waitReaders :: "segment \<Rightarrow> unit option" where
  "waitReaders s = (if readers s = 0 then Some () else None)"

definition IndexPath :: "segment \<Rightarrow> string" where
  "IndexPath s = indexFileName (path s)"

definition seg_Close :: "faults \<Rightarrow> segment \<Rightarrow> segment \<times> goerror option" where
  "seg_Close flt s =
     (let rerr = reader_Close flt (wfile (writer s));
          (w, werr) = writer_Close flt (writer s);
          serr = store_Close flt (wstore w) in
      (s\<lparr>writer := w\<rparr>, if werr \<noteq> None then werr else if rerr \<noteq> None then rerr else serr))"

section \<open>Records of a segment\<close>

text \<open>The segment holds the payloads \<open>recs\<close>, the first of them at its base offset.\<close>

definition seg_inv :: "checksum \<Rightarrow> bytes list \<Rightarrow> segment \<Rightarrow> bool" where
  "seg_inv cs recs s \<longleftrightarrow> (\<exists>b k. wal_inv recs b k (writer s)) \<and> wcsum (writer s) = cs \<and> rcsum (sreader s) = cs
     \<and> \<not> syncing (writer s) \<and> store_file_ok (wstore (writer s)) \<and> unat (baseOffset s) + length recs < 2 ^ 64"

text \<open>Its files are those of its base offset in \<open>dir\<close>.\<close>

definition seg_at :: "string \<Rightarrow> segment \<Rightarrow> bool" where
  "seg_at dir s \<longleftrightarrow> path s = filepath_Join dir (SegmentFileName (baseOffset s))
     \<and> fname (wfile (writer s)) = path s
     \<and> fname (indexFile (wstore (writer s))) = filepath_Join dir (indexFileName (SegmentFileName (baseOffset s)))"

text \<open>Every record of it is durable.\<close>

definition seg_durable :: "checksum \<Rightarrow> bytes list \<Rightarrow> segment \<Rightarrow> bool" where
  "seg_durable cs recs s \<longleftrightarrow> durable cs recs (wfile (writer s))"

lemma seg_at_IndexPath:
  assumes "seg_at dir s"
  shows "IndexPath s = fname (indexFile (wstore (writer s)))"
proof -
  have "indexFileName (xs @ segmentSuffix) = xs @ ''.index''" for xs
    by (simp add: indexFileName_def)
  from this [of "dir @ ''/'' @ zero_pad baseOffsetDigits (dec (unat (baseOffset s)))"] show ?thesis
    using assms
    by (simp add: seg_at_def IndexPath_def filepath_Join_def indexFileName_SegmentFileName)
      (simp add: SegmentFileName_def)
qed

lemma seg_inv_next:
  "seg_inv cs recs s \<Longrightarrow> unat (seg_NextOffset s) = unat (baseOffset s) + length recs"
  by (auto simp: seg_inv_def wal_inv_def seg_NextOffset_def NextOffset_def unat_word_ariths unat_of_nat)

lemma Contains_iff:
  "seg_inv cs recs s \<Longrightarrow>
     Contains s off \<longleftrightarrow> unat (baseOffset s) \<le> unat off \<and> unat off < unat (baseOffset s) + length recs"
  by (simp add: Contains_def word_le_nat_alt word_less_nat_alt seg_inv_next)

lemma seg_Size_iff: "seg_inv cs recs s \<Longrightarrow> seg_Size s = int (length (encode_log cs recs))"
  by (auto simp: seg_inv_def wal_inv_def seg_Size_def writer_Size_def)

lemma seg_readers [simp]:
  "seg_inv cs recs (s\<lparr>readers := n\<rparr>) = seg_inv cs recs s" "seg_at dir (s\<lparr>readers := n\<rparr>) = seg_at dir s"
  "seg_durable cs recs (s\<lparr>readers := n\<rparr>) = seg_durable cs recs s"
  by (simp_all add: seg_inv_def seg_at_def seg_durable_def)

text \<open>The log file can be read.\<close>

abbreviation seg_readable :: "faults \<Rightarrow> segment \<Rightarrow> bool" where
  "seg_readable flt s \<equiv> readable flt (wfile (writer s))"

section \<open>Opening\<close>

text \<open>No file of the base offset is on the disk, or only an empty one.\<close>

definition vacant :: "disk \<Rightarrow> string \<Rightarrow> string \<Rightarrow> bool" where
  "vacant disk dir name \<longleftrightarrow>
     (case map_of disk name of
        None \<Rightarrow> True
      | Some f \<Rightarrow> f = \<lparr>fname = filepath_Join dir name, content = [], synced = []\<rparr>)"

lemma vacant_open:
  "vacant disk dir name \<Longrightarrow>
     fst (open_file disk dir name) = \<lparr>fname = filepath_Join dir name, content = [], synced = []\<rparr>"
  by (auto simp: vacant_def open_file_def split: option.splits)

lemma vacant_created:
  "vacant disk dir n \<Longrightarrow> vacant disk dir name \<Longrightarrow> vacant (created flt disk name (fst (open_file disk dir name))) dir n"
  by (auto simp: created_def vacant_open) (auto simp: vacant_def)

lemma map_of_without: "map_of (without names disk) n = (if n \<in> set names then None else map_of disk n)"
  by (induction disk) (auto simp: without_def)

lemma vacant_without: "vacant disk dir n \<Longrightarrow> vacant (without names disk) dir n"
  by (simp add: vacant_def map_of_without)

text \<open>Opening vacant files gives an empty segment or fails, and leaves the other names alone.\<close>

lemma LoadCheckpoints_empty:
  assumes "content (indexFile st) = []" "LoadCheckpoints flt st = (st', None)"
  shows "st' = st\<lparr>offsets := [], positions := [], index := Map.empty\<rparr>"
  using assms
  by (auto simp: LoadCheckpoints_def file_Stat_Size_def load_entries_def heal_index_def Let_def
      split: option.splits)

lemma NewSegment_vacant:
  assumes vac: "vacant disk dir (SegmentFileName base)" "vacant disk dir (indexFileName (SegmentFileName base))"
    and r: "NewSegment flt disk mtime now dir base cs = Some (disk', Inr s)"
  shows "seg_inv cs [] s \<and> baseOffset s = base \<and> seg_at dir s \<and> syncErr (writer s) = None \<and> readers s = 0
    \<and> content (wfile (writer s)) = [] \<and> disk' = without [SegmentFileName base, indexFileName (SegmentFileName base)] disk"
proof -
  let ?n = "SegmentFileName base"
  let ?f = "\<lambda>n. \<lparr>fname = filepath_Join dir n, content = [], synced = []\<rparr>"
  obtain a b where o1: "open_file disk dir (indexFileName ?n) = (?f (indexFileName ?n), a)"
    and o2: "open_file disk dir ?n = (?f ?n, b)"
    using vacant_open [OF vac(1)] vacant_open [OF vac(2)] by (metis prod.collapse)
  obtain st w rd where st: "NewInMemoryStore flt (?f (indexFileName ?n)) a NthIndex = Inr st"
    and w: "NewWalWriter flt (?f ?n) b st cs = Some (Inr w)" and rd: "NewWALReader flt (wfile w) cs = Inr rd"
    and s: "s = \<lparr>baseOffset = base, writer = w, sreader = rd, path = filepath_Join dir ?n,
        lastAppend = (case mtime of Some t \<Rightarrow> t | None \<Rightarrow> now), readers = 0\<rparr>"
    and d: "disk' = without [?n, indexFileName ?n] disk"
    using r o1 o2 by (auto simp: NewSegment_def Let_def split: sum.splits option.splits)
  have st': "st = \<lparr>offsets = [], positions = [], index = Map.empty, indexFile = ?f (indexFileName ?n),
      seen = 0, nthIndex = NthIndex\<rparr>"
    using st by (auto simp: NewInMemoryStore_def split: option.splits)
  obtain st1 where ld: "LoadCheckpoints flt st = (st1, None)" and stat: "flt (SysStat (fname (?f ?n))) = None"
    and rs: "recover flt (fresh_writer (?f ?n) cs st) = Some (w, None)"
    using w by (auto simp: NewWalWriter_def recover_def fresh_writer_def file_Stat_Size_def
        split: option.splits prod.splits sum.splits)
  have st1: "st1 = st" using LoadCheckpoints_empty [OF _ ld] st' by simp
  have "w = fresh_writer (?f ?n) cs st"
    using rs ld stat st1 st'
    by (auto simp: recover_def fresh_writer_def file_Stat_Size_def recover_start_def Floor_def sort_Search_def
        search_loop.simps recover_scan.simps Let_def)
  moreover have "rcsum rd = cs" using rd by (auto simp: NewWALReader_def split: option.splits)
  ultimately show ?thesis
    using s d st' unsigned_less [of base]
    by (auto simp: seg_inv_def seg_at_def wal_inv_def fresh_writer_def file_ok_def small_def store_inv_def entries_def
        index_lags_def sound_entries_def durable_def store_file_ok_def store_synced_def encode_entries_def)
qed

text \<open>Recovery works on the file it was given.\<close>

lemma recover_scan_fname:
  assumes "recover_scan flt cs f sz off pos = Some r"
  shows "\<forall>f' off' pos'. r = Inr (f', off', pos') \<longrightarrow> fname f' = fname f"
proof (rule recover_scan.raw_induct [OF _ assms, rotated])
  fix scan :: "faults \<Rightarrow> checksum \<Rightarrow> os_file \<Rightarrow> int \<Rightarrow> u64 \<Rightarrow> int \<Rightarrow> (goerror + os_file \<times> u64 \<times> int) option"
    and flt cs f sz off pos r
  assume IH: "\<And>flt cs f sz off pos r. scan flt cs f sz off pos = Some r \<Longrightarrow>
      \<forall>f' off' pos'. r = Inr (f', off', pos') \<longrightarrow> fname f' = fname f"
    and eq: "(if pos = sz then Some (Inr (f, off, pos))
      else if sz < int64 (pos + int (headerSize cs)) then Some (truncate_torn flt ''header'' f off pos)
      else case file_ReadAt flt f pos LengthSize of
        Inl e \<Rightarrow> Some (Inl (Wrap (''wal: read length at '' @ dec_int pos) e))
      | Inr lenBuf \<Rightarrow>
          (let len = unat (Uint32 lenBuf) in
           if MaxRecordSize < len then Some (Inl (CorruptionError pos [] [] (''length out of bounds: '' @ dec len)))
           else
             let recEnd = int64 (int64 (pos + int (headerSize cs)) + int len) in
             if sz < recEnd then Some (truncate_torn flt ''payload'' f off pos)
             else scan flt cs f sz (off + 1) recEnd)) = Some r"
  have torn: "fname f' = fname f" if "truncate_torn flt what f off pos = Inr (f', off', pos')" for what f' off' pos'
    using that by (auto simp: truncate_torn_def file_Truncate_def split: option.splits prod.splits if_splits)
  show "\<forall>f' off' pos'. r = Inr (f', off', pos') \<longrightarrow> fname f' = fname f"
  proof (cases "pos = sz \<or> sz < int64 (pos + int (headerSize cs))")
    case True
    then have "r = Inr (f, off, pos) \<or> r = truncate_torn flt ''header'' f off pos"
      using eq by (cases "pos = sz") (simp_all only: if_True if_False option.inject simp_thms)
    then show ?thesis
    proof
      assume "r = Inr (f, off, pos)"
      then show ?thesis by simp
    next
      assume r: "r = truncate_torn flt ''header'' f off pos"
      show ?thesis unfolding r using torn [of "''header''"] by blast
    qed
  next
    case False
    then have eq1: "(case file_ReadAt flt f pos LengthSize of
        Inl e \<Rightarrow> Some (Inl (Wrap (''wal: read length at '' @ dec_int pos) e))
      | Inr lenBuf \<Rightarrow>
          (let len = unat (Uint32 lenBuf) in
           if MaxRecordSize < len then Some (Inl (CorruptionError pos [] [] (''length out of bounds: '' @ dec len)))
           else
             let recEnd = int64 (int64 (pos + int (headerSize cs)) + int len) in
             if sz < recEnd then Some (truncate_torn flt ''payload'' f off pos)
             else scan flt cs f sz (off + 1) recEnd)) = Some r"
      using eq by simp
    show ?thesis
    proof (cases "file_ReadAt flt f pos LengthSize")
      case (Inl e)
      then show ?thesis using eq1 by auto
    next
      case (Inr lenBuf)
      let ?len = "unat (Uint32 lenBuf)"
      let ?fin = "int64 (int64 (pos + int (headerSize cs)) + int ?len)"
      have "(if MaxRecordSize < ?len then Some (Inl (CorruptionError pos [] [] (''length out of bounds: '' @ dec ?len)))
           else if sz < ?fin then Some (truncate_torn flt ''payload'' f off pos)
           else scan flt cs f sz (off + 1) ?fin) = Some r"
        using eq1 Inr by (simp only: Let_def sum.case)
      then show ?thesis using torn [of "''payload''"] IH [of flt cs f sz "off + 1" ?fin r]
        by (auto simp only: if_True if_False split: if_splits)
    qed
  qed
qed

lemma recover_fname:
  assumes "recover flt w = Some (w', None)"
  shows "fname (wfile w') = fname (wfile w)" "fname (indexFile (wstore w')) = fname (indexFile (wstore w))"
proof -
  obtain st e where ld: "LoadCheckpoints flt (wstore w) = (st, e)" by fastforce
  then have "e = None" using assms by (cases e) (simp_all add: recover_def)
  then obtain sz where sz: "file_Stat_Size flt (wfile w) = Inr sz"
    using assms ld by (cases "file_Stat_Size flt (wfile w)") (simp_all add: recover_def)
  obtain off pos where st: "recover_start (wcsum w) st sz = (off, pos)" by fastforce
  obtain r where r: "recover_scan flt (wcsum w) (wfile w) sz off pos = Some r"
    using assms ld \<open>e = None\<close> sz st
    by (cases "recover_scan flt (wcsum w) (wfile w) sz off pos") (simp_all add: recover_def)
  then obtain f off' pos' where "r = Inr (f, off', pos')"
    using assms ld \<open>e = None\<close> sz st by (cases r) (auto simp: recover_def)
  then show "fname (wfile w') = fname (wfile w)" "fname (indexFile (wstore w')) = fname (indexFile (wstore w))"
    using recover_scan_fname [OF r] LoadCheckpoints_ok(3) [OF ld [unfolded \<open>e = None\<close>]] assms ld \<open>e = None\<close> sz st r
    by (auto simp: recover_def)
qed

text \<open>A failed open leaves every vacant name vacant.\<close>

lemma NewSegment_fails:
  assumes vac: "vacant disk dir (SegmentFileName base)" "vacant disk dir (indexFileName (SegmentFileName base))"
    and r: "NewSegment flt disk mtime now dir base cs = Some (disk', Inl e)" and n: "vacant disk dir n"
  shows "vacant disk' dir n"
proof -
  let ?n = "SegmentFileName base"
  let ?x = "indexFileName ?n"
  let ?d1 = "created flt disk ?x (fst (open_file disk dir ?x))"
  let ?d2 = "created flt ?d1 ?n (fst (open_file disk dir ?n))"
  have keep: "vacant ?d1 dir m" if "vacant disk dir m" for m using vacant_created [OF that vac(2)] .
  have eq: "fst (open_file disk dir ?n) = fst (open_file ?d1 dir ?n)"
    using vacant_open [OF vac(1)] vacant_open [OF keep [OF vac(1)]] by simp
  have d2: "vacant ?d2 dir n" unfolding eq by (rule vacant_created [OF keep [OF n] keep [OF vac(1)]])
  obtain x a where ox: "open_file disk dir ?x = (x, a)" by fastforce
  obtain f b where of': "open_file disk dir ?n = (f, b)" by fastforce
  have "NewInMemoryStore flt x a NthIndex = Inr st \<Longrightarrow> NewWalWriter flt f b st cs = Some (Inr w) \<Longrightarrow>
      NewWALReader flt (wfile w) cs \<noteq> Inl e" for st w e
  proof -
    assume "NewWalWriter flt f b st cs = Some (Inr w)"
    then have "flt (SysOpen (fname f)) = None" "recover flt (fresh_writer f cs st) = Some (w, None)"
      by (auto simp: NewWalWriter_def fresh_writer_def split: option.splits prod.splits)
    moreover from this(2) have "fname (wfile w) = fname f" using recover_fname by (simp add: fresh_writer_def)
    ultimately show ?thesis by (auto simp: NewWALReader_def)
  qed
  then show ?thesis
    using r keep [OF n] d2 ox of' by (auto simp: NewSegment_def Let_def split: sum.splits option.splits)
qed

context checksum_alg
begin

lemma seg_ReadAt_hit:
  assumes inv: "seg_inv cs recs s" and rd: "seg_readable flt s"
    and off: "unat (baseOffset s) \<le> unat off" "unat off < unat (baseOffset s) + length recs"
  shows "seg_ReadAt flt s off = Inr (recs ! (unat off - unat (baseOffset s)))"
proof -
  obtain b k where w: "wal_inv recs b k (writer s)" using inv by (auto simp: seg_inv_def)
  have img: "log_image cs recs (wfile (writer s)) (wstore (writer s))"
    using wal_inv_image [OF w] inv by (simp add: seg_inv_def)
  let ?j = "unat off - unat (baseOffset s)"
  have "off - baseOffset s = of_nat ?j"
    using off(1) by (simp add: word_unat_eq_iff unat_of_nat unat_sub word_le_nat_alt)
  then show ?thesis
    using reader_hit [OF img rd, of "sreader s" ?j] inv off by (simp add: seg_ReadAt_def seg_inv_def word_less_nat_alt)
qed

text \<open>Phase 1 of an append.\<close>

lemma seg_reserve_ok:
  assumes inv: "seg_inv cs recs s" and r: "seg_reserve flt s data now = (s', Inr (l, seq))"
    and room: "unat (baseOffset s) + length recs + 1 < 2 ^ 64"
  shows "seg_inv cs (recs @ [data]) s'" "l = of_nat (length recs)" "baseOffset s' = baseOffset s"
    "writeSeq (writer s') = seq" "syncErr (writer s') = syncErr (writer s)" "lastAppend s' = now"
    "readers s' = readers s" "seg_at dir s \<Longrightarrow> seg_at dir s'" "seq \<noteq> 0"
proof -
  obtain b k where w: "wal_inv recs b k (writer s)" "wcsum (writer s) = cs" using inv by (auto simp: seg_inv_def)
  obtain w' where R: "Reserve flt (writer s) data = (w', Inr (l, seq))" and s': "s' = s\<lparr>writer := w', lastAppend := now\<rparr>"
    using r by (auto simp: seg_reserve_def split: prod.splits sum.splits)
  note ok = Reserve_ok [OF w R]
  have st: "wstore w' = wstore (writer s)"
    using R by (auto simp: Reserve_def Let_def split: if_splits prod.splits option.splits)
  show "seg_inv cs (recs @ [data]) s'"
    using inv ok(1,2,6) s' st room by (auto simp: seg_inv_def)
  have "length recs - b + 1 < 2 ^ 64" using wal_inv_count [OF w] by simp
  then have "unat seq = length recs - b + 1" unfolding ok(4) unat_of_nat by simp
  then show "seq \<noteq> 0" by auto
  show "l = of_nat (length recs)" "baseOffset s' = baseOffset s" "writeSeq (writer s') = seq"
    "syncErr (writer s') = syncErr (writer s)" "lastAppend s' = now" "readers s' = readers s"
    "seg_at dir s \<Longrightarrow> seg_at dir s'"
    using ok s' st by (simp_all add: seg_at_def)
qed

text \<open>A write that fails without storing anything changes nothing.\<close>

lemma seg_reserve_fails:
  assumes "seg_reserve flt s data now = (s', Inl e)" "atomic_append flt (wfile (writer s))"
  shows "s' = s"
  using assms
  by (auto simp: seg_reserve_def Reserve_def Let_def file_Write_def atomic_append_def
      split: if_splits prod.splits sum.splits option.splits)

text \<open>Phase 2 of an append: the commit of a reserved sequence number returns, keeps the records and,
  when it succeeds, makes those up to it durable.\<close>

lemma seg_commit_any:
  assumes inv: "seg_inv cs recs s" and at: "atomic_append flt (indexFile (wstore (writer s)))"
    and seq: "writeSeq (writer s) = seq"
  shows "\<exists>s' e. seg_commit flt s seq = Some (s', e) \<and> seg_inv cs recs s' \<and> baseOffset s' = baseOffset s
    \<and> readers s' = readers s \<and> lastAppend s' = lastAppend s \<and> (seg_at dir s \<longrightarrow> seg_at dir s')
    \<and> (e = None \<longrightarrow> seq \<noteq> 0 \<longrightarrow> seg_durable cs recs s') \<and> syncErr (writer s') = e"
proof -
  obtain b k where w: "wal_inv recs b k (writer s)" "wcsum (writer s) = cs" "\<not> syncing (writer s)"
    using inv by (auto simp: seg_inv_def)
  define t where "t = length recs - b"
  have sq: "seq = of_nat t" using w(1) seq by (simp add: wal_inv_def t_def)
  obtain w' n e where c: "commitLocked flt (of_nat t) (writer s) = Some (w', e)" "wal_inv recs b n w'"
    "e = None \<longrightarrow> t \<le> n" "wcsum w' = cs" "\<not> syncing w'" "syncErr w' = e" "fname (wfile w') = fname (wfile (writer s))"
    using commitLocked_any [OF w(1,2,3), of t flt] by (auto simp: t_def)
  have st: "store_file_ok (wstore w')" "fname (indexFile (wstore w')) = fname (indexFile (wstore (writer s)))"
    using commitLocked_store [OF c(1)] at inv w(1) by (auto simp: seg_inv_def wal_inv_def store_inv_def)
  have dur: "durable cs recs (wfile w')" if "e = None" "seq \<noteq> 0"
  proof -
    have "t \<noteq> 0" using that(2) sq by (cases t) simp_all
    moreover have "b + n \<le> length recs" using c(2) by (simp add: wal_inv_def)
    ultimately have "0 < n" "b + n = length recs" using c(3) that(1) by (auto simp: t_def)
    then show ?thesis using c(2,4) by (auto simp: wal_inv_def)
  qed
  have "seg_commit flt s seq = Some (s\<lparr>writer := w'\<rparr>, e)"
    using c(1) sq by (simp add: seg_commit_def Commit_def)
  then show ?thesis
    using inv c st dur
    by (intro exI [of _ "s\<lparr>writer := w'\<rparr>"] exI [of _ e])
      (auto simp: seg_inv_def seg_at_def seg_durable_def)
qed

text \<open>
  A segment opened on what a crash left of another one's files keeps a prefix of its records, with
  every durable one in it.
\<close>

lemma NewSegment_crash:
  assumes inv: "seg_inv cs recs s" "seg_at dir s" and n: "name = SegmentFileName (baseOffset s)"
    and d: "map_of disk name = Some f" "map_of disk (indexFileName name) = Some x"
    and cr: "crashed (wfile (writer s)) f" "fname x = fname (indexFile (wstore (writer s)))"
      "prefix (content x) (content (indexFile (wstore (writer s))))"
    and flt: "openable flt f" "openable flt x" and room: "length (content (wfile (writer s))) < 2 ^ 62"
  shows "\<exists>m s'. m \<le> length recs
    \<and> (\<forall>k \<le> length recs. durable cs (take k recs) (wfile (writer s)) \<longrightarrow> k \<le> m \<and> durable cs (take k recs) (wfile (writer s')))
    \<and> NewSegment flt disk mtime now dir (baseOffset s) cs = Some (without [name, indexFileName name] disk, Inr s')
    \<and> seg_inv cs (take m recs) s' \<and> seg_at dir s' \<and> baseOffset s' = baseOffset s
    \<and> syncErr (writer s') = None \<and> readers s' = 0"
proof -
  obtain b k where w: "wal_inv recs b k (writer s)" "wcsum (writer s) = cs" "store_file_ok (wstore (writer s))"
    using inv by (auto simp: seg_inv_def)
  define st where "st = \<lparr>offsets = [], positions = [], index = Map.empty, indexFile = x, seen = 0, nthIndex = NthIndex\<rparr>"
  have st: "NewInMemoryStore flt x False NthIndex = Inr st" "content (indexFile st) = content x"
    "recoverable flt (indexFile st)" "recoverable flt f" "flt (SysOpen (fname f)) = None"
    using flt by (auto simp: NewInMemoryStore_def st_def openable_def)
  obtain m w' where m: "m \<le> length recs"
    "\<forall>k \<le> length recs. durable cs (take k recs) (wfile (writer s)) \<longrightarrow> k \<le> m \<and> durable cs (take k recs) (wfile w')"
    and rc: "recover flt (fresh_writer f cs st) = Some (w', None)" "wal_inv (take m recs) m 0 w'"
    "wcsum w' = cs" "\<not> syncing w'" "syncErr w' = None" "store_file_ok (wstore w')"
    using crash_recovery [OF w cr(1,3) st(2,4,3) room] by blast
  note fn = recover_fname [OF rc(1)]
  have fn': "fname (wfile w') = fname f" "fname (indexFile (wstore w')) = fname x"
    using fn by (simp_all add: fresh_writer_def st_def)
  let ?s = "\<lparr>baseOffset = baseOffset s, writer = w', sreader = \<lparr>roffset = 0, rcsum = cs\<rparr>, path = filepath_Join dir name,
      lastAppend = (case mtime of Some t \<Rightarrow> t | None \<Rightarrow> now), readers = 0\<rparr>"
  have "NewSegment flt disk mtime now dir (baseOffset s) cs = Some (without [name, indexFileName name] disk, Inr ?s)"
    using d st NewWalWriter_recover [OF rc(1) flt(1), of False] fn'
    by (simp add: NewSegment_def n [symmetric] open_file_def NewWALReader_def)
  moreover have "fname f = fname (wfile (writer s))" using cr(1) by (simp add: crashed_def)
  then have "seg_at dir ?s" using inv(2) fn' cr(2) n by (simp add: seg_at_def)
  moreover have "seg_inv cs (take m recs) ?s" using rc inv(1) m(1) by (auto simp: seg_inv_def)
  ultimately show ?thesis using m rc(5) by (intro exI [of _ m] exI [of _ ?s]) simp
qed

text \<open>Closing keeps the records and, when it succeeds, has made them durable.\<close>

lemma seg_Close_ok:
  assumes inv: "seg_inv cs recs s" and err: "syncErr (writer s) = None"
    and fl: "flt (SysSync (fname (wfile (writer s)))) = None" "flt (SysClose (fname (wfile (writer s)))) = None"
      "flt (SysClose (fname (indexFile (wstore (fst (writer_Close flt (writer s))))))) = None"
  shows "\<exists>s'. seg_Close flt s = (s', None) \<and> (\<exists>b k. wal_inv recs b k (writer s') \<and> b + k = length recs)"
proof -
  obtain b k where w: "wal_inv recs b k (writer s)" "wcsum (writer s) = cs" using inv by (auto simp: seg_inv_def)
  obtain w' where w': "writer_Close flt (writer s) = (w', None)" "wal_inv recs b (length recs - b) w'"
    using writer_Close_ok [OF w err fl(1,2)] by blast
  have "b + (length recs - b) = length recs" using w(1) by (simp add: wal_inv_def)
  then show ?thesis
    using w' fl by (auto simp: seg_Close_def Let_def reader_Close_def store_Close_def file_Close_def)
qed

end

end
