(* ===== verification/Manager.thy ===== *)
theory Manager
  imports Segment
begin

text \<open>
  The segmented log, \<open>internal/segment/manager.go\<close>: opening a directory, appending with rolls to
  new segments, routing reads by offset, time-based retention, closing.

  \<open>mgr_inv\<close> relates a manager to the offset of its first record and the records of its segments.
  The lemmas show that every operation refines the same operation on one list of records.
\<close>

section \<open>Configuration and state\<close>

text \<open>Durations and times are nanoseconds. The clock is an argument of the operations that read it.\<close>

definition DefaultMaxSegmentBytes :: int where "DefaultMaxSegmentBytes = 2 ^ 30"
definition DefaultRetention :: int where "DefaultRetention = 7 * 24 * 3600 * 10 ^ 9"
definition DefaultCheckInterval :: int where "DefaultCheckInterval = 60 * 10 ^ 9"

record Config =
  Dir :: string
  MaxSegmentBytes :: int
  Retention :: int
  CheckInterval :: int
  MaxDeletesPerRun :: int
  DisableRetention :: bool
  cfgChecksum :: "checksum option"

record RetentionMetrics =
  SegmentsDeleted :: int
  BytesReclaimed :: int
  DeleteErrors :: int
  Runs :: int
  LastRunUnixNano :: int

definition zero_metrics :: RetentionMetrics where
  "zero_metrics = \<lparr>SegmentsDeleted = 0, BytesReclaimed = 0, DeleteErrors = 0, Runs = 0, LastRunUnixNano = 0\<rparr>"

text \<open>\<open>mdisk\<close> are the files of the directory that no live segment has open; \<open>stopped\<close> says that the
  \<open>stop\<close> channel is closed.\<close>

record manager =
  cfg :: Config
  segments :: "segment list"
  Metrics :: RetentionMetrics
  mdisk :: disk
  stopped :: bool

section \<open>Opening\<close>

definition with_defaults :: "Config \<Rightarrow> Config" where
  "with_defaults c =
     (let c1 = (if MaxSegmentBytes c \<le> 0 then c\<lparr>MaxSegmentBytes := DefaultMaxSegmentBytes\<rparr> else c);
          c2 = (if Retention c1 \<le> 0 then c1\<lparr>Retention := DefaultRetention\<rparr> else c1);
          c3 = (if CheckInterval c2 \<le> 0 then c2\<lparr>CheckInterval := DefaultCheckInterval\<rparr> else c2) in
      if cfgChecksum c3 = None then c3\<lparr>cfgChecksum := Some NewCRC32C\<rparr> else c3)"

definition cfg_csum :: "Config \<Rightarrow> checksum" where
  "cfg_csum c = the (cfgChecksum c)"

text \<open>The loop of \<open>discoverBaseOffsets\<close> over the entries of the directory: names, and whether each is
  a directory.\<close>

fun parse_bases :: "(string \<times> bool) list \<Rightarrow> u64 list" where
  "parse_bases [] = []"
| "parse_bases ((name, isDir) # es) =
     (if isDir \<or> \<not> HasSuffix name segmentSuffix then parse_bases es
      else case ParseUint (TrimSuffix name segmentSuffix) of
        None \<Rightarrow> parse_bases es
      | Some base \<Rightarrow> base # parse_bases es)"

definition discoverBaseOffsets :: "faults \<Rightarrow> string \<Rightarrow> (string \<times> bool) list \<Rightarrow> goerror + u64 list" where
  "discoverBaseOffsets flt dir es =
     (case flt (SysReadDir dir) of
        Some (msg, _) \<Rightarrow> Inl (Wrap (''segment: read dir '' @ fmt_q dir) (OsError msg))
      | None \<Rightarrow> Inr (sort (parse_bases es)))"

text \<open>The loop of \<open>Open\<close> that reopens the segments. An error closes those already open.
  \<open>mts\<close> gives the modification times of files.\<close>

fun open_all ::
  "faults \<Rightarrow> (string \<Rightarrow> int option) \<Rightarrow> int \<Rightarrow> Config \<Rightarrow> disk \<Rightarrow> segment list \<Rightarrow> u64 list \<Rightarrow>
     (goerror + disk \<times> segment list) option" where
  "open_all flt mts now c disk segs [] = Some (Inr (disk, segs))"
| "open_all flt mts now c disk segs (base # bases) =
     (case NewSegment flt disk (mts (SegmentFileName base)) now (Dir c) base (cfg_csum c) of
        None \<Rightarrow> None
      | Some (_, Inl e) \<Rightarrow> Some (Inl e)
      | Some (disk', Inr seg) \<Rightarrow> open_all flt mts now c disk' (segs @ [seg]) bases)"

text \<open>\<open>Open\<close> of the directory with the files \<open>disk\<close> and the subdirectories \<open>subdirs\<close>. Two file names
  that denote the same base offset would share a file; the model opens directories without such pairs.\<close>

definition Open ::
  "faults \<Rightarrow> (string \<Rightarrow> int option) \<Rightarrow> int \<Rightarrow> disk \<Rightarrow> string list \<Rightarrow> Config \<Rightarrow> (goerror + manager) option" where
  "Open flt mts now disk subdirs c0 =
     (let c = with_defaults c0;
          mk = (\<lambda>(disk', segs). \<lparr>cfg = c, segments = segs, Metrics = zero_metrics, mdisk = disk', stopped = False\<rparr>) in
      case flt (SysMkdir (Dir c)) of
        Some (msg, _) \<Rightarrow> Some (Inl (Wrap (''segment: mkdir '' @ fmt_q (Dir c)) (OsError msg)))
      | None \<Rightarrow>
          (case discoverBaseOffsets flt (Dir c) (map (\<lambda>(n, _). (n, False)) disk @ map (\<lambda>n. (n, True)) subdirs) of
             Inl e \<Rightarrow> Some (Inl e)
           | Inr bases \<Rightarrow>
               (case open_all flt mts now c disk [] (if bases = [] then [0] else bases) of
                  None \<Rightarrow> None
                | Some (Inl e) \<Rightarrow> Some (Inl e)
                | Some (Inr ds) \<Rightarrow> Some (Inr (mk ds)))))"

section \<open>Appending\<close>

definition active :: "manager \<Rightarrow> segment" where
  "active m = last (segments m)"

definition set_active :: "manager \<Rightarrow> segment \<Rightarrow> manager" where
  "set_active m s = m\<lparr>segments := butlast (segments m) @ [s]\<rparr>"

definition roll :: "faults \<Rightarrow> (string \<Rightarrow> int option) \<Rightarrow> int \<Rightarrow> manager \<Rightarrow> (manager \<times> goerror option) option" where
  "roll flt mts now m =
     (let nextBase = seg_NextOffset (active m) in
      case NewSegment flt (mdisk m) (mts (SegmentFileName nextBase)) now (Dir (cfg m)) nextBase (cfg_csum (cfg m)) of
        None \<Rightarrow> None
      | Some (disk', Inl e) \<Rightarrow>
          Some (m\<lparr>mdisk := disk'\<rparr>, Some (Wrap (''segment: roll to base '' @ dec (unat nextBase)) e))
      | Some (disk', Inr seg) \<Rightarrow> Some (m\<lparr>mdisk := disk', segments := segments m @ [seg]\<rparr>, None))"

text \<open>Phase 1 of \<open>Append\<close>, under the manager's lock: roll if the active segment is full, then reserve.
  The result is the base offset of the segment, the local offset and the sequence number.\<close>

definition append_reserve ::
  "faults \<Rightarrow> (string \<Rightarrow> int option) \<Rightarrow> int \<Rightarrow> manager \<Rightarrow> bytes \<Rightarrow> (manager \<times> (goerror + u64 \<times> u64 \<times> u64)) option" where
  "append_reserve flt mts now m data =
     (case (if seg_Size (active m) \<ge> MaxSegmentBytes (cfg m) then roll flt mts now m else Some (m, None)) of
        None \<Rightarrow> None
      | Some (m1, Some e) \<Rightarrow> Some (m1, Inl e)
      | Some (m1, None) \<Rightarrow>
          (case seg_reserve flt (active m1) data now of
             (seg, Inl e) \<Rightarrow> Some (set_active m1 seg, Inl e)
           | (seg, Inr (localOffset, seq)) \<Rightarrow> Some (set_active m1 seg, Inr (BaseOffset seg, localOffset, seq))))"

text \<open>\<open>Append\<close> with no other goroutine between its phases: the segment to commit is still the active one.\<close>

definition Append ::
  "faults \<Rightarrow> (string \<Rightarrow> int option) \<Rightarrow> int \<Rightarrow> manager \<Rightarrow> bytes \<Rightarrow> (manager \<times> (goerror + u64)) option" where
  "Append flt mts now m data =
     (case append_reserve flt mts now m data of
        None \<Rightarrow> None
      | Some (m1, Inl e) \<Rightarrow> Some (m1, Inl e)
      | Some (m1, Inr (base, localOffset, seq)) \<Rightarrow>
          (case seg_commit flt (active m1) seq of
             None \<Rightarrow> None
           | Some (seg, Some e) \<Rightarrow> Some (set_active m1 seg, Inl e)
           | Some (seg, None) \<Rightarrow> Some (set_active m1 seg, Inr (base + localOffset))))"

section \<open>Reading\<close>

text \<open>\<open>segmentFor\<close>: the position of the segment that owns the offset.\<close>

definition segmentFor :: "segment list \<Rightarrow> u64 \<Rightarrow> nat option" where
  "segmentFor segs off =
     (let i = sort_Search (length segs) (\<lambda>i. BaseOffset (segs ! i) > off) in
      if i = 0 then None
      else if \<not> Contains (segs ! (i - 1)) off then None
      else Some (i - 1))"

text \<open>The part of \<open>ReadAt\<close> under the lock, and what it returns when no segment owns the offset.\<close>

definition read_begin :: "manager \<Rightarrow> u64 \<Rightarrow> manager \<times> nat option \<times> u64" where
  "read_begin m off =
     (case segmentFor (segments m) off of
        None \<Rightarrow> (m, None, BaseOffset (segments m ! 0))
      | Some i \<Rightarrow> (m\<lparr>segments := (segments m)[i := acquireRead (segments m ! i)]\<rparr>, Some i, BaseOffset (segments m ! 0)))"

definition read_miss :: "u64 \<Rightarrow> u64 \<Rightarrow> goerror" where
  "read_miss off earliest = (if off < earliest then OffsetOutOfRetentionError off earliest else EOF)"

definition ReadAt :: "faults \<Rightarrow> manager \<Rightarrow> u64 \<Rightarrow> manager \<times> (goerror + bytes)" where
  "ReadAt flt m off =
     (case read_begin m off of
        (m1, None, earliest) \<Rightarrow> (m1, Inl (read_miss off earliest))
      | (m1, Some i, _) \<Rightarrow>
          (m1\<lparr>segments := (segments m1)[i := releaseRead (segments m1 ! i)]\<rparr>, seg_ReadAt flt (segments m1 ! i) off))"

definition mgr_NextOffset :: "manager \<Rightarrow> u64" where
  "mgr_NextOffset m = seg_NextOffset (active m)"

definition EarliestOffset :: "manager \<Rightarrow> u64" where
  "EarliestOffset m = BaseOffset (segments m ! 0)"

definition SegmentCount :: "manager \<Rightarrow> nat" where
  "SegmentCount m = length (segments m)"

section \<open>Retention\<close>

text \<open>The loop that collects the victims; the last segment is never one.\<close>

fun victims :: "int \<Rightarrow> int \<Rightarrow> nat \<Rightarrow> segment list \<Rightarrow> segment list" where
  "victims cutoff limit n (seg # seg' # segs) =
     (if LastAppend seg > cutoff then []
      else if limit > 0 \<and> int n \<ge> limit then []
      else seg # victims cutoff limit (n + 1) (seg' # segs))"
| "victims cutoff limit n segs = []"

text \<open>Phase A: count the run, choose the victims and detach them. The clock is read twice.\<close>

definition retention_detach :: "int \<Rightarrow> int \<Rightarrow> manager \<Rightarrow> manager \<times> segment list" where
  "retention_detach now now' m =
     (let m1 = m\<lparr>Metrics := (Metrics m)\<lparr>Runs := int64 (Runs (Metrics m) + 1), LastRunUnixNano := int64 now\<rparr>\<rparr>;
          cutoff = now' - Retention (cfg m);
          vs = victims cutoff (MaxDeletesPerRun (cfg m)) 0 (segments m) in
      (m1\<lparr>segments := drop (length vs) (segments m)\<rparr>, vs))"

definition delete_error :: "manager \<Rightarrow> manager" where
  "delete_error m = m\<lparr>Metrics := (Metrics m)\<lparr>DeleteErrors := int64 (DeleteErrors (Metrics m) + 1)\<rparr>\<rparr>"

text \<open>The files of a segment, by name.\<close>

definition log_entry :: "segment \<Rightarrow> string \<times> os_file" where
  "log_entry s = (SegmentFileName (baseOffset s), wfile (writer s))"

definition index_file_entry :: "segment \<Rightarrow> string \<times> os_file" where
  "index_file_entry s = (indexFileName (SegmentFileName (baseOffset s)), indexFile (wstore (writer s)))"

definition os_IsNotExist :: "string \<Rightarrow> bool" where
  "os_IsNotExist msg \<longleftrightarrow> msg = ''no such file or directory''"

text \<open>Phase B for one victim: wait for its readers (\<open>None\<close> while there are some), close, remove. Files that
  could not be removed stay in the directory.\<close>

definition delete_victim :: "faults \<Rightarrow> segment \<Rightarrow> manager \<Rightarrow> manager option" where
  "delete_victim flt seg m =
     (case waitReaders seg of
        None \<Rightarrow> None
      | Some _ \<Rightarrow>
          (let size = seg_Size seg in
           case seg_Close flt seg of
             (seg', Some e) \<Rightarrow> Some (delete_error (m\<lparr>mdisk := log_entry seg' # index_file_entry seg' # mdisk m\<rparr>))
           | (seg', None) \<Rightarrow>
               (case flt (SysRemove (path seg')) of
                  Some _ \<Rightarrow> Some (delete_error (m\<lparr>mdisk := log_entry seg' # index_file_entry seg' # mdisk m\<rparr>))
                | None \<Rightarrow>
                    let m1 = (case flt (SysRemove (IndexPath seg')) of
                        Some (msg, _) \<Rightarrow>
                          if os_IsNotExist msg then m else delete_error (m\<lparr>mdisk := index_file_entry seg' # mdisk m\<rparr>)
                      | None \<Rightarrow> m) in
                    Some (m1\<lparr>Metrics := (Metrics m1)\<lparr>SegmentsDeleted := int64 (SegmentsDeleted (Metrics m1) + 1),
                              BytesReclaimed := int64 (BytesReclaimed (Metrics m1) + size)\<rparr>\<rparr>))))"

fun delete_all :: "faults \<Rightarrow> segment list \<Rightarrow> manager \<Rightarrow> manager option" where
  "delete_all flt [] m = Some m"
| "delete_all flt (seg # segs) m =
     (case delete_victim flt seg m of None \<Rightarrow> None | Some m1 \<Rightarrow> delete_all flt segs m1)"

definition RunRetention :: "faults \<Rightarrow> int \<Rightarrow> int \<Rightarrow> manager \<Rightarrow> manager option" where
  "RunRetention flt now now' m = (let (m1, vs) = retention_detach now now' m in delete_all flt vs m1)"

text \<open>The background goroutine: what it receives from the ticker and the \<open>stop\<close> channel, in order. Each
  tick carries the two clock readings of its pass.\<close>

datatype retention_event = Stop | Tick int int

fun retentionLoop :: "faults \<Rightarrow> retention_event list \<Rightarrow> manager \<Rightarrow> manager option" where
  "retentionLoop flt [] m = Some m"
| "retentionLoop flt (Stop # es) m = Some m"
| "retentionLoop flt (Tick now now' # es) m =
     (case RunRetention flt now now' m of None \<Rightarrow> None | Some m1 \<Rightarrow> retentionLoop flt es m1)"

section \<open>Closing\<close>

fun closeAll :: "faults \<Rightarrow> goerror option \<Rightarrow> segment list \<Rightarrow> segment list \<times> goerror option" where
  "closeAll flt firstErr [] = ([], firstErr)"
| "closeAll flt firstErr (seg # segs) =
     (let (seg', err) = seg_Close flt seg;
          (segs', res) = closeAll flt (if err \<noteq> None \<and> firstErr = None then err else firstErr) segs in
      (seg' # segs', res))"

definition mgr_Close :: "faults \<Rightarrow> manager \<Rightarrow> manager \<times> goerror option" where
  "mgr_Close flt m =
     (let (segs, err) = closeAll flt None (segments m) in (m\<lparr>stopped := True, segments := segs\<rparr>, err))"

section \<open>Invariant\<close>

text \<open>The base offsets of consecutive segments, the first of them at \<open>n\<close>.\<close>

fun starts :: "nat \<Rightarrow> bytes list list \<Rightarrow> nat list" where
  "starts n [] = []"
| "starts n (rs # rss) = n # starts (n + length rs) rss"

text \<open>
  The manager holds the records \<open>concat rss\<close> at the offsets from \<open>n\<close> on. Only the active segment may be
  empty, and the directory has no file of a later segment.
\<close>

definition mgr_inv :: "checksum \<Rightarrow> nat \<Rightarrow> bytes list list \<Rightarrow> manager \<Rightarrow> bool" where
  "mgr_inv cs n rss m \<longleftrightarrow>
     segments m \<noteq> [] \<and> list_all2 (\<lambda>rs s. seg_inv cs rs s \<and> seg_at (Dir (cfg m)) s) rss (segments m)
     \<and> map (\<lambda>s. unat (baseOffset s)) (segments m) = starts n rss
     \<and> [] \<notin> set (butlast rss) \<and> cfgChecksum (cfg m) = Some cs \<and> 0 < MaxSegmentBytes (cfg m)
     \<and> (\<forall>base. n + length (concat rss) \<le> unat base \<longrightarrow>
          vacant (mdisk m) (Dir (cfg m)) (SegmentFileName base)
          \<and> vacant (mdisk m) (Dir (cfg m)) (indexFileName (SegmentFileName base)))"

lemma length_starts [simp]: "length (starts n rss) = length rss"
  by (induction rss arbitrary: n) simp_all

lemma starts_nth: "i < length rss \<Longrightarrow> starts n rss ! i = n + length (concat (take i rss))"
proof (induction rss arbitrary: n i)
  case (Cons rs rss)
  then show ?case by (cases i) (simp_all add: add.assoc)
qed simp

lemma starts_append: "starts n (rss @ rss') = starts n rss @ starts (n + length (concat rss)) rss'"
  by (induction rss arbitrary: n) (simp_all add: add.assoc)

lemma concat_take_mono: "i \<le> j \<Longrightarrow> length (concat (take i rss)) \<le> length (concat (take j rss))"
  by (metis append_take_drop_id concat_append le_add1 length_append min.absorb1 take_take)

lemma concat_take_le: "length (concat (take i rss)) \<le> length (concat rss)"
  by (metis append_take_drop_id concat_append le_add1 length_append)

lemma concat_nth_in:
  assumes "i < length rss" "length (concat (take i rss)) \<le> j" "j < length (concat (take i rss)) + length (rss ! i)"
  shows "concat rss ! j = rss ! i ! (j - length (concat (take i rss)))"
proof -
  obtain xs r ys where "rss = xs @ r # ys" "length xs = i"
    using id_take_nth_drop [OF assms(1)] assms(1) by (metis length_take min.absorb4)
  then show ?thesis using assms(2,3) by (auto simp: nth_append)
qed

text \<open>What the invariant says of segment \<open>i\<close>.\<close>

lemma mgr_inv_seg:
  assumes "mgr_inv cs n rss m" "i < length (segments m)"
  shows "seg_inv cs (rss ! i) (segments m ! i)" "seg_at (Dir (cfg m)) (segments m ! i)"
    "unat (baseOffset (segments m ! i)) = n + length (concat (take i rss))"
proof -
  have l: "length rss = length (segments m)" and b: "map (\<lambda>s. unat (baseOffset s)) (segments m) = starts n rss"
    using assms(1) by (auto simp: mgr_inv_def dest: list_all2_lengthD)
  show "seg_inv cs (rss ! i) (segments m ! i)" "seg_at (Dir (cfg m)) (segments m ! i)"
    using assms l by (auto simp: mgr_inv_def list_all2_conv_all_nth)
  have "map (\<lambda>s. unat (baseOffset s)) (segments m) ! i = starts n rss ! i" using b by simp
  then show "unat (baseOffset (segments m ! i)) = n + length (concat (take i rss))"
    using assms(2) l by (simp add: starts_nth)
qed

lemma mgr_inv_length: "mgr_inv cs n rss m \<Longrightarrow> length rss = length (segments m)"
  by (auto simp: mgr_inv_def dest: list_all2_lengthD)

lemma mgr_inv_bounds:
  assumes "mgr_inv cs n rss m"
  shows "unat (EarliestOffset m) = n" "unat (mgr_NextOffset m) = n + length (concat rss)"
    "n + length (concat rss) < 2 ^ 64"
proof -
  let ?k = "length (segments m) - 1"
  have k: "?k < length (segments m)" "0 < length (segments m)" using assms by (auto simp: mgr_inv_def)
  have l: "length rss = length (segments m)" by (rule mgr_inv_length [OF assms])
  show "unat (EarliestOffset m) = n"
    using mgr_inv_seg(3) [OF assms k(2)] by (simp add: EarliestOffset_def BaseOffset_def)
  have a: "active m = segments m ! ?k" using k by (simp add: active_def last_conv_nth)
  have "take (Suc ?k) rss = rss" using k l by simp
  then have "concat (take ?k rss) @ rss ! ?k = concat rss"
    using take_Suc_conv_app_nth [of ?k rss] k(1) l by (metis concat.simps concat_append append_Nil2)
  from arg_cong [OF this, of length] have e: "length (concat (take ?k rss)) + length (rss ! ?k) = length (concat rss)"
    by simp
  show "unat (mgr_NextOffset m) = n + length (concat rss)"
    using seg_inv_next [OF mgr_inv_seg(1) [OF assms k(1)]] mgr_inv_seg(3) [OF assms k(1)] e a
    by (simp add: mgr_NextOffset_def)
  then show "n + length (concat rss) < 2 ^ 64" using unat_u64_less [of "mgr_NextOffset m"] by simp
qed

section \<open>Reads\<close>

text \<open>Routing: the segment found is the one that holds the offset.\<close>

lemma segmentFor_spec:
  assumes inv: "mgr_inv cs n rss m"
  shows "segmentFor (segments m) off =
    (if n \<le> unat off \<and> unat off < n + length (concat rss)
     then Some (sort_Search (length (segments m)) (\<lambda>i. BaseOffset (segments m ! i) > off) - 1) else None)"
    and "segmentFor (segments m) off = Some i \<Longrightarrow> i < length (segments m)
      \<and> n + length (concat (take i rss)) \<le> unat off \<and> unat off < n + length (concat (take i rss)) + length (rss ! i)"
proof -
  let ?P = "\<lambda>i. BaseOffset (segments m ! i) > off" and ?N = "length (segments m)"
  have l: "length rss = ?N" by (rule mgr_inv_length [OF inv])
  have base: "?P i \<longleftrightarrow> unat off < n + length (concat (take i rss))" if "i < ?N" for i
    using mgr_inv_seg(3) [OF inv that] by (simp add: BaseOffset_def word_less_nat_alt)
  have mono: "\<forall>a b. a \<le> b \<longrightarrow> b < ?N \<longrightarrow> ?P a \<longrightarrow> ?P b"
  proof (intro allI impI)
    fix a b assume "a \<le> b" "b < ?N" "?P a"
    then show "?P b" using base [of a] base [of b] concat_take_mono [of a b rss] by linarith
  qed
  define k where "k = sort_Search ?N ?P"
  have k: "k \<le> ?N" "\<And>i. i < k \<Longrightarrow> \<not> ?P i" "\<And>i. k \<le> i \<Longrightarrow> i < ?N \<Longrightarrow> ?P i"
    unfolding k_def by (rule sort_Search_spec [OF mono], rule sort_Search_spec(2) [OF mono], assumption,
        rule sort_Search_spec(3) [OF mono])
  have con: "Contains (segments m ! i) off \<longleftrightarrow> n + length (concat (take i rss)) \<le> unat off
      \<and> unat off < n + length (concat (take i rss)) + length (rss ! i)" if "i < ?N" for i
    using Contains_iff [OF mgr_inv_seg(1) [OF inv that]] mgr_inv_seg(3) [OF inv that] by simp
  have eq: "segmentFor (segments m) off =
      (if k = 0 then None else if \<not> Contains (segments m ! (k - 1)) off then None else Some (k - 1))"
    by (simp add: segmentFor_def Let_def k_def)
  have suc: "length (concat (take (Suc i) rss)) = length (concat (take i rss)) + length (rss ! i)" if "i < ?N" for i
    using that l by (simp add: take_Suc_conv_app_nth)
  have in_range: "Contains (segments m ! (k - 1)) off \<longleftrightarrow> unat off < n + length (concat rss)" if "k \<noteq> 0"
  proof -
    have i: "k - 1 < ?N" using that k(1) by simp
    have lo: "n + length (concat (take (k - 1) rss)) \<le> unat off"
      using k(2) [of "k - 1"] base [OF i] that by simp
    have hi: "unat off < n + length (concat (take k rss)) \<longleftrightarrow> unat off < n + length (concat rss)"
    proof (cases "k < ?N")
      case True
      then show ?thesis using k(3) [of k] base [of k] concat_take_le [of k rss] by linarith
    next
      case False
      then show ?thesis using k(1) l by simp
    qed
    show ?thesis using con [OF i] lo hi suc [OF i] that by (simp add: add.assoc)
  qed
  have "k = 0 \<longleftrightarrow> unat off < n"
    using k(2) [of 0] k(3) [of 0] base [of 0] inv by (auto simp: mgr_inv_def)
  then show "segmentFor (segments m) off =
      (if n \<le> unat off \<and> unat off < n + length (concat rss) then Some (sort_Search ?N ?P - 1) else None)"
    using eq in_range unfolding k_def [symmetric] by (cases "k = 0") auto
  show "segmentFor (segments m) off = Some i \<Longrightarrow> i < ?N
      \<and> n + length (concat (take i rss)) \<le> unat off \<and> unat off < n + length (concat (take i rss)) + length (rss ! i)"
    using eq con [of i] k(1) by (auto split: if_splits)
qed

lemma search_loop_le: "i \<le> j \<Longrightarrow> search_loop f i j \<le> j"
  by (induction f i j rule: search_loop.induct) (subst search_loop.simps, fastforce simp: Let_def)

lemma segmentFor_less: "segmentFor segs off = Some i \<Longrightarrow> i < length segs"
  using search_loop_le [of 0 "length segs" "\<lambda>i. BaseOffset (segs ! i) > off"]
  by (auto simp: segmentFor_def Let_def sort_Search_def split: if_splits)

lemma ReadAt_state: "fst (ReadAt flt m off) = m"
proof -
  have "readers (acquireRead s) - 1 = readers s" for s by (simp add: acquireRead_def)
  then have "releaseRead (acquireRead s) = s" for s by (simp add: releaseRead_def acquireRead_def)
  moreover have "i < length (segments m)" if "segmentFor (segments m) off = Some i" for i
    using that by (rule segmentFor_less)
  ultimately show ?thesis
    by (auto simp: ReadAt_def read_begin_def split: option.splits)
qed

text \<open>The three results of a read.\<close>

context checksum_alg
begin

lemma ReadAt_spec:
  assumes inv: "mgr_inv cs n rss m" and rd: "\<forall>f p. flt (SysReadAt f p) = None"
  shows "snd (ReadAt flt m off) =
    (if unat off < n then Inl (OffsetOutOfRetentionError off (of_nat n))
     else if unat off < n + length (concat rss) then Inr (concat rss ! (unat off - n))
     else Inl EOF)"
proof (cases "segmentFor (segments m) off")
  case None
  then have "\<not> (n \<le> unat off \<and> unat off < n + length (concat rss))"
    using segmentFor_spec(1) [OF inv, of off] by (auto split: if_splits)
  moreover have "BaseOffset (segments m ! 0) = of_nat n"
    unfolding mgr_inv_bounds(1) [OF inv, symmetric] by (simp add: EarliestOffset_def)
  moreover have "n < 2 ^ 64" using mgr_inv_bounds(3) [OF inv] by simp
  ultimately show ?thesis
    using None by (auto simp: ReadAt_def read_begin_def read_miss_def word_less_nat_alt unat_of_nat)
next
  case (Some i)
  note i = segmentFor_spec(2) [OF inv Some]
  have "n \<le> unat off" "unat off < n + length (concat rss)"
    using Some segmentFor_spec(1) [OF inv, of off] by (auto split: if_splits)
  moreover have "seg_ReadAt flt (segments m ! i) off = Inr (rss ! i ! (unat off - (n + length (concat (take i rss)))))"
    using seg_ReadAt_hit [OF mgr_inv_seg(1) [OF inv], of i flt off] i mgr_inv_seg(3) [OF inv, of i] rd
    by (simp add: readable_def)
  moreover have "seg_ReadAt flt (acquireRead s) off = seg_ReadAt flt s off" for s
    by (simp add: seg_ReadAt_def acquireRead_def)
  moreover have "concat rss ! (unat off - n) = rss ! i ! (unat off - n - length (concat (take i rss)))"
    using concat_nth_in [of i rss "unat off - n"] i mgr_inv_length [OF inv] by auto
  ultimately show ?thesis
    using Some i by (simp add: ReadAt_def read_begin_def)
qed

end

section \<open>Appends\<close>

text \<open>Failed writes store nothing.\<close>

definition atomic_writes :: "faults \<Rightarrow> bool" where
  "atomic_writes flt \<longleftrightarrow> (\<forall>f. atomic_append flt f)"

lemma list_all2_snoc [simp]: "list_all2 P (xs @ [x]) (ys @ [y]) \<longleftrightarrow> list_all2 P xs ys \<and> P x y"
  using list_all2_rev [of P "xs @ [x]" "ys @ [y]"] list_all2_rev [of P xs ys] by auto

text \<open>The active segment is the one the last list of records describes.\<close>

lemma mgr_inv_split:
  "mgr_inv cs n (rss @ [rs]) m \<longleftrightarrow>
     (\<exists>segs s. segments m = segs @ [s] \<and> seg_inv cs rs s \<and> seg_at (Dir (cfg m)) s
       \<and> unat (baseOffset s) = n + length (concat rss)
       \<and> list_all2 (\<lambda>rs s. seg_inv cs rs s \<and> seg_at (Dir (cfg m)) s) rss segs
       \<and> map (\<lambda>s. unat (baseOffset s)) segs = starts n rss
       \<and> [] \<notin> set rss \<and> cfgChecksum (cfg m) = Some cs \<and> 0 < MaxSegmentBytes (cfg m)
       \<and> (\<forall>base. n + length (concat (rss @ [rs])) \<le> unat base \<longrightarrow>
            vacant (mdisk m) (Dir (cfg m)) (SegmentFileName base)
            \<and> vacant (mdisk m) (Dir (cfg m)) (indexFileName (SegmentFileName base))))"
proof (cases "segments m" rule: rev_cases)
  case Nil
  then show ?thesis by (simp add: mgr_inv_def)
next
  case (snoc segs s)
  show ?thesis unfolding mgr_inv_def snoc starts_append by auto
qed

lemma mgr_inv_nonempty: "mgr_inv cs n rss m \<Longrightarrow> rss \<noteq> []"
  by (auto simp: mgr_inv_def)

lemma mgr_invE:
  assumes "mgr_inv cs n rss m"
  obtains rss0 rs where "rss = rss0 @ [rs]" "mgr_inv cs n (rss0 @ [rs]) m"
  using assms mgr_inv_nonempty [OF assms] by (metis rev_exhaust)

text \<open>Replacing the active segment.\<close>

lemma mgr_inv_set_active:
  assumes "mgr_inv cs n (rss @ [rs]) m" "seg_inv cs rs' s" "seg_at (Dir (cfg m)) s"
    "baseOffset s = baseOffset (active m)" "length rs \<le> length rs'"
  shows "mgr_inv cs n (rss @ [rs']) (set_active m s)"
  using assms by (auto simp: mgr_inv_split set_active_def active_def)

lemma active_set_active [simp]: "active (set_active m s) = s" "cfg (set_active m s) = cfg m"
  by (simp_all add: active_def set_active_def)

lemma mgr_inv_active:
  assumes "mgr_inv cs n (rss @ [rs]) m"
  shows "seg_inv cs rs (active m)" "seg_at (Dir (cfg m)) (active m)"
    "unat (baseOffset (active m)) = n + length (concat rss)" "cfg_csum (cfg m) = cs"
  using assms by (auto simp: mgr_inv_split active_def cfg_csum_def)

text \<open>The manager holds the records \<open>recs\<close> from offset \<open>n\<close> on, in some division into segments.\<close>

definition holds :: "checksum \<Rightarrow> nat \<Rightarrow> bytes list \<Rightarrow> manager \<Rightarrow> bool" where
  "holds cs n recs m \<longleftrightarrow> (\<exists>rss. mgr_inv cs n rss m \<and> concat rss = recs)"

text \<open>The next record goes to the active segment, or to a new one after a roll; the others are as before.\<close>

definition continues ::
  "bytes list list \<Rightarrow> bytes list \<Rightarrow> manager \<Rightarrow> bytes list list \<Rightarrow> bytes list \<Rightarrow> manager \<Rightarrow> bool" where
  "continues rss rs m rss' rs' m' \<longleftrightarrow>
     rss' = rss \<and> rs' = rs \<and> butlast (segments m') = butlast (segments m)
     \<or> rss' = rss @ [rs] \<and> rs' = [] \<and> butlast (segments m') = segments m"

context checksum_alg
begin

text \<open>A roll starts an empty segment at the next offset, or fails and changes no segment.\<close>

lemma roll_any:
  assumes inv: "mgr_inv cs n (rss @ [rs]) m" and ne: "rs \<noteq> []" and r: "roll flt mts now m = Some (m', e)"
  shows "cfg m' = cfg m \<and> (case e of Some _ \<Rightarrow> mgr_inv cs n (rss @ [rs]) m' \<and> segments m' = segments m
    | None \<Rightarrow> mgr_inv cs n (rss @ [rs] @ [[]]) m' \<and> butlast (segments m') = segments m
        \<and> syncErr (writer (active m')) = None)"
proof -
  let ?b = "seg_NextOffset (active m)" and ?d = "Dir (cfg m)"
  note act = mgr_inv_active [OF inv]
  have b: "unat ?b = n + length (concat (rss @ [rs]))" using seg_inv_next [OF act(1)] act(3) by simp
  have vac: "vacant (mdisk m) ?d (SegmentFileName ?b)" "vacant (mdisk m) ?d (indexFileName (SegmentFileName ?b))"
    using inv b by (auto simp: mgr_inv_def)
  show ?thesis
  proof (cases e)
    case (Some err)
    then obtain d' e' where N: "NewSegment flt (mdisk m) (mts (SegmentFileName ?b)) now ?d ?b cs = Some (d', Inl e')"
      and m': "m' = m\<lparr>mdisk := d'\<rparr>"
      using r act(4) by (auto simp: roll_def Let_def split: option.splits prod.splits sum.splits)
    then show ?thesis using NewSegment_fails [OF vac N] inv Some by (simp add: mgr_inv_def)
  next
    case None
    then obtain d' s where N: "NewSegment flt (mdisk m) (mts (SegmentFileName ?b)) now ?d ?b cs = Some (d', Inr s)"
      and m': "m' = m\<lparr>mdisk := d', segments := segments m @ [s]\<rparr>"
      using r act(4) by (auto simp: roll_def Let_def split: option.splits prod.splits sum.splits)
    note S = NewSegment_vacant [OF vac N]
    obtain segs a where sg: "segments m = segs @ [a]" using inv by (auto simp: mgr_inv_split)
    have "mgr_inv cs n ((rss @ [rs]) @ [[]]) m'"
      unfolding mgr_inv_split [of _ _ "rss @ [rs]"]
      using S m' b inv ne vacant_without [of "mdisk m" ?d]
      by (intro exI [of _ "segments m"] exI [of _ s]) (auto simp: mgr_inv_split starts_append simp flip: append.assoc)
    then show ?thesis using None S m' by (simp add: active_def)
  qed
qed

text \<open>Opening a segment returns, whatever fails.\<close>

lemma NewWalWriter_returns:
  assumes "file_ok f"
  shows "\<exists>r. NewWalWriter flt f isNew st cs = Some r"
proof -
  obtain w e where "recover flt (fresh_writer f cs st) = Some (w, e)"
    using recover_returns [of "fresh_writer f cs st" flt] assms by (auto simp: fresh_writer_def)
  then show ?thesis
    unfolding NewWalWriter_def fresh_writer_def
    by (cases e; cases "flt (SysOpen (fname f))"; cases "if isNew then flt (SysDirSync (fname f)) else None") auto
qed

lemma NewSegment_returns:
  assumes "file_ok (fst (open_file disk dir (SegmentFileName base)))"
  shows "\<exists>d r. NewSegment flt disk mt now dir base cs = Some (d, r)"
proof -
  obtain f b where f: "open_file disk dir (SegmentFileName base) = (f, b)" by fastforce
  obtain x a where x: "open_file disk dir (indexFileName (SegmentFileName base)) = (x, a)" by fastforce
  show ?thesis
  proof (cases "NewInMemoryStore flt x a NthIndex")
    case (Inr st)
    obtain r where "NewWalWriter flt f b st cs = Some r" using NewWalWriter_returns assms f by fastforce
    then show ?thesis using f x Inr
      by (cases r) (auto simp: NewSegment_def Let_def split: sum.split)
  qed (use f x in \<open>simp add: NewSegment_def Let_def\<close>)
qed

lemma roll_returns:
  assumes inv: "mgr_inv cs n (rss @ [rs]) m"
  shows "\<exists>m' e. roll flt mts now m = Some (m', e)"
proof -
  let ?b = "seg_NextOffset (active m)" and ?d = "Dir (cfg m)"
  note act = mgr_inv_active [OF inv]
  have "unat ?b = n + length (concat (rss @ [rs]))" using seg_inv_next [OF act(1)] act(3) by simp
  then have "vacant (mdisk m) ?d (SegmentFileName ?b)" using inv by (auto simp: mgr_inv_def)
  then have "file_ok (fst (open_file (mdisk m) ?d (SegmentFileName ?b)))" by (simp add: vacant_open file_ok_def)
  then obtain d r where "NewSegment flt (mdisk m) (mts (SegmentFileName ?b)) now ?d ?b cs = Some (d, r)"
    using NewSegment_returns by blast
  then show ?thesis using act(4) by (cases r) (simp_all add: roll_def Let_def)
qed

lemma roll_if_full:
  assumes inv: "mgr_inv cs n (rss @ [rs]) m"
  shows "\<exists>m1 e. (if seg_Size (active m) \<ge> MaxSegmentBytes (cfg m) then roll flt mts now m else Some (m, None)) = Some (m1, e)
    \<and> cfg m1 = cfg m \<and> (case e of
        Some _ \<Rightarrow> mgr_inv cs n (rss @ [rs]) m1
      | None \<Rightarrow> \<exists>rss1 rs1. mgr_inv cs n (rss1 @ [rs1]) m1 \<and> continues rss rs m rss1 rs1 m1)"
proof (cases "seg_Size (active m) \<ge> MaxSegmentBytes (cfg m)")
  case True
  have ne: "rs \<noteq> []"
    using True inv seg_Size_iff [OF mgr_inv_active(1) [OF inv]] by (auto simp: mgr_inv_def)
  obtain m1 e where r: "roll flt mts now m = Some (m1, e)" using roll_returns [OF inv] by blast
  show ?thesis
  proof (cases e)
    case None
    then have "mgr_inv cs n ((rss @ [rs]) @ [[]]) m1" "continues rss rs m (rss @ [rs]) [] m1" "cfg m1 = cfg m"
      using roll_any [OF inv ne r] by (simp_all add: continues_def)
    then have "\<exists>rss1 rs1. mgr_inv cs n (rss1 @ [rs1]) m1 \<and> continues rss rs m rss1 rs1 m1" "cfg m1 = cfg m" by blast+
    then show ?thesis using True r None by auto
  qed (use roll_any [OF inv ne r] r True in auto)
next
  case False
  then show ?thesis using inv by (auto simp: continues_def)
qed

text \<open>Reserving in the active segment.\<close>

lemma reserve_active:
  assumes inv: "mgr_inv cs n (rss @ [rs]) m" and sr: "seg_reserve flt (active m) data now = (seg, res)"
    and at: "atomic_writes flt" and room: "n + length (concat (rss @ [rs])) + 1 < 2 ^ 64"
  shows "case res of
      Inl e \<Rightarrow> mgr_inv cs n (rss @ [rs]) (set_active m seg)
    | Inr (l, seq) \<Rightarrow> mgr_inv cs n (rss @ [rs @ [data]]) (set_active m seg) \<and> seq \<noteq> 0 \<and> writeSeq (writer seg) = seq
        \<and> baseOffset seg + l = of_nat (n + length (concat (rss @ [rs])))"
proof (cases res)
  case (Inl err)
  note act = mgr_inv_active [OF inv]
  have "seg = active m" using seg_reserve_fails sr Inl at by (auto simp: atomic_writes_def)
  then show ?thesis using mgr_inv_set_active [OF inv act(1,2)] Inl by simp
next
  case (Inr x)
  note act = mgr_inv_active [OF inv]
  obtain l seq where x: "x = (l, seq)" by fastforce
  have rm: "unat (baseOffset (active m)) + length rs + 1 < 2 ^ 64" using act(3) room by simp
  note R = seg_reserve_ok [OF act(1) sr [unfolded Inr x] rm]
  have "mgr_inv cs n (rss @ [rs @ [data]]) (set_active m seg)"
    using mgr_inv_set_active [OF inv R(1) R(8) [OF act(2)] R(3)] by simp
  moreover have "baseOffset (active m) = of_nat (n + length (concat rss))"
    unfolding act(3) [symmetric] by simp
  then have "baseOffset seg + l = of_nat (n + length (concat (rss @ [rs])))"
    using R(2,3) by (simp add: add.assoc)
  ultimately show ?thesis using Inr x R(4,9) by simp
qed

text \<open>Phase 1 of an append.\<close>

lemma append_reserve_any:
  assumes inv: "mgr_inv cs n (rss @ [rs]) m" and at: "atomic_writes flt"
    and room: "n + length (concat (rss @ [rs])) + 1 < 2 ^ 64"
  shows "\<exists>m' r. append_reserve flt mts now m data = Some (m', r) \<and> cfg m' = cfg m \<and>
    (case r of
       Inl e \<Rightarrow> holds cs n (concat (rss @ [rs])) m'
     | Inr (base, l, seq) \<Rightarrow> base + l = of_nat (n + length (concat (rss @ [rs]))) \<and> seq \<noteq> 0
         \<and> base = baseOffset (active m') \<and> writeSeq (writer (active m')) = seq
         \<and> (\<exists>rss' rs'. mgr_inv cs n (rss' @ [rs' @ [data]]) m' \<and> continues rss rs m rss' rs' m'))"
proof -
  let ?roll = "if seg_Size (active m) \<ge> MaxSegmentBytes (cfg m) then roll flt mts now m else Some (m, None)"
  obtain m1 e where r: "?roll = Some (m1, e)" "cfg m1 = cfg m" and
    c: "case e of
        Some _ \<Rightarrow> mgr_inv cs n (rss @ [rs]) m1
      | None \<Rightarrow> \<exists>rss1 rs1. mgr_inv cs n (rss1 @ [rs1]) m1 \<and> continues rss rs m rss1 rs1 m1"
    using roll_if_full [OF inv] by blast
  show ?thesis
  proof (cases e)
    case (Some err)
    then show ?thesis using c r by (auto simp: append_reserve_def holds_def)
  next
    case None
    then obtain rss1 rs1 where inv1: "mgr_inv cs n (rss1 @ [rs1]) m1" and ct: "continues rss rs m rss1 rs1 m1"
      using c by auto
    have con: "concat (rss1 @ [rs1]) = concat (rss @ [rs])" using ct by (auto simp: continues_def)
    obtain seg res where sr: "seg_reserve flt (active m1) data now = (seg, res)" by fastforce
    note R = reserve_active [OF inv1 sr at, unfolded con, OF room]
    have ct': "continues rss rs m rss1 rs1 (set_active m1 seg)"
      using ct by (simp add: continues_def set_active_def)
    show ?thesis
    proof (cases res)
      case (Inl err)
      then show ?thesis
        using R r None sr con by (auto simp: append_reserve_def holds_def intro!: exI [of _ "rss1 @ [rs1]"])
    next
      case (Inr x)
      then show ?thesis
        using R r None sr ct' by (cases x) (auto simp: append_reserve_def BaseOffset_def)
    qed
  qed
qed

text \<open>
  A whole append returns. On success the record is at the next offset, durable with the rest of its
  segment; on failure the log is as before, or holds the record without acknowledging it.
\<close>

lemma Append_any:
  assumes inv: "mgr_inv cs n (rss @ [rs]) m" and at: "atomic_writes flt"
    and room: "n + length (concat (rss @ [rs])) + 1 < 2 ^ 64"
  shows "\<exists>m' r. Append flt mts now m data = Some (m', r) \<and> cfg m' = cfg m \<and>
    (case r of
       Inl e \<Rightarrow> holds cs n (concat (rss @ [rs])) m' \<or> holds cs n (concat (rss @ [rs]) @ [data]) m'
     | Inr off \<Rightarrow> off = of_nat (n + length (concat (rss @ [rs])))
         \<and> (\<exists>rss' rs'. mgr_inv cs n (rss' @ [rs' @ [data]]) m' \<and> continues rss rs m rss' rs' m'
              \<and> seg_durable cs (rs' @ [data]) (active m')))"
proof -
  obtain m1 r where r: "append_reserve flt mts now m data = Some (m1, r)" "cfg m1 = cfg m" and
    cs: "case r of
       Inl e \<Rightarrow> holds cs n (concat (rss @ [rs])) m1
     | Inr (base, l, seq) \<Rightarrow> base + l = of_nat (n + length (concat (rss @ [rs]))) \<and> seq \<noteq> 0
         \<and> base = baseOffset (active m1) \<and> writeSeq (writer (active m1)) = seq
         \<and> (\<exists>rss' rs'. mgr_inv cs n (rss' @ [rs' @ [data]]) m1 \<and> continues rss rs m rss' rs' m1)"
    using append_reserve_any [OF inv at room] by blast
  show ?thesis
  proof (cases r)
    case (Inl e)
    then show ?thesis using r cs by (auto simp: Append_def)
  next
    case (Inr x)
    obtain base l seq where x: "x = (base, l, seq)" by (metis prod_cases3)
    obtain rss' rs' where bl: "base + l = of_nat (n + length (concat (rss @ [rs])))" "seq \<noteq> 0" "writeSeq (writer (active m1)) = seq"
      and inv1: "mgr_inv cs n (rss' @ [rs' @ [data]]) m1" and ct: "continues rss rs m rss' rs' m1"
      using cs Inr x by auto
    note act = mgr_inv_active [OF inv1]
    have "atomic_append flt (indexFile (wstore (writer (active m1))))" using at by (simp add: atomic_writes_def)
    then obtain s e where c: "seg_commit flt (active m1) seq = Some (s, e)" "seg_inv cs (rs' @ [data]) s"
      "baseOffset s = baseOffset (active m1)" "seg_at (Dir (cfg m1)) s" "e = None \<Longrightarrow> seg_durable cs (rs' @ [data]) s"
      using seg_commit_any [OF act(1) _ bl(3), of flt "Dir (cfg m1)"] act(2) bl(2) by auto
    have inv2: "mgr_inv cs n (rss' @ [rs' @ [data]]) (set_active m1 s)"
      using mgr_inv_set_active [OF inv1 c(2,4,3)] by simp
    have con: "concat (rss' @ [rs']) = concat (rss @ [rs])" using ct by (auto simp: continues_def)
    then have h2: "holds cs n (concat (rss @ [rs]) @ [data]) (set_active m1 s)"
      unfolding holds_def using inv2 by (intro exI [of _ "rss' @ [rs' @ [data]]"]) auto
    have ct': "continues rss rs m rss' rs' (set_active m1 s)" using ct by (simp add: continues_def set_active_def)
    show ?thesis
    proof (cases e)
      case None
      then show ?thesis
        using r Inr x c(1,5) bl(1) inv2 ct'
        by (intro exI [of _ "set_active m1 s"] exI [of _ "Inr (base + l)"]) (auto simp: Append_def)
    next
      case (Some err)
      then show ?thesis
        using r Inr x c(1) h2
        by (intro exI [of _ "set_active m1 s"] exI [of _ "Inl err"]) (auto simp: Append_def)
    qed
  qed
qed

end

section \<open>Retention keeps a suffix\<close>

lemma victims_prefix:
  "prefix (victims c l k segs) segs \<and> (segs \<noteq> [] \<longrightarrow> length (victims c l k segs) < length segs)
    \<and> (\<forall>s \<in> set (victims c l k segs). lastAppend s \<le> c) \<and> (0 < l \<longrightarrow> int (length (victims c l k segs)) \<le> max 0 (l - int k))"
proof (induction c l k segs rule: victims.induct)
  case (1 c l k s s' segs)
  then show ?case by (auto simp: LastAppend_def)
qed simp_all

text \<open>It stops only at a segment that is recent, or at the limit, or at the active one.\<close>

lemma victims_maximal:
  assumes "length (victims c l k segs) + 1 < length segs"
  shows "lastAppend (segs ! length (victims c l k segs)) > c \<or> 0 < l \<and> int (k + length (victims c l k segs)) \<ge> l"
  using assms
proof (induction c l k segs rule: victims.induct)
  case (1 c l k s s' segs)
  then show ?case by (auto simp: LastAppend_def split: if_splits)
qed simp_all

lemma mgr_inv_drop:
  assumes inv: "mgr_inv cs n rss m" and k: "k < length (segments m)"
    and m': "segments m' = drop k (segments m)" "cfg m' = cfg m" "mdisk m' = mdisk m"
  shows "mgr_inv cs (n + length (concat (take k rss))) (drop k rss) m'"
proof -
  have l: "length rss = length (segments m)" by (rule mgr_inv_length [OF inv])
  have "drop k (starts n rss) = starts (n + length (concat (take k rss))) (drop k rss)"
    using starts_append [of n "take k rss" "drop k rss"] k l by simp
  then have "map (\<lambda>s. unat (baseOffset s)) (drop k (segments m)) = starts (n + length (concat (take k rss))) (drop k rss)"
    using inv by (metis mgr_inv_def drop_map)
  moreover have "length (concat (take k rss)) + length (concat (drop k rss)) = length (concat rss)"
    by (metis append_take_drop_id concat_append length_append)
  moreover have "[] \<notin> set (butlast (drop k rss))"
    using inv by (metis butlast_drop in_set_dropD mgr_inv_def)
  ultimately show ?thesis
    using inv k m' by (simp add: mgr_inv_def add.assoc list_all2_dropI)
qed

text \<open>Deleting a victim touches neither the live segments nor the names that are still to be used.\<close>

definition older :: "nat \<Rightarrow> segment \<Rightarrow> bool" where
  "older n s \<longleftrightarrow> unat (baseOffset s) < n"

text \<open>A dropped segment begins before the first one that is kept.\<close>

lemma mgr_inv_older:
  assumes inv: "mgr_inv cs n rss m" and k: "k < length (segments m)" and s: "s \<in> set (take k (segments m))"
  shows "older (n + length (concat (take k rss))) s"
proof -
  obtain i where i: "i < k" "s = segments m ! i" using s k by (auto simp: in_set_conv_nth)
  have "0 < length (rss ! i)"
  proof -
    have "rss ! i \<in> set (butlast rss)"
      using i(1) k mgr_inv_length [OF inv] nth_mem [of i "butlast rss"] by (simp add: nth_butlast)
    then show ?thesis using inv by (auto simp: mgr_inv_def)
  qed
  moreover have "length (concat (take (Suc i) rss)) \<le> length (concat (take k rss))" using i(1) by (intro concat_take_mono) simp
  moreover have "i < length rss" using i(1) k mgr_inv_length [OF inv] by simp
  ultimately show ?thesis
    using mgr_inv_seg(3) [OF inv, of i] i k by (simp add: older_def take_Suc_conv_app_nth del: length_greater_0_conv)
qed

lemma seg_Close_base: "seg_Close flt s = (s', e) \<Longrightarrow> baseOffset s' = baseOffset s"
  by (auto simp: seg_Close_def Let_def split: prod.splits)

lemma vacant_Cons: "n' \<noteq> n \<Longrightarrow> vacant ((n', f) # d) dir n = vacant d dir n"
  by (simp add: vacant_def)

lemma vacant_entries:
  assumes "baseOffset s \<noteq> b"
  shows "vacant (log_entry s # d) dir (SegmentFileName b) = vacant d dir (SegmentFileName b)"
    "vacant (log_entry s # d) dir (indexFileName (SegmentFileName b)) = vacant d dir (indexFileName (SegmentFileName b))"
    "vacant (index_file_entry s # d) dir (SegmentFileName b) = vacant d dir (SegmentFileName b)"
    "vacant (index_file_entry s # d) dir (indexFileName (SegmentFileName b)) = vacant d dir (indexFileName (SegmentFileName b))"
  unfolding log_entry_def index_file_entry_def
  using assms index_not_segment [of "baseOffset s" b] index_not_segment [of b "baseOffset s"]
    indexFileName_inject [of "baseOffset s" b]
  by (simp_all add: vacant_Cons)

lemma delete_victim_any:
  assumes r: "delete_victim flt s m = Some m'" and inv: "mgr_inv cs n rss m" and old: "older n s"
  shows "mgr_inv cs n rss m' \<and> segments m' = segments m \<and> cfg m' = cfg m"
proof -
  have ne: "baseOffset s \<noteq> b" if "n + k \<le> unat b" for b k
    using that old by (auto simp: older_def)
  have upd: "mgr_inv cs n rss m1" if "segments m1 = segments m" "cfg m1 = cfg m"
    "mdisk m1 \<in> {mdisk m, log_entry s' # index_file_entry s' # mdisk m, index_file_entry s' # mdisk m}"
    "baseOffset s' = baseOffset s" for m1 s'
  proof -
    have "baseOffset s' \<noteq> b" if "n + length (concat rss) \<le> unat b" for b
      using ne [OF that] \<open>baseOffset s' = baseOffset s\<close> by simp
    then show ?thesis using that(1-3) inv unfolding mgr_inv_def by (auto simp: vacant_entries)
  qed
  obtain s' e where c: "seg_Close flt s = (s', e)" by fastforce
  have b: "baseOffset s' = baseOffset s" using seg_Close_base [OF c] .
  have "segments m' = segments m \<and> cfg m' = cfg m
      \<and> mdisk m' \<in> {mdisk m, log_entry s' # index_file_entry s' # mdisk m, index_file_entry s' # mdisk m}"
    using r c
    by (cases "waitReaders s"; cases e; cases "flt (SysRemove (path s'))"; cases "flt (SysRemove (IndexPath s'))")
      (auto simp: delete_victim_def Let_def delete_error_def split: if_splits)
  then show ?thesis using upd [of m' s'] b by blast
qed

lemma delete_all_any:
  assumes "delete_all flt vs m = Some m'" "mgr_inv cs n rss m" "\<forall>s \<in> set vs. older n s"
  shows "mgr_inv cs n rss m' \<and> segments m' = segments m \<and> cfg m' = cfg m"
  using assms
proof (induction vs arbitrary: m)
  case (Cons s vs)
  obtain m1 where m1: "delete_victim flt s m = Some m1" "delete_all flt vs m1 = Some m'"
    using Cons.prems(1) by (auto split: option.splits)
  have D: "mgr_inv cs n rss m1 \<and> segments m1 = segments m \<and> cfg m1 = cfg m"
    by (rule delete_victim_any [OF m1(1) Cons.prems(2)]) (use Cons.prems(3) in simp)
  then show ?case using Cons.IH [OF m1(2)] Cons.prems(3) by simp
qed simp

text \<open>Without readers, every victim can be deleted.\<close>

lemma delete_all_returns:
  assumes "\<forall>s \<in> set vs. readers s = 0"
  shows "\<exists>m'. delete_all flt vs m = Some m'"
  using assms
proof (induction vs arbitrary: m)
  case (Cons s vs)
  obtain s' e where c: "seg_Close flt s = (s', e)" by fastforce
  have "\<exists>m1. delete_victim flt s m = Some m1"
    using Cons.prems c by (cases e) (auto simp: delete_victim_def waitReaders_def Let_def split: option.split)
  then show ?case using Cons by fastforce
qed simp

lemma RunRetention_any:
  assumes inv: "mgr_inv cs n rss m" and r: "RunRetention flt now now' m = Some m'"
  defines "k \<equiv> length (victims (now' - Retention (cfg m)) (MaxDeletesPerRun (cfg m)) 0 (segments m))"
  shows "mgr_inv cs (n + length (concat (take k rss))) (drop k rss) m'" "segments m' = drop k (segments m)"
    "k < length (segments m)" "cfg m' = cfg m"
proof -
  let ?v = "victims (now' - Retention (cfg m)) (MaxDeletesPerRun (cfg m)) 0 (segments m)"
  obtain m1 where m1: "retention_detach now now' m = (m1, ?v)" "segments m1 = drop k (segments m)" "cfg m1 = cfg m"
    "mdisk m1 = mdisk m"
    by (simp add: retention_detach_def Let_def k_def)
  have V: "prefix ?v (segments m)" "k < length (segments m)"
    using victims_prefix [of "now' - Retention (cfg m)" "MaxDeletesPerRun (cfg m)" 0 "segments m"] inv
    by (auto simp: k_def mgr_inv_def)
  have v: "?v = take k (segments m)" unfolding k_def using V(1) by (metis append_eq_conv_conj prefix_def)
  let ?n = "n + length (concat (take k rss))"
  have inv1: "mgr_inv cs ?n (drop k rss) m1" by (rule mgr_inv_drop [OF inv V(2) m1(2-4)])
  have old: "older ?n s" if s: "s \<in> set ?v" for s
    by (rule mgr_inv_older [OF inv V(2)]) (use s v in simp)
  have "delete_all flt ?v m1 = Some m'" using r m1(1) by (simp add: RunRetention_def)
  from delete_all_any [OF this inv1] old m1 V(2)
  show "mgr_inv cs ?n (drop k rss) m'" "segments m' = drop k (segments m)" "k < length (segments m)" "cfg m' = cfg m"
    by auto
qed

end
