(* ===== verification/Restart.thy ===== *)
theory Restart
  imports Manager
begin

text \<open>
  Reopening the segmented log: what \<open>Open\<close> makes of the directory that a crash, or a clean
  shutdown, of an earlier manager left behind.
\<close>

section \<open>Discovering the segments\<close>

lemma mgr_inv_sorted:
  assumes inv: "mgr_inv cs n rss m"
  shows "sorted_wrt (<) (map baseOffset (segments m))"
proof -
  have "baseOffset (segments m ! i) < baseOffset (segments m ! j)" if "i < j" "j < length (segments m)" for i j
  proof -
    have l: "length rss = length (segments m)" by (rule mgr_inv_length [OF inv])
    have i: "i < length (segments m)" "i < length rss" using that l by simp_all
    have "rss ! i \<in> set (butlast rss)" using that l nth_mem [of i "butlast rss"] by (simp add: nth_butlast)
    then have ne: "rss ! i \<noteq> []" using inv by (auto simp: mgr_inv_def)
    have "length (concat (take (Suc i) rss)) \<le> length (concat (take j rss))" using that by (intro concat_take_mono) simp
    then have "length (concat (take i rss)) < length (concat (take j rss))"
      using ne i(2) by (simp add: take_Suc_conv_app_nth) (metis add_lessD1 le_imp_less_Suc length_greater_0_conv
          less_add_same_cancel1 less_le_trans)
    then show ?thesis
      using mgr_inv_seg(3) [OF inv i(1)] mgr_inv_seg(3) [OF inv that(2)] by (simp add: word_less_nat_alt)
  qed
  then show ?thesis by (simp add: sorted_wrt_iff_nth_less)
qed

lemma parse_bases_append [simp]: "parse_bases (xs @ ys) = parse_bases xs @ parse_bases ys"
  by (induction xs rule: parse_bases.induct) (auto split: option.split)

lemma parse_bases_dirs [simp]: "parse_bases (map (\<lambda>n. (n, True)) ns) = []"
  by (induction ns) simp_all

text \<open>The log files of the directory are those of the base offsets \<open>bs\<close>.\<close>

definition log_files :: "disk \<Rightarrow> u64 set \<Rightarrow> bool" where
  "log_files disk bs \<longleftrightarrow> distinct (map fst disk) \<and>
     (\<forall>n \<in> fst ` set disk. HasSuffix n segmentSuffix \<and> ParseUint (TrimSuffix n segmentSuffix) \<noteq> None \<longrightarrow>
        n \<in> SegmentFileName ` bs) \<and> SegmentFileName ` bs \<subseteq> fst ` set disk"

lemma SegmentFileName_suffix [simp]: "HasSuffix (SegmentFileName b) segmentSuffix"
  by (simp add: SegmentFileName_def)

lemma log_files_none:
  assumes "log_files disk bs" "b \<notin> bs"
  shows "SegmentFileName b \<notin> fst ` set disk"
proof
  assume "SegmentFileName b \<in> fst ` set disk"
  moreover have "HasSuffix (SegmentFileName b) segmentSuffix \<and> ParseUint (TrimSuffix (SegmentFileName b) segmentSuffix) \<noteq> None"
    by (simp add: SegmentFileName_parse)
  ultimately have "SegmentFileName b \<in> SegmentFileName ` bs"
    using assms(1) [unfolded log_files_def, THEN conjunct2, THEN conjunct1, rule_format] by blast
  then show False using assms(2) by auto
qed

lemma parse_bases_iff:
  "b \<in> set (parse_bases (map (\<lambda>(n, _). (n, False)) disk)) \<longleftrightarrow>
     (\<exists>n \<in> fst ` set disk. HasSuffix n segmentSuffix \<and> ParseUint (TrimSuffix n segmentSuffix) = Some b)"
  by (induction disk) (auto split: option.splits if_splits)

lemma parse_bases_distinct:
  assumes "distinct (map fst disk)" "\<forall>n \<in> fst ` set disk. HasSuffix n segmentSuffix \<and> ParseUint (TrimSuffix n segmentSuffix) \<noteq> None \<longrightarrow>
        n \<in> range SegmentFileName"
  shows "distinct (parse_bases (map (\<lambda>(n, _). (n, False)) disk))"
  using assms
proof (induction disk)
  case (Cons e disk)
  obtain n f where e: "e = (n, f)" by fastforce
  have "b \<notin> set (parse_bases (map (\<lambda>(n, _). (n, False)) disk))"
    if b: "HasSuffix n segmentSuffix" "ParseUint (TrimSuffix n segmentSuffix) = Some b" for b
  proof
    assume "b \<in> set (parse_bases (map (\<lambda>(n, _). (n, False)) disk))"
    then obtain n' where n': "n' \<in> fst ` set disk" "HasSuffix n' segmentSuffix" "ParseUint (TrimSuffix n' segmentSuffix) = Some b"
      by (auto simp: parse_bases_iff)
    obtain c c' where "n = SegmentFileName c" "n' = SegmentFileName c'" using Cons.prems(2) e b n' by fastforce
    then have "n = n'" using b(2) n'(3) by (simp add: SegmentFileName_parse)
    then show False using Cons.prems(1) e n'(1) by auto
  qed
  then show ?case using Cons e by (auto split: option.split)
qed simp

lemma discover_bases:
  assumes "log_files disk bs" "flt (SysReadDir dir) = None" "set xs = bs" "sorted_wrt (<) xs"
  shows "discoverBaseOffsets flt dir (map (\<lambda>(n, _). (n, False)) disk @ map (\<lambda>n. (n, True)) subdirs) = Inr xs"
proof -
  let ?p = "parse_bases (map (\<lambda>(n, _). (n, False)) disk)"
  have d: "distinct ?p" using assms(1) by (intro parse_bases_distinct) (auto simp: log_files_def)
  have s: "set ?p = bs"
  proof (intro set_eqI iffI)
    fix b assume "b \<in> set ?p"
    then obtain n where n: "n \<in> fst ` set disk" "HasSuffix n segmentSuffix" "ParseUint (TrimSuffix n segmentSuffix) = Some b"
      by (auto simp: parse_bases_iff)
    then obtain c where "c \<in> bs" "n = SegmentFileName c" using assms(1) by (auto simp: log_files_def)
    then show "b \<in> bs" using n(3) by (simp add: SegmentFileName_parse)
  next
    fix b assume "b \<in> bs"
    then have "SegmentFileName b \<in> fst ` set disk" using assms(1) by (auto simp: log_files_def)
    then show "b \<in> set ?p" using SegmentFileName_parse [of b] by (auto simp: parse_bases_iff intro!: bexI)
  qed
  have "sorted xs" "distinct xs" using assms(4) by (auto simp: strict_sorted_iff)
  then have "sort ?p = xs"
    using d s assms(3) by (intro sorted_distinct_set_unique) (simp_all add: distinct_sort)
  then show ?thesis using assms(2) by (simp add: discoverBaseOffsets_def)
qed


section \<open>Crashes\<close>

text \<open>What a crash leaves of the files of a segment.\<close>

definition crashed_seg :: "disk \<Rightarrow> segment \<Rightarrow> bool" where
  "crashed_seg disk s \<longleftrightarrow>
     (\<exists>f x. map_of disk (SegmentFileName (baseOffset s)) = Some f
        \<and> map_of disk (indexFileName (SegmentFileName (baseOffset s))) = Some x
        \<and> crashed (wfile (writer s)) f \<and> fname x = fname (indexFile (wstore (writer s)))
        \<and> prefix (content x) (content (indexFile (wstore (writer s)))))
     \<and> length (content (wfile (writer s))) < 2 ^ 62"

text \<open>The directory after a crash: those files, no other log file, no other index file with contents.\<close>

definition crashed_dir :: "manager \<Rightarrow> disk \<Rightarrow> bool" where
  "crashed_dir m disk \<longleftrightarrow> log_files disk (set (map baseOffset (segments m)))
     \<and> (\<forall>s \<in> set (segments m). crashed_seg disk s)
     \<and> (\<forall>b. b \<notin> set (map baseOffset (segments m)) \<longrightarrow> vacant disk (Dir (cfg m)) (indexFileName (SegmentFileName b)))"

text \<open>The records kept are a prefix with all the durable ones.\<close>

definition kept :: "checksum \<Rightarrow> segment \<Rightarrow> bytes list \<Rightarrow> bytes list \<Rightarrow> bool" where
  "kept cs s rs rs' \<longleftrightarrow> (\<exists>k \<le> length rs. rs' = take k rs
     \<and> (\<forall>j \<le> length rs. durable cs (take j rs) (wfile (writer s)) \<longrightarrow> j \<le> k))"

lemma kept_durable: "kept cs s rs rs' \<Longrightarrow> seg_durable cs rs s \<Longrightarrow> rs' = rs"
  unfolding kept_def seg_durable_def by (metis order_refl take_all)

definition opens :: "faults \<Rightarrow> bool" where
  "opens flt \<longleftrightarrow> (\<forall>f. openable flt f) \<and> (\<forall>d. flt (SysMkdir d) = None \<and> flt (SysReadDir d) = None)"

context checksum_alg
begin

lemma crashed_seg_opens:
  assumes "seg_inv cs rs s" "seg_at (Dir c) s" "crashed_seg disk s" "opens flt" "cfg_csum c = cs"
  shows "\<exists>rs' s'. NewSegment flt disk mt now (Dir c) (baseOffset s) (cfg_csum c) =
      Some (without [SegmentFileName (baseOffset s), indexFileName (SegmentFileName (baseOffset s))] disk, Inr s')
    \<and> kept cs s rs rs' \<and> seg_inv cs rs' s' \<and> seg_at (Dir c) s' \<and> baseOffset s' = baseOffset s"
proof -
  obtain f x where fx: "map_of disk (SegmentFileName (baseOffset s)) = Some f"
    "map_of disk (indexFileName (SegmentFileName (baseOffset s))) = Some x"
    "crashed (wfile (writer s)) f" "fname x = fname (indexFile (wstore (writer s)))"
    "prefix (content x) (content (indexFile (wstore (writer s))))" "length (content (wfile (writer s))) < 2 ^ 62"
    using assms(3) by (auto simp: crashed_seg_def)
  have o: "openable flt f" "openable flt x" using assms(4) by (simp_all add: opens_def)
  show ?thesis
    using NewSegment_crash [OF assms(1,2) refl fx(1-5) o fx(6), of mt now] assms(5)
    unfolding kept_def by blast
qed

lemma crashed_seg_without:
  assumes "crashed_seg disk s'" "baseOffset s' \<noteq> b"
  shows "crashed_seg (without [SegmentFileName b, indexFileName (SegmentFileName b)] disk) s'"
  using assms index_not_segment [of b "baseOffset s'"] index_not_segment [of "baseOffset s'" b]
  by (auto simp: crashed_seg_def map_of_without indexFileName_inject)

lemma open_all_crash:
  assumes "list_all2 (\<lambda>rs s. seg_inv cs rs s \<and> seg_at (Dir c) s) rss ss" "\<forall>s \<in> set ss. crashed_seg disk s"
    "distinct (map baseOffset ss)" "opens flt" "cfg_csum c = cs"
  shows "\<exists>d' rss' ss'. open_all flt mts now c disk segs (map baseOffset ss) = Some (Inr (d', segs @ ss'))
    \<and> list_all2 (\<lambda>rs s. seg_inv cs rs s \<and> seg_at (Dir c) s) rss' ss' \<and> map baseOffset ss' = map baseOffset ss
    \<and> list_all2 (\<lambda>(rs, s) rs'. kept cs s rs rs') (zip rss ss) rss'
    \<and> (\<forall>n. map_of d' n = (if n \<in> (\<lambda>s. SegmentFileName (baseOffset s)) ` set ss
          \<union> (\<lambda>s. indexFileName (SegmentFileName (baseOffset s))) ` set ss then None else map_of disk n))"
  using assms(1-3)
proof (induction rss ss arbitrary: disk segs rule: list_all2_induct)
  case (Cons rs rss s ss)
  let ?ns = "[SegmentFileName (baseOffset s), indexFileName (SegmentFileName (baseOffset s))]"
  obtain rs' s' where N: "NewSegment flt disk (mts (SegmentFileName (baseOffset s))) now (Dir c) (baseOffset s) (cfg_csum c) =
      Some (without ?ns disk, Inr s')"
    and s': "kept cs s rs rs'" "seg_inv cs rs' s'" "seg_at (Dir c) s'" "baseOffset s' = baseOffset s"
    using crashed_seg_opens [OF _ _ _ assms(4,5), of rs s disk "mts (SegmentFileName (baseOffset s))" now]
      Cons.hyps(1) Cons.prems(1) by auto
  have "\<forall>x \<in> set ss. crashed_seg (without ?ns disk) x"
    using Cons.prems by (auto intro!: crashed_seg_without) (metis image_eqI)
  then obtain d' rss' ss' where R: "open_all flt mts now c (without ?ns disk) (segs @ [s']) (map baseOffset ss) = Some (Inr (d', (segs @ [s']) @ ss'))"
    "list_all2 (\<lambda>rs s. seg_inv cs rs s \<and> seg_at (Dir c) s) rss' ss'" "map baseOffset ss' = map baseOffset ss"
    "list_all2 (\<lambda>(rs, s) rs'. kept cs s rs rs') (zip rss ss) rss'"
    and d': "\<forall>n. map_of d' n = (if n \<in> (\<lambda>s. SegmentFileName (baseOffset s)) ` set ss
          \<union> (\<lambda>s. indexFileName (SegmentFileName (baseOffset s))) ` set ss then None else map_of (without ?ns disk) n)"
    using Cons.IH [of "without ?ns disk" "segs @ [s']"] Cons.prems(2) by auto
  show ?case
    using R N s' d'
    by (intro exI [of _ d'] exI [of _ "rs' # rss'"] exI [of _ "s' # ss'"]) (auto simp: map_of_without)
qed simp

text \<open>
  Reopening after a crash: if the sealed segments were durable, the log loses at most records of the
  active segment that were never acknowledged.
\<close>

lemma with_defaults_keeps:
  assumes "cfgChecksum c = Some cs"
  shows "cfgChecksum (with_defaults c) = Some cs" "Dir (with_defaults c) = Dir c" "0 < MaxSegmentBytes (with_defaults c)"
    "cfg_csum (with_defaults c) = cs"
  using assms by (simp_all add: with_defaults_def Let_def DefaultMaxSegmentBytes_def cfg_csum_def)

text \<open>The files that are left when every segment has taken its own.\<close>

lemma crash_vacant:
  assumes dir: "crashed_dir m disk"
    and d': "\<forall>n. map_of d' n = (if n \<in> (\<lambda>s. SegmentFileName (baseOffset s)) ` set (segments m)
          \<union> (\<lambda>s. indexFileName (SegmentFileName (baseOffset s))) ` set (segments m) then None else map_of disk n)"
  shows "vacant d' (Dir (cfg m)) (SegmentFileName b)" "vacant d' (Dir (cfg m)) (indexFileName (SegmentFileName b))"
proof -
  let ?bs = "set (map baseOffset (segments m))"
  have lf: "log_files disk ?bs" using dir unfolding crashed_dir_def by blast
  have "map_of disk (SegmentFileName b) = None" if "b \<notin> ?bs"
    using log_files_none [OF lf that] by (simp add: map_of_eq_None_iff)
  then show "vacant d' (Dir (cfg m)) (SegmentFileName b)"
    using d' by (cases "b \<in> ?bs") (auto simp: vacant_def)
  have "vacant disk (Dir (cfg m)) (indexFileName (SegmentFileName b))" if "b \<notin> ?bs"
    using dir that by (simp add: crashed_dir_def)
  then show "vacant d' (Dir (cfg m)) (indexFileName (SegmentFileName b))"
    using d' by (cases "b \<in> ?bs") (auto simp: vacant_def)
qed

text \<open>A new log: one empty segment at offset 0.\<close>

lemma NewSegment_opens:
  assumes vac: "vacant disk dir (SegmentFileName base)" "vacant disk dir (indexFileName (SegmentFileName base))"
    and flt: "opens flt"
  shows "\<exists>d s. NewSegment flt disk mt now dir base cs = Some (d, Inr s)"
proof -
  let ?f = "\<lambda>n. \<lparr>fname = filepath_Join dir n, content = [], synced = []\<rparr>"
  obtain a b where o: "open_file disk dir (indexFileName (SegmentFileName base)) = (?f (indexFileName (SegmentFileName base)), a)"
    "open_file disk dir (SegmentFileName base) = (?f (SegmentFileName base), b)"
    using vacant_open [OF vac(1)] vacant_open [OF vac(2)] by (metis prod.collapse)
  define st where "st = \<lparr>offsets = [], positions = [], index = Map.empty,
      indexFile = ?f (indexFileName (SegmentFileName base)), seen = 0, nthIndex = NthIndex\<rparr>"
  have op: "openable flt f" for f using flt by (simp add: opens_def)
  then have rc: "recoverable flt f" "flt (SysOpen (fname f)) = None" "flt (SysDirSync (fname f)) = None" for f
    by (auto simp: openable_def)
  have st: "NewInMemoryStore flt (?f (indexFileName (SegmentFileName base))) a NthIndex = Inr st"
    using rc(2,3) [of "?f (indexFileName (SegmentFileName base))"] by (simp add: NewInMemoryStore_def st_def)
  have "\<exists>w. recover flt (fresh_writer (?f (SegmentFileName base)) cs st) = Some (w, None)"
    using recover_ok [of "?f (SegmentFileName base)" "[]" "[]" flt st "[]" 0] rc(1)
    by (auto simp: torn_tail_def file_ok_def small_def st_def sound_entries_def durable_def)
  then obtain w where w: "recover flt (fresh_writer (?f (SegmentFileName base)) cs st) = Some (w, None)" by blast
  have "fname (wfile w) = filepath_Join dir (SegmentFileName base)" using recover_fname(1) [OF w] by (simp add: fresh_writer_def)
  then have "NewWALReader flt (wfile w) cs = Inr \<lparr>roffset = 0, rcsum = cs\<rparr>"
    using rc(2) [of "wfile w"] by (simp add: NewWALReader_def)
  then show ?thesis
    using o st NewWalWriter_recover [OF w op, of b] by (simp add: NewSegment_def Let_def)
qed

lemma Open_fresh:
  assumes flt: "opens flt" and c: "cfgChecksum c = Some cs"
  shows "\<exists>m. Open flt mts now [] subdirs c = Some (Inr m) \<and> mgr_inv cs 0 [[]] m \<and> cfg m = with_defaults c
    \<and> readers (active m) = 0 \<and> syncErr (writer (active m)) = None"
proof -
  note cfg = with_defaults_keeps [OF c]
  have vac: "vacant [] dir name" for dir name by (simp add: vacant_def)
  obtain d s where N: "NewSegment flt [] (mts (SegmentFileName 0)) now (Dir (with_defaults c)) 0 cs = Some (d, Inr s)"
    using NewSegment_opens [OF vac vac flt] by blast
  note S = NewSegment_vacant [OF vac vac N]
  have d: "d = []" using S by (simp add: without_def)
  let ?m = "\<lparr>cfg = with_defaults c, segments = [s], Metrics = zero_metrics, mdisk = [], stopped = False\<rparr>"
  have "discoverBaseOffsets flt dir (map (\<lambda>n. (n, True)) subdirs) = Inr []" for dir
    using flt by (simp add: discoverBaseOffsets_def opens_def)
  then have "Open flt mts now [] subdirs c = Some (Inr ?m)"
    using N d flt cfg(4) by (simp add: Open_def Let_def opens_def)
  moreover have "mgr_inv cs 0 [[]] ?m"
    using S cfg(1,3) vac by (simp add: mgr_inv_def)
  ultimately show ?thesis using S by (auto simp: active_def)
qed

text \<open>Only the records of the active segment can be cut when the sealed ones were durable.\<close>

lemma kept_sealed:
  assumes "list_all2 (\<lambda>(rs, s) rs'. kept cs s rs rs') (zip (rss @ [rs]) ss) rss'" "length ss = length rss + 1"
    and sealed: "\<forall>i < length rss. seg_durable cs (rss ! i) (ss ! i)"
  shows "\<exists>rs'. rss' = rss @ [rs'] \<and> kept cs (last ss) rs rs'"
proof -
  have l': "length rss' = length rss + 1" using assms(1,2) by (auto dest: list_all2_lengthD)
  have k: "kept cs (ss ! i) ((rss @ [rs]) ! i) (rss' ! i)" if "i \<le> length rss" for i
    using assms(1,2) that by (auto simp: list_all2_conv_all_nth)
  have pre: "rss' ! i = rss ! i" if "i < length rss" for i
    using kept_durable [OF k [of i]] sealed that by (simp add: nth_append)
  have "rss' = take (length rss) rss' @ [rss' ! length rss]"
    using l' take_Suc_conv_app_nth [of "length rss" rss'] by simp
  moreover have "take (length rss) rss' = rss" using pre l' by (intro nth_equalityI) simp_all
  ultimately have "rss' = rss @ [rss' ! length rss]" by simp
  moreover have "last ss = ss ! length rss"
    using assms(2) last_conv_nth [of ss] by (cases "ss = []") simp_all
  ultimately show ?thesis using k [of "length rss"] by auto
qed

lemma Open_after_crash:
  assumes inv: "mgr_inv cs n (rss @ [rs]) m"
    and sealed: "\<forall>i < length rss. seg_durable cs (rss ! i) (segments m ! i)"
    and dir: "crashed_dir m disk" and flt: "opens flt" and c: "cfgChecksum c = Some cs" "Dir c = Dir (cfg m)"
  shows "\<exists>rs' m'. Open flt mts now disk subdirs c = Some (Inr m') \<and> kept cs (active m) rs rs'
    \<and> mgr_inv cs n (rss @ [rs']) m'"
proof -
  let ?c = "with_defaults c" and ?ss = "segments m"
  note cfg = with_defaults_keeps [OF c(1)]
  have l: "length ?ss = length rss + 1" using mgr_inv_length [OF inv] by simp
  have la: "list_all2 (\<lambda>rs s. seg_inv cs rs s \<and> seg_at (Dir ?c) s) (rss @ [rs]) ?ss"
    using inv cfg c(2) by (simp add: mgr_inv_def)
  have srt: "sorted_wrt (<) (map baseOffset ?ss)" by (rule mgr_inv_sorted [OF inv])
  then have dst: "distinct (map baseOffset ?ss)" by (auto simp: strict_sorted_iff)
  have cr: "\<forall>s \<in> set ?ss. crashed_seg disk s" and lf: "log_files disk (set (map baseOffset ?ss))"
    using dir unfolding crashed_dir_def by blast+
  obtain d' rss' ss' where R: "open_all flt mts now ?c disk [] (map baseOffset ?ss) = Some (Inr (d', ss'))"
    "list_all2 (\<lambda>rs s. seg_inv cs rs s \<and> seg_at (Dir ?c) s) rss' ss'" "map baseOffset ss' = map baseOffset ?ss"
    "list_all2 (\<lambda>(rs, s) rs'. kept cs s rs rs') (zip (rss @ [rs]) ?ss) rss'"
    and d': "\<forall>n. map_of d' n = (if n \<in> (\<lambda>s. SegmentFileName (baseOffset s)) ` set ?ss
          \<union> (\<lambda>s. indexFileName (SegmentFileName (baseOffset s))) ` set ?ss then None else map_of disk n)"
    using open_all_crash [OF la cr dst flt cfg(4), of mts now "[]"] by auto
  obtain rs' where rss': "rss' = rss @ [rs']" and kp: "kept cs (active m) rs rs'"
    using kept_sealed [OF R(4) l sealed] by (auto simp: active_def)
  have ne: "map baseOffset ?ss \<noteq> []" using l by auto
  have "discoverBaseOffsets flt (Dir ?c) (map (\<lambda>(n, _). (n, False)) disk @ map (\<lambda>n. (n, True)) subdirs) = Inr (map baseOffset ?ss)"
    using flt by (intro discover_bases [OF lf _ refl srt]) (simp add: opens_def)
  then have op: "Open flt mts now disk subdirs c = Some (Inr \<lparr>cfg = ?c, segments = ss', Metrics = zero_metrics, mdisk = d', stopped = False\<rparr>)"
    using R(1) flt ne by (simp add: Open_def Let_def opens_def)
  have "map (\<lambda>s. unat (baseOffset s)) ss' = map (\<lambda>s. unat (baseOffset s)) ?ss"
    using arg_cong [OF R(3), of "map unat"] by (simp add: comp_def)
  also have "\<dots> = starts n (rss @ [rs'])" using inv by (simp add: mgr_inv_def starts_append)
  finally have st: "map (\<lambda>s. unat (baseOffset s)) ss' = starts n (rss @ [rs'])" .
  have "[] \<notin> set rss" "ss' \<noteq> []" using inv R(3) ne by (auto simp: mgr_inv_def)
  then have "mgr_inv cs n (rss @ [rs']) \<lparr>cfg = ?c, segments = ss', Metrics = zero_metrics, mdisk = d', stopped = False\<rparr>"
    using R(2) st crash_vacant [OF dir d'] cfg(1-3) rss' c(2) by (simp add: mgr_inv_def)
  then show ?thesis using op kp by blast
qed

end

end
