(* ===== verification/Log_Interface.thy ===== *)
theory Log_Interface
  imports Manager
begin

text \<open>
  The interface between the segmented log and its users, \<open>ManagerInterface\<close> of
  \<open>internal/segment/manager.go\<close>, and the cursor of \<open>internal/segment/reader.go\<close> that is written
  against it.

  The locale \<open>log_manager\<close> states what users rely on: the manager behaves as a list of records
  that starts at some offset, grows at the end and loses records at the front. The manager of
  theory \<open>Manager\<close> interprets it.
\<close>

section \<open>The interface\<close>

record 'm ManagerInterface =
  iAppend :: "'m \<Rightarrow> bytes \<Rightarrow> ('m \<times> (goerror + u64)) option"
  iReadAt :: "'m \<Rightarrow> u64 \<Rightarrow> 'm \<times> (goerror + bytes)"
  iNextOffset :: "'m \<Rightarrow> u64"
  iEarliestOffset :: "'m \<Rightarrow> u64"
  iSegmentCount :: "'m \<Rightarrow> nat"
  iClose :: "'m \<Rightarrow> 'm \<times> goerror option"
  iRunRetention :: "'m \<Rightarrow> 'm option"

text \<open>The abstract log: records \<open>recs\<close> at the offsets from \<open>n\<close> on.\<close>

definition log_read :: "nat \<Rightarrow> bytes list \<Rightarrow> u64 \<Rightarrow> goerror + bytes" where
  "log_read n recs off =
     (if unat off < n then Inl (OffsetOutOfRetentionError off (of_nat n))
      else if unat off < n + length recs then Inr (recs ! (unat off - n))
      else Inl EOF)"

text \<open>An append that reports an error may still have stored the record.\<close>

definition log_append :: "nat \<Rightarrow> bytes list \<Rightarrow> bytes \<Rightarrow> goerror + u64 \<Rightarrow> bytes list \<Rightarrow> bool" where
  "log_append n recs data r recs' \<longleftrightarrow>
     (case r of
        Inr off \<Rightarrow> off = of_nat (n + length recs) \<and> recs' = recs @ [data]
      | Inl e \<Rightarrow> recs' = recs \<or> recs' = recs @ [data])"

locale log_manager =
  fixes mi :: "'m ManagerInterface" and is_log :: "'m \<Rightarrow> nat \<Rightarrow> bytes list \<Rightarrow> bool"
  assumes log_bound: "is_log m n recs \<Longrightarrow> n + length recs < 2 ^ 64"
    and size_law: "is_log m n recs \<Longrightarrow> data \<in> set recs \<Longrightarrow> length data \<le> MaxRecordSize"
    and read_law: "is_log m n recs \<Longrightarrow> iReadAt mi m off = (m, log_read n recs off)"
    and next_law: "is_log m n recs \<Longrightarrow> iNextOffset mi m = of_nat (n + length recs)"
    and earliest_law: "is_log m n recs \<Longrightarrow> iEarliestOffset mi m = of_nat n"
    and append_law: "is_log m n recs \<Longrightarrow> n + length recs + 1 < 2 ^ 64 \<Longrightarrow>
      \<exists>m' r recs'. iAppend mi m data = Some (m', r) \<and> log_append n recs data r recs' \<and> is_log m' n recs'"
    and retention_law: "is_log m n recs \<Longrightarrow> iRunRetention mi m = Some m' \<Longrightarrow>
      \<exists>k \<le> length recs. is_log m' (n + k) (drop k recs)"

text \<open>Sequences of calls, and what the abstract log allows them to return.\<close>

datatype log_op = DoAppend bytes | DoRead u64 | DoNext | DoEarliest | DoRetention
datatype log_res = Appended "goerror + u64" | Got "goerror + bytes" | At u64 | Done

fun exec :: "'m ManagerInterface \<Rightarrow> 'm \<Rightarrow> log_op \<Rightarrow> ('m \<times> log_res) option" where
  "exec mi m (DoAppend data) = map_option (\<lambda>(m', r). (m', Appended r)) (iAppend mi m data)"
| "exec mi m (DoRead off) = Some (case iReadAt mi m off of (m', r) \<Rightarrow> (m', Got r))"
| "exec mi m DoNext = Some (m, At (iNextOffset mi m))"
| "exec mi m DoEarliest = Some (m, At (iEarliestOffset mi m))"
| "exec mi m DoRetention = map_option (\<lambda>m'. (m', Done)) (iRunRetention mi m)"

fun exec_all :: "'m ManagerInterface \<Rightarrow> 'm \<Rightarrow> log_op list \<Rightarrow> ('m \<times> log_res list) option" where
  "exec_all mi m [] = Some (m, [])"
| "exec_all mi m (c # cs) =
     (case exec mi m c of
        None \<Rightarrow> None
      | Some (m1, r) \<Rightarrow> (case exec_all mi m1 cs of None \<Rightarrow> None | Some (m2, rs) \<Rightarrow> Some (m2, r # rs)))"

inductive log_step :: "nat \<times> bytes list \<Rightarrow> log_op \<Rightarrow> log_res \<Rightarrow> nat \<times> bytes list \<Rightarrow> bool" where
  ls_append: "log_append n recs data r recs' \<Longrightarrow> log_step (n, recs) (DoAppend data) (Appended r) (n, recs')"
| ls_read: "log_step (n, recs) (DoRead off) (Got (log_read n recs off)) (n, recs)"
| ls_next: "log_step (n, recs) DoNext (At (of_nat (n + length recs))) (n, recs)"
| ls_earliest: "log_step (n, recs) DoEarliest (At (of_nat n)) (n, recs)"
| ls_retention: "k \<le> length recs \<Longrightarrow> log_step (n, recs) DoRetention Done (n + k, drop k recs)"

inductive log_run :: "nat \<times> bytes list \<Rightarrow> log_op list \<Rightarrow> log_res list \<Rightarrow> nat \<times> bytes list \<Rightarrow> bool" where
  lr_done: "log_run s [] [] s"
| lr_step: "log_step s c r s1 \<Longrightarrow> log_run s1 cs rs s2 \<Longrightarrow> log_run s (c # cs) (r # rs) s2"

context log_manager
begin

lemma exec_step:
  assumes "is_log m n recs" "exec mi m c = Some (m', r)" "n + length recs + 1 < 2 ^ 64"
  shows "\<exists>n' recs'. log_step (n, recs) c r (n', recs') \<and> is_log m' n' recs' \<and> n' + length recs' \<le> n + length recs + 1"
proof (cases c)
  case (DoAppend data)
  obtain m1 r1 recs' where a: "iAppend mi m data = Some (m1, r1)" "log_append n recs data r1 recs'" "is_log m1 n recs'"
    using append_law [OF assms(1,3)] by blast
  have "length recs' \<le> length recs + 1" using a(2) by (auto simp: log_append_def split: sum.splits)
  then show ?thesis using a assms(2) DoAppend ls_append by fastforce
next
  case DoRetention
  then obtain k where "k \<le> length recs" "is_log m' (n + k) (drop k recs)" "r = Done"
    using retention_law [OF assms(1)] assms(2) by auto
  then show ?thesis using DoRetention ls_retention by fastforce
next
  case (DoRead off)
  then have "r = Got (log_read n recs off)" "m' = m" using assms(2) read_law [OF assms(1)] by auto
  then show ?thesis using DoRead assms(1) by (intro exI [of _ n] exI [of _ recs]) (simp add: ls_read)
next
  case DoNext
  then have "r = At (of_nat (n + length recs))" "m' = m" using assms(2) next_law [OF assms(1)] by auto
  then show ?thesis using DoNext assms(1) ls_next [of n recs] by (intro exI [of _ n] exI [of _ recs]) simp
next
  case DoEarliest
  then have "r = At (of_nat n)" "m' = m" using assms(2) earliest_law [OF assms(1)] by auto
  then show ?thesis using DoEarliest assms(1) ls_earliest [of n recs] by (intro exI [of _ n] exI [of _ recs]) simp
qed

lemma exec_all_refines:
  assumes "is_log m n recs" "exec_all mi m ops = Some (m', rs)" "n + length recs + length ops < 2 ^ 64"
  shows "\<exists>n' recs'. log_run (n, recs) ops rs (n', recs') \<and> is_log m' n' recs'"
  using assms
proof (induction ops arbitrary: m n recs rs)
  case Nil
  then show ?case by (auto intro: lr_done)
next
  case (Cons c ops)
  obtain m1 r rs1 where e: "exec mi m c = Some (m1, r)" "exec_all mi m1 ops = Some (m', rs1)" "rs = r # rs1"
    using Cons.prems(2) by (auto split: option.splits)
  obtain n1 recs1 where s: "log_step (n, recs) c r (n1, recs1)" "is_log m1 n1 recs1" "n1 + length recs1 \<le> n + length recs + 1"
    using exec_step [OF Cons.prems(1) e(1)] Cons.prems(3) by auto
  then obtain n' recs' where "log_run (n1, recs1) ops rs1 (n', recs')" "is_log m' n' recs'"
    using Cons.IH [OF s(2) e(2)] Cons.prems(3) by auto
  then show ?case using s(1) e(3) by (auto intro: lr_step)
qed

end

section \<open>The manager provides it\<close>

definition manager_iface :: "faults \<Rightarrow> (string \<Rightarrow> int option) \<Rightarrow> int \<Rightarrow> manager ManagerInterface" where
  "manager_iface flt mts now =
     \<lparr>iAppend = Append flt mts now, iReadAt = ReadAt flt, iNextOffset = mgr_NextOffset,
      iEarliestOffset = EarliestOffset, iSegmentCount = SegmentCount, iClose = mgr_Close flt,
      iRunRetention = RunRetention flt now now\<rparr>"

text \<open>The manager holds these records, reads succeed and failed writes store nothing.\<close>

definition serves :: "faults \<Rightarrow> checksum \<Rightarrow> manager \<Rightarrow> nat \<Rightarrow> bytes list \<Rightarrow> bool" where
  "serves flt cs m n recs \<longleftrightarrow> checksum_alg cs \<and> atomic_writes flt \<and> (\<forall>f p. flt (SysReadAt f p) = None)
     \<and> holds cs n recs m"

lemma mgr_inv_small:
  assumes inv: "mgr_inv cs n rss m" and d: "data \<in> set (concat rss)"
  shows "length data \<le> MaxRecordSize"
proof -
  obtain rs where "rs \<in> set rss" "data \<in> set rs" using d by auto
  then obtain i where i: "i < length rss" "data \<in> set (rss ! i)" by (metis in_set_conv_nth)
  then have "i < length (segments m)" using mgr_inv_length [OF inv] by simp
  from mgr_inv_seg(1) [OF inv this] obtain b k where "wal_inv (rss ! i) b k (writer (segments m ! i))"
    by (auto simp: seg_inv_def)
  then have "small (rss ! i)" by (simp add: wal_inv_def)
  then show ?thesis using i(2) by (simp add: small_def)
qed

interpretation mgr: log_manager "manager_iface flt mts now" "serves flt cs" for flt mts now cs
proof
  fix m n recs off m' data
  assume s: "serves flt cs m n recs"
  then obtain rss where inv: "mgr_inv cs n rss m" and recs: "concat rss = recs" and cs: "checksum_alg cs"
    and rd: "\<forall>f p. flt (SysReadAt f p) = None" and at: "atomic_writes flt" and h: "holds cs n recs m"
    by (auto simp: serves_def holds_def)
  note b = mgr_inv_bounds [OF inv]
  show "n + length recs < 2 ^ 64" using b(3) recs by simp
  show "length data \<le> MaxRecordSize" if "data \<in> set recs"
    using mgr_inv_small [OF inv] that recs by simp
  show "iReadAt (manager_iface flt mts now) m off = (m, log_read n recs off)"
    using checksum_alg.ReadAt_spec [OF cs inv rd, of off] recs
    by (auto simp: manager_iface_def log_read_def prod_eq_iff ReadAt_state)
  have u: "of_nat (unat x) = (x :: u64)" for x by simp
  show "iNextOffset (manager_iface flt mts now) m = of_nat (n + length recs)"
    using u [of "mgr_NextOffset m"] b(2) recs by (simp add: manager_iface_def)
  show "iEarliestOffset (manager_iface flt mts now) m = of_nat n"
    using u [of "EarliestOffset m"] b(1) by (simp add: manager_iface_def)
  show "\<exists>m' r recs'. iAppend (manager_iface flt mts now) m data = Some (m', r) \<and> log_append n recs data r recs'
      \<and> serves flt cs m' n recs'" if room: "n + length recs + 1 < 2 ^ 64"
  proof -
    obtain rss0 rs0 where inv0: "mgr_inv cs n (rss0 @ [rs0]) m" and r0: "concat (rss0 @ [rs0]) = recs"
      using mgr_invE [OF inv] recs by metis
    obtain m' r where a: "Append flt mts now m data = Some (m', r)" and
      c: "case r of
       Inl e \<Rightarrow> holds cs n recs m' \<or> holds cs n (recs @ [data]) m'
     | Inr off \<Rightarrow> off = of_nat (n + length recs)
         \<and> (\<exists>rss' rs'. mgr_inv cs n (rss' @ [rs' @ [data]]) m' \<and> continues rss0 rs0 m rss' rs' m'
              \<and> seg_durable cs (rs' @ [data]) (active m'))"
      using checksum_alg.Append_any [OF cs inv0 at, unfolded r0, OF room] by blast
    have "\<exists>recs'. log_append n recs data r recs' \<and> holds cs n recs' m'"
    proof (cases r)
      case (Inl e)
      then show ?thesis using c by (auto simp: log_append_def)
    next
      case (Inr o')
      then obtain rss' rs' where "mgr_inv cs n (rss' @ [rs' @ [data]]) m'" "continues rss0 rs0 m rss' rs' m'"
        "o' = of_nat (n + length recs)" using c by auto
      moreover from this have "concat (rss' @ [rs' @ [data]]) = recs @ [data]" using r0 by (auto simp: continues_def)
      ultimately have "holds cs n (recs @ [data]) m'" "o' = of_nat (n + length recs)" by (auto simp: holds_def)
      then show ?thesis using Inr by (auto simp: log_append_def)
    qed
    then show ?thesis using a cs at rd by (auto simp: manager_iface_def serves_def)
  qed
  show "\<exists>k \<le> length recs. serves flt cs m' (n + k) (drop k recs)"
    if "iRunRetention (manager_iface flt mts now) m = Some m'"
  proof -
    have r: "RunRetention flt now now m = Some m'" using that by (simp add: manager_iface_def)
    define k where "k = length (victims (now - Retention (cfg m)) (MaxDeletesPerRun (cfg m)) 0 (segments m))"
    have inv': "mgr_inv cs (n + length (concat (take k rss))) (drop k rss) m'"
      using RunRetention_any(1) [OF inv r] unfolding k_def .
    have "concat (drop k rss) = drop (length (concat (take k rss))) recs"
      using recs by (metis append_eq_conv_conj append_take_drop_id concat_append)
    then have "serves flt cs m' (n + length (concat (take k rss))) (drop (length (concat (take k rss))) recs)"
      using inv' cs at rd by (auto simp: serves_def holds_def)
    moreover have "length (concat (take k rss)) \<le> length recs" using concat_take_le [of k rss] recs by simp
    ultimately show ?thesis by blast
  qed
qed

section \<open>Cursors\<close>

text \<open>\<open>segment.Reader\<close>: the manager it reads from is an argument of the operations.\<close>

record Reader =
  rd_offset :: u64

definition NewReader :: "'m ManagerInterface \<Rightarrow> 'm \<Rightarrow> Reader" where
  "NewReader mi m = \<lparr>rd_offset = iEarliestOffset mi m\<rparr>"

definition Reader_ReadAt :: "'m ManagerInterface \<Rightarrow> 'm \<Rightarrow> Reader \<Rightarrow> u64 \<Rightarrow> 'm \<times> (goerror + bytes)" where
  "Reader_ReadAt mi m r off = iReadAt mi m off"

text \<open>\<open>Next\<close> returns the record and its offset, or an error with the cursor where it was.\<close>

definition Next :: "'m ManagerInterface \<Rightarrow> 'm \<Rightarrow> Reader \<Rightarrow> 'm \<times> Reader \<times> u64 \<times> (goerror + bytes)" where
  "Next mi m r =
     (case iReadAt mi m (rd_offset r) of
        (m1, Inl e) \<Rightarrow> (m1, r, rd_offset r, Inl e)
      | (m1, Inr data) \<Rightarrow> (m1, r\<lparr>rd_offset := rd_offset r + 1\<rparr>, rd_offset r, Inr data))"

definition ResetToEarliest :: "'m ManagerInterface \<Rightarrow> 'm \<Rightarrow> Reader \<Rightarrow> Reader \<times> u64" where
  "ResetToEarliest mi m r = (let earliest = iEarliestOffset mi m in (r\<lparr>rd_offset := earliest\<rparr>, earliest))"

definition Seek :: "Reader \<Rightarrow> u64 \<Rightarrow> Reader" where
  "Seek r off = r\<lparr>rd_offset := off\<rparr>"

definition Reader_Offset :: "Reader \<Rightarrow> u64" where
  "Reader_Offset r = rd_offset r"

definition Reader_Close :: "Reader \<Rightarrow> goerror option" where
  "Reader_Close r = None"

text \<open>A consumer that calls \<open>Next\<close> up to \<open>k\<close> times and stops at the first error.\<close>

fun consume :: "'m ManagerInterface \<Rightarrow> 'm \<Rightarrow> Reader \<Rightarrow> nat \<Rightarrow> Reader \<times> (u64 \<times> bytes) list \<times> goerror option" where
  "consume mi m r 0 = (r, [], None)"
| "consume mi m r (Suc k) =
     (case Next mi m r of
        (m1, r1, off, Inl e) \<Rightarrow> (r1, [], Some e)
      | (m1, r1, off, Inr data) \<Rightarrow>
          (case consume mi m1 r1 k of (r2, xs, e) \<Rightarrow> (r2, (off, data) # xs, e)))"

context log_manager
begin

lemma Next_hit:
  assumes "is_log m n recs" "rd_offset r = of_nat (n + j)" "j < length recs"
  shows "Next mi m r = (m, r\<lparr>rd_offset := of_nat (n + Suc j)\<rparr>, of_nat (n + j), Inr (recs ! j))"
proof -
  have "unat (of_nat (n + j) :: u64) = n + j" using log_bound [OF assms(1)] assms(3) unfolding unat_of_nat by simp
  then have "log_read n recs (rd_offset r) = Inr (recs ! j)" using assms(2,3) by (simp add: log_read_def)
  then show ?thesis using read_law [OF assms(1)] assms(2) by (simp add: Next_def algebra_simps)
qed

lemma Next_end:
  assumes "is_log m n recs" "rd_offset r = of_nat (n + length recs)"
  shows "Next mi m r = (m, r, of_nat (n + length recs), Inl EOF)"
proof -
  have "unat (of_nat (n + length recs) :: u64) = n + length recs" using log_bound [OF assms(1)] unfolding unat_of_nat by simp
  then have "log_read n recs (rd_offset r) = Inl EOF" using assms(2) by (simp add: log_read_def)
  then show ?thesis using read_law [OF assms(1)] assms(2) by (simp add: Next_def)
qed

text \<open>A cursor inside the log walks every record from there on, in order, and then reports \<open>io.EOF\<close>.\<close>

lemma consume_all:
  assumes "is_log m n recs" "rd_offset r = of_nat (n + j)" "j \<le> length recs" "length recs - j < k"
  shows "consume mi m r k =
    (r\<lparr>rd_offset := of_nat (n + length recs)\<rparr>, zip (map of_nat [n + j..<n + length recs]) (drop j recs), Some EOF)"
  using assms(2-4)
proof (induction k arbitrary: r j)
  case (Suc k)
  show ?case
  proof (cases "j < length recs")
    case True
    let ?r = "r\<lparr>rd_offset := of_nat (n + Suc j)\<rparr>"
    have "consume mi m ?r k = (?r\<lparr>rd_offset := of_nat (n + length recs)\<rparr>,
        zip (map of_nat [n + Suc j..<n + length recs]) (drop (Suc j) recs), Some EOF)"
      by (rule Suc.IH) (use True Suc.prems(3) in auto)
    moreover have "[n + j..<n + length recs] = (n + j) # [n + Suc j..<n + length recs]"
      using True by (simp add: upt_conv_Cons)
    moreover have "drop j recs = recs ! j # drop (Suc j) recs" using True by (simp add: Cons_nth_drop_Suc)
    ultimately show ?thesis using Next_hit [OF assms(1) Suc.prems(1) True] by simp
  next
    case False
    then have "j = length recs" using Suc.prems(2) by simp
    then show ?thesis using Next_end [OF assms(1), of r] Suc.prems(1) by simp
  qed
qed simp

lemma Next_lagging:
  assumes "is_log m n recs" "unat (rd_offset r) < n"
  shows "Next mi m r = (m, r, rd_offset r, Inl (OffsetOutOfRetentionError (rd_offset r) (of_nat n)))"
  using read_law [OF assms(1)] assms(2) by (simp add: Next_def log_read_def)

end

end
