(* ===== verification/Log_Properties.thy ===== *)
theory Log_Properties
  imports Log_Interface Restart Wal_Properties
begin

text \<open>
  What the segmented log guarantees as a whole: it refines an abstract log, acknowledged appends
  survive crashes, retention removes only expired segments from the front, cursors walk the whole
  log; and the one gap in these guarantees, a roll that overtakes an uncommitted append.
\<close>

section \<open>Runs without faults\<close>

definition healthy :: "faults \<Rightarrow> bool" where
  "healthy flt \<longleftrightarrow> opens flt \<and> (\<forall>f. flt (SysWrite f) = None \<and> flt (SysSync f) = None)"

lemma healthy_no_faults: "healthy no_faults" "opens no_faults" "atomic_writes no_faults"
  by (simp_all add: healthy_def opens_def openable_def recoverable_def readable_def no_faults_def atomic_writes_def
      atomic_append_def)

lemma healthy_atomic: "healthy flt \<Longrightarrow> atomic_writes flt"
  by (simp add: healthy_def atomic_writes_def atomic_append_def)

text \<open>The active segment takes another record.\<close>

definition accepts :: "checksum \<Rightarrow> bytes list \<Rightarrow> segment \<Rightarrow> bytes \<Rightarrow> bool" where
  "accepts cs rs s data \<longleftrightarrow> syncErr (writer s) = None \<and> length data \<le> MaxRecordSize
     \<and> length (encode_log cs (rs @ [data])) \<le> max_file_size"

context checksum_alg
begin

lemma accepts_new: "syncErr (writer s) = None \<Longrightarrow> length data \<le> MaxRecordSize \<Longrightarrow> accepts cs [] s data"
  using headerSize_bounds(2) by (simp add: accepts_def MaxRecordSize_def max_file_size_def)

lemma seg_append_succeeds:
  assumes inv: "seg_inv cs rs s" and acc: "accepts cs rs s data" and flt: "healthy flt"
  obtains s1 l seq s2 where "seg_reserve flt s data now = (s1, Inr (l, seq))" "seg_commit flt s1 seq = Some (s2, None)"
    "syncErr (writer s2) = None"
proof -
  obtain b k where w: "wal_inv rs b k (writer s)" "wcsum (writer s) = cs" "\<not> syncing (writer s)" "syncErr (writer s) = None"
    using inv acc by (auto simp: seg_inv_def accepts_def)
  have fl: "flt (SysWrite f) = None" "flt (SysSync f) = None" for f using flt by (simp_all add: healthy_def)
  obtain w1 where R: "Reserve flt (writer s) data = (w1, Inr (of_nat (length rs), of_nat (length rs - b + 1)))"
    using Reserve_succeeds [of rs b k "writer s" data flt, OF w(1,2) _ fl(1)] acc by (auto simp: accepts_def)
  note ok = Reserve_ok [OF w(1,2) R]
  have le: "length rs - b + 1 \<le> length (rs @ [data]) - b" using w(1) by (auto simp: wal_inv_def)
  obtain w2 where C: "commitLocked flt (of_nat (length rs - b + 1)) w1 = Some (w2, None)" "syncErr w2 = None"
    using commitLocked_returns [of _ _ _ w1 _ flt, OF ok(1,2) _ _ le fl(2)] ok(6,7) w(3,4) by auto
  show ?thesis
    by (rule that [of "s\<lparr>writer := w1, lastAppend := now\<rparr>" "of_nat (length rs)" "of_nat (length rs - b + 1)"
          "s\<lparr>writer := w2, lastAppend := now\<rparr>"]) (use R C in \<open>simp_all add: seg_reserve_def seg_commit_def Commit_def\<close>)
qed

text \<open>Without faults an append succeeds, and the next one will find a segment that accepts it.\<close>

lemma Append_succeeds:
  assumes inv: "mgr_inv cs n (rss @ [rs]) m" and acc: "accepts cs rs (active m) data" and flt: "healthy flt"
    and room: "n + length (concat (rss @ [rs])) + 1 < 2 ^ 64"
  shows "\<exists>m'. Append flt mts now m data = Some (m', Inr (of_nat (n + length (concat (rss @ [rs])))))
    \<and> syncErr (writer (active m')) = None"
proof -
  let ?roll = "if seg_Size (active m) \<ge> MaxSegmentBytes (cfg m) then roll flt mts now m else Some (m, None)"
  have "\<exists>rss1 rs1 m1. ?roll = Some (m1, None) \<and> mgr_inv cs n (rss1 @ [rs1]) m1 \<and> accepts cs rs1 (active m1) data"
  proof (cases "seg_Size (active m) \<ge> MaxSegmentBytes (cfg m)")
    case True
    note act = mgr_inv_active [OF inv]
    let ?b = "seg_NextOffset (active m)"
    have ne: "rs \<noteq> []" using True inv seg_Size_iff [OF act(1)] by (auto simp: mgr_inv_def)
    have "unat ?b = n + length (concat (rss @ [rs]))" using seg_inv_next [OF act(1)] act(3) by simp
    then have vac: "vacant (mdisk m) (Dir (cfg m)) (SegmentFileName ?b)"
      "vacant (mdisk m) (Dir (cfg m)) (indexFileName (SegmentFileName ?b))"
      using inv by (auto simp: mgr_inv_def)
    then obtain m1 where r: "roll flt mts now m = Some (m1, None)"
      using NewSegment_opens [OF vac, of flt "mts (SegmentFileName ?b)" now] flt act(4)
      by (auto simp: roll_def Let_def healthy_def)
    then have "mgr_inv cs n ((rss @ [rs]) @ [[]]) m1" "syncErr (writer (active m1)) = None"
      using roll_any [OF inv ne r] by simp_all
    then show ?thesis using r True accepts_new acc unfolding accepts_def by metis
  qed (use inv acc in auto)
  then obtain rss1 rs1 m1 where R: "?roll = Some (m1, None)" "mgr_inv cs n (rss1 @ [rs1]) m1" "accepts cs rs1 (active m1) data"
    by blast
  obtain s1 l seq s2 where S: "seg_reserve flt (active m1) data now = (s1, Inr (l, seq))"
    "seg_commit flt s1 seq = Some (s2, None)" "syncErr (writer s2) = None"
    using seg_append_succeeds [OF mgr_inv_active(1) [OF R(2)] R(3) flt] by metis
  have A: "Append flt mts now m data = Some (set_active (set_active m1 s1) s2, Inr (BaseOffset s1 + l))"
    using R(1) S by (simp add: Append_def append_reserve_def)
  then show ?thesis
    using Append_any [OF inv healthy_atomic [OF flt] room, of mts now data] S(3) by auto
qed

end

section \<open>Refinement and durability\<close>

text \<open>C1: the segmented log refines an abstract log, a list of records that starts at some offset. Whatever
  sequence of appends, reads, offset queries and retention passes runs, with failing fsyncs and failing rolls
  among them, every result is one the abstract log allows: reads return the record at their offset,
  \<open>io.EOF\<close> at the end and the retention error before the start, and appends get consecutive offsets.\<close>

theorem manager_refines_log:
  assumes "serves flt cs m n recs" "exec_all (manager_iface flt mts now) m ops = Some (m', rs)"
    "n + length recs + length ops < 2 ^ 64"
  shows "\<exists>n' recs'. log_run (n, recs) ops rs (n', recs') \<and> serves flt cs m' n' recs'"
  by (rule mgr.exec_all_refines [OF assms])

definition demo_cfg :: Config where
  "demo_cfg = \<lparr>Dir = ''/log'', MaxSegmentBytes = 1, Retention = 10, CheckInterval = 1, MaxDeletesPerRun = 0,
     DisableRetention = True, cfgChecksum = Some NewCRC32C\<rparr>"

text \<open>A new log in an empty directory.\<close>

lemma demo_open:
  obtains m where "Open no_faults (\<lambda>_. None) 0 [] [] demo_cfg = Some (Inr m)" "mgr_inv NewCRC32C 0 [[]] m"
    "serves no_faults NewCRC32C m 0 []" "cfg m = demo_cfg" "syncErr (writer (active m)) = None"
    "synced (wfile (writer (active m))) = []" "readers (active m) = 0"
proof -
  have c: "cfgChecksum demo_cfg = Some NewCRC32C" "with_defaults demo_cfg = demo_cfg"
    by (simp_all add: demo_cfg_def with_defaults_def)
  obtain m where m: "Open no_faults (\<lambda>_. None) 0 [] [] demo_cfg = Some (Inr m)" "mgr_inv NewCRC32C 0 [[]] m"
    "cfg m = with_defaults demo_cfg" "syncErr (writer (active m)) = None" "readers (active m) = 0"
    using crc32c.Open_fresh [OF healthy_no_faults(2) c(1)] by blast
  have "serves no_faults NewCRC32C m 0 []"
    unfolding serves_def holds_def using m(2) healthy_no_faults crc32c_alg
    by (auto simp: no_faults_def intro: exI [of _ "[[]]"])
  moreover have "synced (wfile (writer (active m))) = []"
    using mgr_inv_active(1) [of NewCRC32C 0 "[]" "[]" m] m(2) by (auto simp: seg_inv_def wal_inv_def file_ok_def)
  ultimately show ?thesis using that m c(2) by simp
qed

lemma demo_append:
  assumes "mgr_inv NewCRC32C n (rss @ [rs]) m" "syncErr (writer (active m)) = None" "length rs \<le> 1" "\<forall>r \<in> set rs. length r = 1"
    "n + length (concat (rss @ [rs])) < 100"
  shows "\<exists>m'. Append no_faults (\<lambda>_. None) 0 m [x] = Some (m', Inr (of_nat (n + length (concat (rss @ [rs])))))
    \<and> syncErr (writer (active m')) = None"
proof -
  have "accepts NewCRC32C rs (active m) [x]"
    using assms(2-4) by (cases rs) (auto simp: accepts_def MaxRecordSize_def max_file_size_def)
  then show ?thesis using crc32c.Append_succeeds [OF assms(1) _ healthy_no_faults(1)] assms(5) by simp
qed

theorem manager_refines_log_witness:
  "\<exists>m m' rs s. Open no_faults (\<lambda>_. None) 0 [] [] demo_cfg = Some (Inr m)
    \<and> exec_all (manager_iface no_faults (\<lambda>_. None) 0) m [DoAppend [7], DoRead 0] = Some (m', rs)
    \<and> log_run (0, []) [DoAppend [7], DoRead 0] rs s"
proof -
  obtain m where m: "Open no_faults (\<lambda>_. None) 0 [] [] demo_cfg = Some (Inr m)" "mgr_inv NewCRC32C 0 [[]] m"
    "serves no_faults NewCRC32C m 0 []" "syncErr (writer (active m)) = None" using demo_open by blast
  obtain m1 where "Append no_faults (\<lambda>_. None) 0 m [7] = Some (m1, Inr 0)"
    using demo_append [of 0 "[]" "[]" m 7] m by auto
  then have e: "exec_all (manager_iface no_faults (\<lambda>_. None) 0) m [DoAppend [7], DoRead 0] =
      Some (fst (ReadAt no_faults m1 0), [Appended (Inr 0), Got (snd (ReadAt no_faults m1 0))])"
    by (simp add: manager_iface_def split_beta)
  have "\<exists>n' recs'. log_run (0, []) [DoAppend [7], DoRead 0] [Appended (Inr 0), Got (snd (ReadAt no_faults m1 0))] (n', recs')"
    using manager_refines_log [OF m(3) e] by auto
  then show ?thesis using m(1) e by blast
qed

text \<open>Every record of every segment is durable.\<close>

definition all_durable :: "checksum \<Rightarrow> bytes list list \<Rightarrow> manager \<Rightarrow> bool" where
  "all_durable cs rss m \<longleftrightarrow> list_all2 (seg_durable cs) rss (segments m)"

lemma all_durable_nth: "all_durable cs rss m \<Longrightarrow> i < length rss \<Longrightarrow> seg_durable cs (rss ! i) (segments m ! i)"
  by (auto simp: all_durable_def list_all2_conv_all_nth)

lemma all_durable_continues:
  assumes dur: "all_durable cs (rss @ [rs]) m" and ct: "continues rss rs m rss' rs' m'" and ne: "segments m' \<noteq> []"
    and act: "seg_durable cs (rs' @ [data]) (active m')"
  shows "all_durable cs (rss' @ [rs' @ [data]]) m'"
proof -
  have seg: "segments m' = butlast (segments m') @ [active m']" using ne by (simp add: active_def)
  obtain ss s where ss: "segments m = ss @ [s]"
    using dur by (cases "segments m" rule: rev_cases) (auto simp: all_durable_def)
  have "list_all2 (seg_durable cs) rss' (butlast (segments m'))"
    using ct dur ss by (auto simp: continues_def all_durable_def)
  then show ?thesis unfolding all_durable_def by (subst seg) (simp add: act)
qed


text \<open>The directory that \<open>kill -9\<close> with an intact disk leaves behind.\<close>

definition dir_of :: "manager \<Rightarrow> disk" where
  "dir_of m = concat (map (\<lambda>s. [log_entry s, index_file_entry s]) (segments m))"

lemma map_of_dir_of:
  assumes "distinct (map baseOffset ss)" "s \<in> set ss"
  shows "map_of (concat (map (\<lambda>s. [log_entry s, index_file_entry s]) ss)) (SegmentFileName (baseOffset s)) = Some (wfile (writer s))"
    "map_of (concat (map (\<lambda>s. [log_entry s, index_file_entry s]) ss)) (indexFileName (SegmentFileName (baseOffset s))) =
      Some (indexFile (wstore (writer s)))"
  using assms
proof (induction ss)
  case (Cons x ss)
  have ne: "indexFileName (SegmentFileName a) \<noteq> SegmentFileName b" "SegmentFileName b \<noteq> indexFileName (SegmentFileName a)" for a b
    using index_not_segment [of a b] by auto
  {
    case 1
    then show ?case using Cons.IH(1)
      by (cases "baseOffset x = baseOffset s") (auto simp: log_entry_def index_file_entry_def ne)
  next
    case 2
    then show ?case using Cons.IH(2)
      by (cases "baseOffset x = baseOffset s") (auto simp: log_entry_def index_file_entry_def ne indexFileName_inject)
  }
qed simp_all

lemma dir_of_names:
  assumes "distinct (map baseOffset ss)"
  shows "distinct (map fst (concat (map (\<lambda>s. [log_entry s, index_file_entry s]) ss)))"
  using assms
proof (induction ss)
  case (Cons x ss)
  have ne: "SegmentFileName a \<noteq> indexFileName (SegmentFileName b)" for a b
    using index_not_segment [of b a] by auto
  let ?n = "concat (map (\<lambda>s. [log_entry s, index_file_entry s]) ss)"
  have old: "fst e \<noteq> fst (log_entry x) \<and> fst e \<noteq> fst (index_file_entry x)"
    if e: "e \<in> set (concat (map (\<lambda>s. [log_entry s, index_file_entry s]) ss))" for e
  proof -
    obtain s where "s \<in> set ss" "e \<in> {log_entry s, index_file_entry s}" using e by auto
    moreover from this have "baseOffset s \<noteq> baseOffset x" using Cons.prems by (metis distinct.simps(2) image_eqI list.simps(9) set_map)
    ultimately show ?thesis
      by (auto simp: log_entry_def index_file_entry_def indexFileName_inject index_not_segment ne)
  qed
  have "fst (log_entry x) \<notin> fst ` set ?n"
  proof
    assume "fst (log_entry x) \<in> fst ` set ?n"
    then obtain e where "e \<in> set ?n" "fst (log_entry x) = fst e" by (rule imageE)
    then show False using old [of e] by simp
  qed
  moreover have "fst (index_file_entry x) \<notin> fst ` set ?n"
  proof
    assume "fst (index_file_entry x) \<in> fst ` set ?n"
    then obtain e where "e \<in> set ?n" "fst (index_file_entry x) = fst e" by (rule imageE)
    then show False using old [of e] by simp
  qed
  moreover have "fst (log_entry x) \<noteq> fst (index_file_entry x)" by (simp add: log_entry_def index_file_entry_def ne)
  ultimately show ?case using Cons by simp
qed simp

lemma dir_of_log_files:
  assumes "mgr_inv cs n rss m"
  shows "log_files (dir_of m) (set (map baseOffset (segments m)))"
proof -
  have d: "distinct (map baseOffset (segments m))" using mgr_inv_sorted [OF assms] by (auto simp: strict_sorted_iff)
  have "\<not> HasSuffix (indexFileName (SegmentFileName b)) segmentSuffix" for b
    unfolding indexFileName_SegmentFileName by (simp add: HasSuffix_def segmentSuffix_def)
  then show ?thesis
    unfolding log_files_def dir_of_def using dir_of_names [OF d]
    by (auto simp: log_entry_def index_file_entry_def) force
qed

lemma crashed_dir_self:
  assumes inv: "mgr_inv cs n rss m" and small: "\<forall>s \<in> set (segments m). length (content (wfile (writer s))) < 2 ^ 62"
  shows "crashed_dir m (dir_of m)"
proof -
  have d: "distinct (map baseOffset (segments m))" using mgr_inv_sorted [OF inv] by (auto simp: strict_sorted_iff)
  have "crashed_seg (dir_of m) s" if s: "s \<in> set (segments m)" for s
  proof -
    obtain rs where "seg_inv cs rs s"
      using inv s by (auto simp: mgr_inv_def list_all2_conv_all_nth in_set_conv_nth)
    then have "prefix (synced (wfile (writer s))) (content (wfile (writer s)))"
      by (auto simp: seg_inv_def dest: wal_inv_file)
    then show ?thesis
      using map_of_dir_of [OF d s] small s by (simp add: crashed_seg_def dir_of_def crashed_def crash_image_def)
  qed
  moreover have "vacant (dir_of m) (Dir (cfg m)) (indexFileName (SegmentFileName b))" if b: "b \<notin> set (map baseOffset (segments m))" for b
  proof -
    have "indexFileName (SegmentFileName b) \<notin> fst ` set (dir_of m)"
      using b by (auto simp: dir_of_def log_entry_def index_file_entry_def indexFileName_inject index_not_segment)
    then show ?thesis by (simp add: vacant_def map_of_eq_None_iff [THEN iffD2])
  qed
  ultimately show ?thesis using dir_of_log_files [OF inv] by (simp add: crashed_dir_def)
qed

text \<open>A log of two segments with one record each, the first last written at time 0, the second at time 95.\<close>

definition demo_file :: "string \<Rightarrow> bytes \<Rightarrow> os_file" where
  "demo_file name c = \<lparr>fname = filepath_Join ''/log'' name, content = c, synced = c\<rparr>"

definition demo_seg :: "u64 \<Rightarrow> byte \<Rightarrow> int \<Rightarrow> segment" where
  "demo_seg base x t =
     \<lparr>baseOffset = base,
      writer = \<lparr>wfile = demo_file (SegmentFileName base) (encode_log NewCRC32C [[x]]), wcsum = NewCRC32C, wsize = 9,
        nextOffset = 1, writeSeq = 0, syncedSeq = 0, syncing = False, syncErr = None, pending = [],
        wstore = \<lparr>offsets = [], positions = [], index = Map.empty,
          indexFile = demo_file (indexFileName (SegmentFileName base)) [], seen = 0, nthIndex = NthIndex\<rparr>\<rparr>,
      sreader = \<lparr>roffset = 0, rcsum = NewCRC32C\<rparr>, path = filepath_Join ''/log'' (SegmentFileName base),
      lastAppend = t, readers = 0\<rparr>"

definition demo_mgr :: manager where
  "demo_mgr = \<lparr>cfg = demo_cfg, segments = [demo_seg 0 1 0, demo_seg 1 2 95], Metrics = zero_metrics, mdisk = [],
     stopped = False\<rparr>"

lemma demo_seg_ok:
  assumes "unat base < 100"
  shows "seg_inv NewCRC32C [[x]] (demo_seg base x t)" "seg_at ''/log'' (demo_seg base x t)"
    "seg_durable NewCRC32C [[x]] (demo_seg base x t)"
proof -
  have "wal_inv [[x]] 1 0 (writer (demo_seg base x t))"
    by (simp add: demo_seg_def wal_inv_def demo_file_def file_ok_def small_def store_inv_def entries_def index_lags_def
        sound_entries_def durable_def MaxRecordSize_def max_file_size_def)
      (rule exI [of _ 0], simp)
  then show "seg_inv NewCRC32C [[x]] (demo_seg base x t)"
    unfolding seg_inv_def using assms
    by (intro conjI exI) (auto simp: demo_seg_def store_file_ok_def store_synced_def entries_def encode_entries_def demo_file_def)
qed (simp_all add: demo_seg_def seg_at_def demo_file_def seg_durable_def durable_def)

lemma demo_mgr_inv: "mgr_inv NewCRC32C 0 [[[1]], [[2]]] demo_mgr"
  using demo_seg_ok [of 0] demo_seg_ok [of 1]
  by (simp add: mgr_inv_def demo_mgr_def demo_cfg_def vacant_def) (simp add: demo_seg_def)

lemma demo_mgr_durable: "all_durable NewCRC32C [[[1]], [[2]]] demo_mgr"
  using demo_seg_ok [of 0] demo_seg_ok [of 1] by (simp add: all_durable_def demo_mgr_def)

lemma demo_mgr_serves: "serves no_faults NewCRC32C demo_mgr 0 [[1], [2]]"
  unfolding serves_def holds_def using demo_mgr_inv healthy_no_faults crc32c_alg
  by (auto simp: no_faults_def intro: exI [of _ "[[[1]], [[2]]]"])

lemma seg_content_le:
  assumes "mgr_inv cs n rss m" "s \<in> set (segments m)"
  shows "length (content (wfile (writer s))) \<le> length (encode_log cs (concat rss))"
proof -
  obtain i where i: "i < length (segments m)" "s = segments m ! i" using assms(2) by (auto simp: in_set_conv_nth)
  have l: "i < length rss" using mgr_inv_length [OF assms(1)] i by simp
  have "content (wfile (writer s)) = encode_log cs (rss ! i)"
    using mgr_inv_seg(1) [OF assms(1) i(1)] i(2) by (auto simp: seg_inv_def wal_inv_def)
  moreover have "concat rss = concat (take i rss) @ rss ! i @ concat (drop (Suc i) rss)"
    by (subst id_take_nth_drop [OF l]) simp
  ultimately show ?thesis by simp
qed




section \<open>Retention\<close>



section \<open>Cursors\<close>

text \<open>C24: a cursor opened on the log and advanced with \<open>Next\<close> returns every record exactly once with its offset, in
  order and across segment boundaries, and then \<open>io.EOF\<close>; it stays at the end, where the next append will be.\<close>

theorem reader_walks_whole_log:
  assumes "serves flt cs m n recs" "length recs < k"
  shows "consume (manager_iface flt mts now) m (NewReader (manager_iface flt mts now) m) k =
    (\<lparr>rd_offset = mgr_NextOffset m\<rparr>, zip (map of_nat [n..<n + length recs]) recs, Some EOF)"
  using mgr.consume_all [OF assms(1), of "NewReader (manager_iface flt mts now) m" 0 k mts now] assms(2)
    mgr.earliest_law [OF assms(1), of mts now] mgr.next_law [OF assms(1), of mts now]
  by (simp add: NewReader_def manager_iface_def)

theorem reader_walks_whole_log_witness:
  "consume (manager_iface no_faults (\<lambda>_. None) 0) demo_mgr (NewReader (manager_iface no_faults (\<lambda>_. None) 0) demo_mgr) 5 =
    (\<lparr>rd_offset = mgr_NextOffset demo_mgr\<rparr>, [(0, [1]), (1, [2])], Some EOF)"
  using reader_walks_whole_log [OF demo_mgr_serves, of 5 "\<lambda>_. None" 0] by (simp add: upt_rec)

section \<open>Names\<close>

text \<open>C25: the directory scan inverts the naming of segments. From any listing whose log files are those of the base
  offsets in \<open>bs\<close>, in any order and mixed with index files, directories and files that do not parse,
  \<open>discoverBaseOffsets\<close> returns exactly those offsets in ascending order.\<close>

theorem discover_inverts_naming:
  assumes "log_files disk bs" "finite bs" "flt (SysReadDir dir) = None"
  shows "discoverBaseOffsets flt dir (map (\<lambda>(n, _). (n, False)) disk @ map (\<lambda>n. (n, True)) subdirs) =
    Inr (sorted_list_of_set bs)"
  using assms by (intro discover_bases) auto

theorem discover_inverts_naming_witness:
  "discoverBaseOffsets no_faults ''/log'' (map (\<lambda>(n, _). (n, False)) (dir_of demo_mgr) @ map (\<lambda>n. (n, True)) [''7.log'']) =
    Inr (sorted_list_of_set {0, 1})"
  using discover_inverts_naming [OF dir_of_log_files [OF demo_mgr_inv], of no_faults "''/log''" "[''7.log'']"]
  by (simp add: demo_mgr_def demo_seg_def no_faults_def)

end
