(* ===== verification/Log_Faults.thy ===== *)
theory Log_Faults
  imports Log_Properties
begin

text \<open>
  A sequence of events in which the segmented log hides an acknowledged record. Two appends run
  concurrently: the first has reserved its record and released the lock, the second rolls to a new
  segment, commits there and is acknowledged. A crash before the first commit leaves a hole.
\<close>

lemma set_active_butlast [simp]: "butlast (segments (set_active m s)) = butlast (segments m)"
  by (simp add: set_active_def)

lemma Append_rolls:
  assumes "Append flt mts now m data = Some (m', Inr off)" "seg_Size (active m) \<ge> MaxSegmentBytes (cfg m)"
  shows "butlast (segments m') = segments m"
  using assms
  by (auto simp: Append_def append_reserve_def roll_def Let_def split: option.splits prod.splits sum.splits)

lemma seg_reserve_synced:
  assumes "seg_reserve flt s data now = (s', r)"
  shows "synced (wfile (writer s')) = synced (wfile (writer s))"
  using assms
  by (auto simp: seg_reserve_def Reserve_def Let_def file_Write_def split: if_splits option.splits prod.splits sum.splits)

text \<open>The first append has reserved offset 0 and not committed it; the second is acknowledged at offset 1.\<close>

lemma overtaken:
  obtains m0 m1 m2 s0 s1 seq where "Open no_faults (\<lambda>_. None) 0 [] [] demo_cfg = Some (Inr m0)"
    "append_reserve no_faults (\<lambda>_. None) 0 m0 [1] = Some (m1, Inr (0, 0, seq))"
    "Append no_faults (\<lambda>_. None) 0 m1 [2] = Some (m2, Inr 1)"
    "segments m2 = [s0, s1]" "mgr_inv NewCRC32C 0 [[[1]], [[2]]] m2" "cfg m2 = demo_cfg"
    "synced (wfile (writer s0)) = []" "seg_durable NewCRC32C [[2]] s1"
proof -
  obtain m0 where m0: "Open no_faults (\<lambda>_. None) 0 [] [] demo_cfg = Some (Inr m0)" "mgr_inv NewCRC32C 0 ([] @ [[]]) m0"
    "cfg m0 = demo_cfg" "syncErr (writer (active m0)) = None" "synced (wfile (writer (active m0))) = []"
    by (rule demo_open) simp
  note a0 = mgr_inv_active [OF m0(2)]
  have "accepts NewCRC32C [] (active m0) [1]" using m0(4) by (intro crc32c.accepts_new) (simp_all add: MaxRecordSize_def)
  then obtain s l seq s' where R: "seg_reserve no_faults (active m0) [1] 0 = (s, Inr (l, seq))"
    using crc32c.seg_append_succeeds [OF a0(1) _ healthy_no_faults(1)] by metis
  note inv1 = crc32c.reserve_active [OF m0(2) R healthy_no_faults(3)]
  define m1 where "m1 = set_active m0 s"
  have i1: "mgr_inv NewCRC32C 0 ([] @ [[[1]]]) m1" "baseOffset s + l = 0" "active m1 = s" "cfg m1 = demo_cfg"
    using inv1 m0(3) by (simp_all add: m1_def)
  have b: "baseOffset s = 0"
    using mgr_inv_active(3) [OF i1(1)] i1(3) by (simp add: unat_eq_0)
  have A1: "append_reserve no_faults (\<lambda>_. None) 0 m0 [1] = Some (m1, Inr (0, 0, seq))"
    using R m0(3) seg_Size_iff [OF a0(1)] i1(2) b
    by (simp add: append_reserve_def demo_cfg_def m1_def BaseOffset_def)
  have se: "syncErr (writer (active m1)) = None"
    using crc32c.seg_reserve_ok(5) [OF a0(1) R] a0(3) m0(4) i1(3) by simp
  obtain m2 where A2: "Append no_faults (\<lambda>_. None) 0 m1 [2] = Some (m2, Inr 1)"
    using demo_append [OF i1(1) se, of 2] by auto
  have full: "seg_Size (active m1) \<ge> MaxSegmentBytes (cfg m1)"
    using seg_Size_iff [OF mgr_inv_active(1) [OF i1(1)]] i1(4) by (simp add: demo_cfg_def)
  obtain rss' rs' where I2: "mgr_inv NewCRC32C 0 (rss' @ [rs' @ [[2]]]) m2" "continues [] [[1]] m1 rss' rs' m2"
    "seg_durable NewCRC32C (rs' @ [[2]]) (active m2)" "cfg m2 = cfg m1"
    using crc32c.Append_any [OF i1(1) healthy_no_faults(3), of "\<lambda>_. None" 0 "[2]"] A2 by auto
  have bl: "butlast (segments m2) = [s]"
    using Append_rolls [OF A2 full] mgr_inv_length [OF i1(1)] i1(3)
    by (cases "segments m1") (auto simp: active_def)
  then have rr: "rss' = [[[1]]]" "rs' = []"
    using I2(2) Append_rolls [OF A2 full] by (auto simp: continues_def)
  have "segments m2 = [s, active m2]"
    using bl by (metis active_def append_butlast_last_id append_Cons append_Nil butlast.simps(1) list.distinct(1))
  then show ?thesis
    using that [OF m0(1) A1 A2, of s "active m2"] I2 rr i1(4) seg_reserve_synced [OF R] m0(5) by simp
qed

text \<open>What the crash leaves: nothing of the first segment, everything of the second.\<close>

definition hole_dir :: "segment \<Rightarrow> disk" where
  "hole_dir s1 =
     [(SegmentFileName 0, \<lparr>fname = filepath_Join ''/log'' (SegmentFileName 0), content = [], synced = []\<rparr>),
      (indexFileName (SegmentFileName 0),
        \<lparr>fname = filepath_Join ''/log'' (indexFileName (SegmentFileName 0)), content = [], synced = []\<rparr>),
      log_entry s1, index_file_entry s1]"

lemma hole_dir_simps:
  assumes "baseOffset s1 = 1"
  shows "map_of (hole_dir s1) (SegmentFileName 1) = Some (wfile (writer s1))"
    "map_of (hole_dir s1) (indexFileName (SegmentFileName 1)) = Some (indexFile (wstore (writer s1)))"
    "vacant (hole_dir s1) ''/log'' (SegmentFileName 0)" "vacant (hole_dir s1) ''/log'' (indexFileName (SegmentFileName 0))"
    "log_files (hole_dir s1) {0, 1}"
proof -
  have ne: "SegmentFileName a \<noteq> indexFileName (SegmentFileName b)" "indexFileName (SegmentFileName b) \<noteq> SegmentFileName a" for a b
    using index_not_segment [of b a] by auto
  have sf: "\<not> HasSuffix (indexFileName (SegmentFileName b)) segmentSuffix" for b
    unfolding indexFileName_SegmentFileName by (simp add: HasSuffix_def segmentSuffix_def)
  show "map_of (hole_dir s1) (SegmentFileName 1) = Some (wfile (writer s1))"
    "map_of (hole_dir s1) (indexFileName (SegmentFileName 1)) = Some (indexFile (wstore (writer s1)))"
    "vacant (hole_dir s1) ''/log'' (SegmentFileName 0)" "vacant (hole_dir s1) ''/log'' (indexFileName (SegmentFileName 0))"
    "log_files (hole_dir s1) {0, 1}"
    using assms by (auto simp: hole_dir_def log_entry_def index_file_entry_def ne indexFileName_inject vacant_def log_files_def sf)
qed

lemma hole_crash:
  assumes inv: "mgr_inv NewCRC32C 0 [[[1]], [[2]]] m" "segments m = [s0, s1]" "cfg m = demo_cfg"
    "synced (wfile (writer s0)) = []"
  shows "crashed_dir m (hole_dir s1)" "baseOffset s0 = 0" "baseOffset s1 = 1" "crashed_seg (hole_dir s1) s1"
proof -
  have at: "seg_at ''/log'' s0" "seg_at ''/log'' s1" and si: "seg_inv NewCRC32C [[1]] s0" "seg_inv NewCRC32C [[2]] s1"
    and b: "unat (baseOffset s0) = 0" "unat (baseOffset s1) = 1"
    using inv(1-3) by (simp_all add: mgr_inv_def demo_cfg_def)
  have one: "unat x = 1 \<Longrightarrow> x = (1 :: u64)" for x by (simp add: word_unat_eq_iff)
  show b': "baseOffset s0 = 0" "baseOffset s1 = 1" using b one by (simp_all add: unat_eq_0)
  note H = hole_dir_simps [OF b'(2)]
  have len: "length (content (wfile (writer s))) < 2 ^ 62" if "s \<in> {s0, s1}" for s
    using that si by (auto simp: seg_inv_def wal_inv_def)
  have ne: "indexFileName (SegmentFileName a) \<noteq> SegmentFileName c" for a c by (rule index_not_segment)
  have "crashed_seg (hole_dir s1) s0"
    using inv(4) at(1) b'(1) len [of s0] ne
    by (simp add: crashed_seg_def hole_dir_def seg_at_def crashed_def crash_image_def)
  moreover show "crashed_seg (hole_dir s1) s1"
    using H(1,2) b'(2) len [of s1] si(2) by (auto simp: crashed_seg_def crashed_def crash_image_def seg_inv_def dest: wal_inv_file)
  moreover have "vacant (hole_dir s1) ''/log'' (indexFileName (SegmentFileName b))" if "b \<notin> {0, 1}" for b
    using that b' ne [of b] by (auto simp: vacant_def hole_dir_def log_entry_def index_file_entry_def indexFileName_inject)
  ultimately show "crashed_dir m (hole_dir s1)" using inv(2,3) b' H(5) by (simp add: crashed_dir_def demo_cfg_def)
qed

text \<open>Reopening gives an empty first segment and the acknowledged record in the second.\<close>

lemma hole_open:
  assumes b: "baseOffset s1 = 1" and cr: "crashed_seg (hole_dir s1) s1" and inv: "seg_inv NewCRC32C [[2]] s1"
    "seg_at ''/log'' s1" "seg_durable NewCRC32C [[2]] s1"
  obtains m t0 t1 where "Open no_faults (\<lambda>_. None) 9 (hole_dir s1) [] demo_cfg = Some (Inr m)" "segments m = [t0, t1]"
    "seg_inv NewCRC32C [] t0" "baseOffset t0 = 0" "seg_inv NewCRC32C [[2]] t1" "baseOffset t1 = 1"
proof -
  note H = hole_dir_simps [OF b]
  let ?ns = "[SegmentFileName 0, indexFileName (SegmentFileName 0)]"
  have cfg: "with_defaults demo_cfg = demo_cfg" "Dir demo_cfg = ''/log''" "cfg_csum demo_cfg = NewCRC32C"
    by (simp_all add: demo_cfg_def with_defaults_def cfg_csum_def)
  obtain d t0 where N0: "NewSegment no_faults (hole_dir s1) None 9 ''/log'' 0 NewCRC32C = Some (d, Inr t0)"
    using crc32c.NewSegment_opens [OF H(3,4) healthy_no_faults(2)] by blast
  note T0 = NewSegment_vacant [OF H(3,4) N0]
  have cr1: "crashed_seg (without ?ns (hole_dir s1)) s1"
    using crc32c.crashed_seg_without [OF cr, of 0] b by simp
  have at: "seg_at (Dir demo_cfg) s1" using inv(2) cfg(2) by simp
  obtain rs' t1 where N1: "NewSegment no_faults d None 9 ''/log'' 1 NewCRC32C = Some (without [SegmentFileName 1, indexFileName (SegmentFileName 1)] d, Inr t1)"
    "kept NewCRC32C s1 [[2]] rs'" "seg_inv NewCRC32C rs' t1" "baseOffset t1 = 1"
    using crc32c.crashed_seg_opens [OF inv(1) at cr1 healthy_no_faults(2) cfg(3), of None 9] T0 b cfg by auto
  have rs: "rs' = [[2]]" using kept_durable [OF N1(2) inv(3)] .
  have "discoverBaseOffsets no_faults ''/log'' (map (\<lambda>(n, _). (n, False)) (hole_dir s1) @ map (\<lambda>n. (n, True)) []) = Inr [0, 1]"
    by (rule discover_bases [OF H(5)]) (simp_all add: no_faults_def)
  then have "Open no_faults (\<lambda>_. None) 9 (hole_dir s1) [] demo_cfg =
      Some (Inr \<lparr>cfg = demo_cfg, segments = [t0, t1], Metrics = zero_metrics,
        mdisk = without [SegmentFileName 1, indexFileName (SegmentFileName 1)] d, stopped = False\<rparr>)"
    using N0 N1(1) cfg by (simp add: Open_def Let_def) (simp add: no_faults_def)
  then show ?thesis using that T0 N1(3,4) rs by simp
qed

lemma hole_reads:
  assumes m: "segments m = [t0, t1]" and t0: "seg_inv NewCRC32C [] t0" "baseOffset t0 = 0"
    and t1: "seg_inv NewCRC32C [[2]] t1" "baseOffset t1 = 1"
  shows "snd (ReadAt no_faults m 0) = Inl EOF" "snd (ReadAt no_faults m 1) = Inr [2]" "mgr_NextOffset m = 2"
    "EarliestOffset m = 0"
proof -
  have "\<not> Contains t0 0" "Contains t1 1" using Contains_iff [OF t0(1)] Contains_iff [OF t1(1)] t0 t1 by simp_all
  moreover have "(0 :: u64) < 1" by (simp add: word_less_nat_alt)
  ultimately have sf: "segmentFor [t0, t1] 0 = None" "segmentFor [t0, t1] 1 = Some 1"
    using t0(2) t1(2) by (simp_all add: segmentFor_def sort_Search_def search_loop.simps Let_def BaseOffset_def)
  show "snd (ReadAt no_faults m 0) = Inl EOF"
    using sf(1) m t0(2) by (simp add: ReadAt_def read_begin_def read_miss_def BaseOffset_def)
  have "seg_ReadAt no_faults t1 1 = Inr [2]"
    using crc32c.seg_ReadAt_hit [OF t1(1) readable_no_faults, of 1] t1(2) by simp
  moreover have "seg_ReadAt no_faults (acquireRead s) off = seg_ReadAt no_faults s off" for s off
    by (simp add: seg_ReadAt_def acquireRead_def)
  ultimately show "snd (ReadAt no_faults m 1) = Inr [2]" using sf(2) m by (simp add: ReadAt_def read_begin_def)
  show "mgr_NextOffset m = 2"
    using seg_inv_next [OF t1(1)] m t1(2) by (simp add: mgr_NextOffset_def active_def word_unat_eq_iff)
  show "EarliestOffset m = 0" using m t0(2) by (simp add: EarliestOffset_def BaseOffset_def)
qed


end
