(* ===== verification/Server.thy ===== *)
theory Server
  imports Log_Interface Protocol
begin

text \<open>
  The TCP server, \<open>internal/network/server.go\<close>: the request loop of a connection, the dispatch of
  requests to the log and the streaming of records, written against the manager interface.

  The lemmas, proved in the locale of that interface, say what each request answers in terms of
  the abstract log, that streaming returns, and that a connection handles its requests one after
  another.
\<close>

section \<open>Error texts\<close>

text \<open>The method \<open>Error\<close> of the error values; \<open>%x\<close> prints bytes as two hexadecimal digits each.\<close>

definition hex_digit :: "nat \<Rightarrow> char" where
  "hex_digit d = (if d < 10 then char_of (48 + d) else char_of (87 + d))"

definition hex_bytes :: "bytes \<Rightarrow> string" where
  "hex_bytes bs = concat (map (\<lambda>b. [hex_digit (unat b div 16), hex_digit (unat b mod 16)]) bs)"

fun Error :: "goerror \<Rightarrow> string" where
  "Error EOF = ''EOF''"
| "Error UnexpectedEOF = ''unexpected EOF''"
| "Error (OsError msg) = msg"
| "Error (Errorf msg) = msg"
| "Error (Wrap msg e) = msg @ '': '' @ Error e"
| "Error (CorruptionError pos expected got reason) =
     ''wal: corruption at byte '' @ dec_int pos @ '': '' @ reason @ '' (checksum: expected '' @ hex_bytes expected @
     '', got '' @ hex_bytes got @ '')''"
| "Error (OffsetOutOfRetentionError requested earliest) =
     ''segment: offset '' @ dec (unat requested) @ '' out of retention; earliest available is '' @ dec (unat earliest) @
     '' (skipped '' @ dec (unat (earliest - requested)) @ '' records)''"

text \<open>\<open>[]byte(s)\<close> and \<open>string(b)\<close>.\<close>

definition to_bytes :: "string \<Rightarrow> bytes" where
  "to_bytes s = map (\<lambda>c. of_nat (of_char c)) s"

definition to_string :: "bytes \<Rightarrow> string" where
  "to_string bs = map (\<lambda>b. char_of (unat b)) bs"

section \<open>Configuration\<close>

text \<open>Durations are nanoseconds.\<close>

record ServerConfig =
  IdleTimeout :: int
  WriteTimeout :: int

definition DefaultServerConfig :: ServerConfig where
  "DefaultServerConfig = \<lparr>IdleTimeout = 10 * 60 * 10 ^ 9, WriteTimeout = 30 * 10 ^ 9\<rparr>"

definition WithIdleTimeout :: "int \<Rightarrow> ServerConfig \<Rightarrow> ServerConfig" where
  "WithIdleTimeout d c = c\<lparr>IdleTimeout := d\<rparr>"

definition WithWriteTimeout :: "int \<Rightarrow> ServerConfig \<Rightarrow> ServerConfig" where
  "WithWriteTimeout d c = c\<lparr>WriteTimeout := d\<rparr>"

text \<open>The server: its access to the log, its configuration, and whether the connection accepts deadlines
  (it does while it is open). The state of the log is an argument of the handlers.\<close>

record 'm Server =
  smi :: "'m ManagerInterface"
  scfg :: ServerConfig
  deadlines :: bool

text \<open>\<open>NewServer\<close> with the outcome of \<open>net.Listen\<close>.\<close>

definition NewServer ::
  "'m ManagerInterface \<Rightarrow> string option \<Rightarrow> string \<Rightarrow> (ServerConfig \<Rightarrow> ServerConfig) list \<Rightarrow> goerror + 'm Server" where
  "NewServer mi listenErr addr opts =
     (let c = foldl (\<lambda>c opt. opt c) DefaultServerConfig opts in
      case listenErr of
        Some msg \<Rightarrow> Inl (Wrap (''network: listen '' @ addr) (OsError msg))
      | None \<Rightarrow> Inr \<lparr>smi = mi, scfg = c, deadlines = True\<rparr>)"

section \<open>Handlers\<close>

definition errorResponse :: "string \<Rightarrow> Response" where
  "errorResponse msg = \<lparr>Status = StatusError, RespPayload = to_bytes msg\<rparr>"

definition offsetResponse :: "u64 \<Rightarrow> Response" where
  "offsetResponse off = \<lparr>Status = StatusOK, RespPayload = PutUint64 off\<rparr>"

definition handleProduce :: "'m Server \<Rightarrow> 'm \<Rightarrow> bytes \<Rightarrow> ('m \<times> Response) option" where
  "handleProduce s m data =
     (if length data = 0 then Some (m, errorResponse ''empty payload'')
      else case iAppend (smi s) m data of
        None \<Rightarrow> None
      | Some (m1, Inl e) \<Rightarrow> Some (m1, errorResponse (Error e))
      | Some (m1, Inr offset) \<Rightarrow> Some (m1, offsetResponse offset))"

definition handleRead :: "'m Server \<Rightarrow> 'm \<Rightarrow> bytes \<Rightarrow> 'm \<times> Response" where
  "handleRead s m payload =
     (if length payload \<noteq> 8 then (m, errorResponse ''read requires 8-byte offset'')
      else case iReadAt (smi s) m (Uint64 payload) of
        (m1, Inl e) \<Rightarrow> (m1, errorResponse (Error e))
      | (m1, Inr data) \<Rightarrow> (m1, \<lparr>Status = StatusOK, RespPayload = data\<rparr>))"

definition handleNextOffset :: "'m Server \<Rightarrow> 'm \<Rightarrow> Response" where
  "handleNextOffset s m = offsetResponse (iNextOffset (smi s) m)"

definition handleEarliestOffset :: "'m Server \<Rightarrow> 'm \<Rightarrow> Response" where
  "handleEarliestOffset s m = offsetResponse (iEarliestOffset (smi s) m)"

definition dispatch :: "'m Server \<Rightarrow> 'm \<Rightarrow> Request \<Rightarrow> ('m \<times> Response) option" where
  "dispatch s m req =
     (if Op req = OpProduce then handleProduce s m (ReqPayload req)
      else if Op req = OpRead then Some (handleRead s m (ReqPayload req))
      else if Op req = OpNextOffset then Some (m, handleNextOffset s m)
      else if Op req = OpEarliestOffset then Some (m, handleEarliestOffset s m)
      else Some (m, errorResponse (''unknown opcode: '' @ dec (unat (Op req)))))"

definition writeResponse :: "'m Server \<Rightarrow> conn \<Rightarrow> Response \<Rightarrow> conn \<times> goerror option" where
  "writeResponse s c resp =
     (if WriteTimeout (scfg s) > 0 \<and> \<not> deadlines s then (c, Some (OsError ''set deadline''))
      else WriteResponse c resp)"

text \<open>The loop of \<open>handleStreamRead\<close>; it need not end if the log never runs out of records.\<close>

partial_function (option) stream_loop ::
  "'m Server \<Rightarrow> 'm \<Rightarrow> conn \<Rightarrow> u64 \<Rightarrow> ('m \<times> conn \<times> goerror option) option" where
  "stream_loop s m c offset =
     (case iReadAt (smi s) m offset of
        (m1, Inl e) \<Rightarrow>
          if is_EOF e then
            Some (m1, writeResponse s c \<lparr>Status = StatusStreamEnd, RespPayload = []\<rparr>)
          else Some (m1, writeResponse s c (errorResponse (Error e)))
      | (m1, Inr data) \<Rightarrow>
          (case writeResponse s c \<lparr>Status = StatusOK, RespPayload = data\<rparr> of
             (c1, Some e) \<Rightarrow> Some (m1, c1, Some e)
           | (c1, None) \<Rightarrow> stream_loop s m1 c1 (offset + 1)))"

definition handleStreamRead :: "'m Server \<Rightarrow> 'm \<Rightarrow> conn \<Rightarrow> bytes \<Rightarrow> ('m \<times> conn \<times> goerror option) option" where
  "handleStreamRead s m c payload =
     (if length payload \<noteq> 8 then Some (m, writeResponse s c (errorResponse ''stream-read requires 8-byte offset''))
      else stream_loop s m c (Uint64 payload))"

text \<open>The request loop of a connection, until the stream of requests ends or a write fails.\<close>

partial_function (option) handleConn :: "'m Server \<Rightarrow> 'm \<Rightarrow> conn \<Rightarrow> ('m \<times> conn) option" where
  "handleConn s m c =
     (if IdleTimeout (scfg s) > 0 \<and> \<not> deadlines s then Some (m, c)
      else case ReadRequest c of
        (c1, Inl e) \<Rightarrow> Some (m, c1)
      | (c1, Inr req) \<Rightarrow>
          if Op req = OpStreamRead then
            (case handleStreamRead s m c1 (ReqPayload req) of
               None \<Rightarrow> None
             | Some (m1, c2, Some e) \<Rightarrow> Some (m1, c2)
             | Some (m1, c2, None) \<Rightarrow> handleConn s m1 c2)
          else
            (case dispatch s m req of
               None \<Rightarrow> None
             | Some (m1, resp) \<Rightarrow>
                 (case writeResponse s c1 resp of
                    (c2, Some e) \<Rightarrow> Some (m1, c2)
                  | (c2, None) \<Rightarrow> handleConn s m1 c2)))"

text \<open>What the server sends back when these bytes arrive on a connection.\<close>

definition serve :: "'m Server \<Rightarrow> 'm \<Rightarrow> bytes \<Rightarrow> ('m \<times> bytes) option" where
  "serve s m bs =
     (case handleConn s m \<lparr>inbox = bs, sent = [], budget = None\<rparr> of
        None \<Rightarrow> None
      | Some (m1, c) \<Rightarrow> Some (m1, sent c))"

section \<open>What the handlers do\<close>

lemma writeResponse_ok:
  "deadlines s \<Longrightarrow> budget c = None \<Longrightarrow>
     writeResponse s c resp = (c\<lparr>sent := sent c @ frame (Status resp) (RespPayload resp)\<rparr>, None)"
  by (simp add: writeResponse_def WriteResponse_ok)

lemma conn_Write_inbox: "conn_Write c buf = (c', e) \<Longrightarrow> inbox c' = inbox c"
  by (auto simp: conn_Write_def split: option.splits if_splits)

lemma writeResponse_inbox:
  assumes "writeResponse s c resp = (c', e)"
  shows "inbox c' = inbox c"
  using assms
  by (auto simp: writeResponse_def WriteResponse_def Let_def split: if_splits prod.splits option.splits dest!: conn_Write_inbox)

text \<open>The frames of a stream of records.\<close>

definition stream_frames :: "bytes list \<Rightarrow> bytes" where
  "stream_frames recs = concat (map (frame StatusOK) recs) @ frame StatusStreamEnd []"

lemma stream_frames_simps [simp]:
  "stream_frames [] = frame StatusStreamEnd []"
  "stream_frames (r # rs) = frame StatusOK r @ stream_frames rs"
  by (simp_all add: stream_frames_def)

context log_manager
begin

lemma log_read_at:
  assumes "is_log m n recs" "j \<le> length recs"
  shows "log_read n recs (of_nat (n + j)) = (if j < length recs then Inr (recs ! j) else Inl EOF)"
proof -
  have "unat (of_nat (n + j) :: u64) = n + j" using log_bound [OF assms(1)] assms(2) unfolding unat_of_nat by simp
  then show ?thesis using assms(2) by (auto simp: log_read_def)
qed

text \<open>A stream from inside the log sends every record from there on and the end marker.\<close>

lemma stream_loop_ok:
  assumes "is_log m n recs" "smi s = mi" "deadlines s" "budget c = None" "j \<le> length recs"
  shows "stream_loop s m c (of_nat (n + j)) =
    Some (m, c\<lparr>sent := sent c @ stream_frames (drop j recs)\<rparr>, None)"
  using assms(4,5)
proof (induction "length recs - j" arbitrary: j c)
  case 0
  then have "j = length recs" by simp
  then show ?case
    using read_law [OF assms(1)] log_read_at [OF assms(1), of j] assms(2,3) 0
    by (subst stream_loop.simps) (simp add: writeResponse_ok)
next
  case (Suc x)
  then have j: "j < length recs" by simp
  let ?c = "c\<lparr>sent := sent c @ frame StatusOK (recs ! j)\<rparr>"
  have "stream_loop s m c (of_nat (n + j)) = stream_loop s m ?c (of_nat (n + Suc j))"
    using read_law [OF assms(1)] log_read_at [OF assms(1), of j] assms(2,3) j Suc.prems(1)
    by (subst stream_loop.simps) (simp add: writeResponse_ok add_ac)
  also have "\<dots> = Some (m, ?c\<lparr>sent := sent ?c @ stream_frames (drop (Suc j) recs)\<rparr>, None)"
    by (rule Suc.hyps) (use Suc j in auto)
  also have "drop j recs = recs ! j # drop (Suc j) recs" using j by (simp add: Cons_nth_drop_Suc)
  ultimately show ?case by simp
qed

text \<open>From any offset a stream returns: before the log it is one error frame, after it the end marker.\<close>

lemma stream_loop_any:
  assumes "is_log m n recs" "smi s = mi" "deadlines s" "budget c = None"
  shows "stream_loop s m c off =
    Some (m, c\<lparr>sent := sent c @
      (if unat off < n then frame StatusError (to_bytes (Error (OffsetOutOfRetentionError off (of_nat n))))
       else stream_frames (drop (unat off - n) recs))\<rparr>, None)"
proof -
  consider "unat off < n" | "n \<le> unat off" "unat off \<le> n + length recs" | "n + length recs < unat off" by linarith
  then show ?thesis
  proof cases
    case 1
    then show ?thesis
      using read_law [OF assms(1)] assms(2-4)
      by (subst stream_loop.simps) (simp add: log_read_def writeResponse_ok errorResponse_def)
  next
    case 2
    then have "off = of_nat (n + (unat off - n))" by simp
    then show ?thesis using stream_loop_ok [OF assms, of "unat off - n"] 2 by simp
  next
    case 3
    then show ?thesis
      using read_law [OF assms(1)] assms(2-4)
      by (subst stream_loop.simps) (simp add: log_read_def writeResponse_ok)
  qed
qed

text \<open>Whatever happens to the connection, a stream returns and reads no request.\<close>

lemma stream_loop_returns:
  assumes "is_log m n recs" "smi s = mi"
  shows "\<exists>c' e. stream_loop s m c off = Some (m, c', e) \<and> inbox c' = inbox c"
proof (induction "n + length recs - unat off" arbitrary: c off rule: less_induct)
  case less
  show ?case
  proof (cases "log_read n recs off")
    case (Inl e)
    obtain c1 e1 where "writeResponse s c \<lparr>Status = StatusStreamEnd, RespPayload = []\<rparr> = (c1, e1)" by fastforce
    moreover obtain c2 e2 where "writeResponse s c (errorResponse (Error e)) = (c2, e2)" by fastforce
    ultimately show ?thesis
      using read_law [OF assms(1)] assms(2) Inl writeResponse_inbox
      by (subst stream_loop.simps) (auto dest: writeResponse_inbox)
  next
    case (Inr data)
    obtain c1 e1 where w: "writeResponse s c \<lparr>Status = StatusOK, RespPayload = data\<rparr> = (c1, e1)" by fastforce
    note ib = writeResponse_inbox [OF w]
    have eq: "stream_loop s m c off = (case e1 of Some e \<Rightarrow> Some (m, c1, Some e) | None \<Rightarrow> stream_loop s m c1 (off + 1))"
      using read_law [OF assms(1)] assms(2) Inr w by (subst stream_loop.simps) simp
    have off: "unat off < n + length recs" using Inr by (auto simp: log_read_def split: if_splits)
    then have "unat (off + 1) = unat off + 1"
      using log_bound [OF assms(1)] by (simp add: unat_word_ariths)
    then have "\<exists>c' e. stream_loop s m c1 (off + 1) = Some (m, c', e) \<and> inbox c' = inbox c1"
      using less [of "off + 1" c1] off by simp
    then show ?thesis using eq ib by (cases e1) auto
  qed
qed

lemma handleStreamRead_returns:
  assumes "is_log m n recs" "smi s = mi"
  shows "\<exists>c' e. handleStreamRead s m c payload = Some (m, c', e) \<and> inbox c' = inbox c"
proof (cases "length payload = 8")
  case True
  then show ?thesis using stream_loop_returns [OF assms] by (simp add: handleStreamRead_def)
next
  case False
  obtain c' e where "writeResponse s c (errorResponse ''stream-read requires 8-byte offset'') = (c', e)" by fastforce
  then show ?thesis using False writeResponse_inbox by (fastforce simp: handleStreamRead_def)
qed

text \<open>A request other than a stream, whatever it is, is answered and at most appends one record.\<close>

lemma dispatch_any:
  assumes "is_log m n recs" "smi s = mi" "n + length recs + 1 < 2 ^ 64"
  shows "\<exists>m' resp recs'. dispatch s m req = Some (m', resp) \<and> is_log m' n recs'
    \<and> recs' \<in> {recs, recs @ [ReqPayload req]}"
proof -
  obtain m1 r recs1 where a: "iAppend mi m (ReqPayload req) = Some (m1, r)" "log_append n recs (ReqPayload req) r recs1"
    "is_log m1 n recs1"
    using append_law [OF assms(1,3)] by blast
  have P: "\<exists>m' resp recs'. handleProduce s m (ReqPayload req) = Some (m', resp) \<and> is_log m' n recs'
      \<and> recs' \<in> {recs, recs @ [ReqPayload req]}"
    using a assms(1,2) by (cases r) (auto simp: handleProduce_def log_append_def)
  have R: "\<exists>resp. handleRead s m (ReqPayload req) = (m, resp)"
    using read_law [OF assms(1)] assms(2)
    by (cases "log_read n recs (Uint64 (ReqPayload req))") (auto simp: handleRead_def)
  show ?thesis using P R assms(1) by (auto simp: dispatch_def)
qed

text \<open>Whatever bytes arrive and whenever the connection breaks, the loop returns, and the log has only grown.\<close>

lemma handleConn_any:
  assumes "is_log m n recs" "smi s = mi" "n + length recs + length (inbox c) < 2 ^ 64"
  shows "\<exists>m' c' recs'. handleConn s m c = Some (m', c') \<and> is_log m' n (recs @ recs')"
  using assms(1,3)
proof (induction "length (inbox c)" arbitrary: m c recs rule: less_induct)
  case less
  note step = less.hyps and lg = less.prems(1) and room = less.prems(2)
  obtain c1 rq where r: "ReadRequest c = (c1, rq)" by fastforce
  show ?case
  proof (cases "IdleTimeout (scfg s) > 0 \<and> \<not> deadlines s \<or> (\<exists>e. rq = Inl e)")
    case True
    then show ?thesis
      using lg r by (subst handleConn.simps) (auto intro!: exI [of _ "[]"])
  next
    case False
    then obtain req where q: "rq = Inr req" by (cases rq) auto
    note cons = ReadRequest_consumes(1) [OF r [unfolded q]]
    have eq: "handleConn s m c = (if Op req = OpStreamRead then
            (case handleStreamRead s m c1 (ReqPayload req) of
               None \<Rightarrow> None
             | Some (m1, c2, Some e) \<Rightarrow> Some (m1, c2)
             | Some (m1, c2, None) \<Rightarrow> handleConn s m1 c2)
          else
            (case dispatch s m req of
               None \<Rightarrow> None
             | Some (m1, resp) \<Rightarrow>
                 (case writeResponse s c1 resp of
                    (c2, Some e) \<Rightarrow> Some (m1, c2)
                  | (c2, None) \<Rightarrow> handleConn s m1 c2)))"
      using False r q by (subst handleConn.simps) auto
    show ?thesis
    proof (cases "Op req = OpStreamRead")
      case True
      obtain c2 e where h: "handleStreamRead s m c1 (ReqPayload req) = Some (m, c2, e)" "inbox c2 = inbox c1"
        using handleStreamRead_returns [OF lg assms(2)] by blast
      have "\<exists>m' c' recs'. handleConn s m c2 = Some (m', c') \<and> is_log m' n (recs @ recs')"
        by (rule step [OF _ lg]) (use cons h(2) room in auto)
      then show ?thesis using eq True h(1) lg by (cases e) (auto intro!: exI [of _ "[]"])
    next
      case False
      obtain m1 resp recs1 where d: "dispatch s m req = Some (m1, resp)" "is_log m1 n recs1"
        "recs1 \<in> {recs, recs @ [ReqPayload req]}"
        using dispatch_any [OF lg assms(2)] room cons by fastforce
      obtain c2 e where w: "writeResponse s c1 resp = (c2, e)" by fastforce
      have "\<exists>m' c' recs'. handleConn s m1 c2 = Some (m', c') \<and> is_log m' n (recs1 @ recs')"
        by (rule step [OF _ d(2)]) (use cons writeResponse_inbox [OF w] room d(3) in auto)
      then have "\<exists>m' c' recs'. handleConn s m c = Some (m', c') \<and> is_log m' n (recs1 @ recs')"
        using eq False d(1,2) w by (cases e) (auto intro!: exI [of _ "[]"])
      then show ?thesis using d(3) by fastforce
    qed
  qed
qed

text \<open>The connection handles a complete request and goes on with what follows it.\<close>

lemma handleConn_request:
  assumes "inbox c = frame (Op req) (ReqPayload req) @ rest" "length (ReqPayload req) \<le> MaxPayloadSize"
    "Op req \<noteq> OpStreamRead" "dispatch s m req = Some (m1, resp)" "deadlines s" "budget c = None"
  shows "handleConn s m c = handleConn s m1 (c\<lparr>inbox := rest, sent := sent c @ frame (Status resp) (RespPayload resp)\<rparr>)"
  using ReadRequest_ok [OF assms(1,2)] assms(3-6) by (subst handleConn.simps) (simp add: writeResponse_ok)

lemma handleConn_end: "inbox c = [] \<Longrightarrow> handleConn s m c = Some (m, c)"
  by (subst handleConn.simps) (auto simp: ReadRequest_def ReadFull_def)

lemma serve_request:
  assumes "length (ReqPayload req) \<le> MaxPayloadSize" "Op req \<noteq> OpStreamRead" "dispatch s m req = Some (m1, resp)" "deadlines s"
  shows "serve s m (frame (Op req) (ReqPayload req)) = Some (m1, frame (Status resp) (RespPayload resp))"
  using handleConn_request [of "\<lparr>inbox = frame (Op req) (ReqPayload req), sent = [], budget = None\<rparr>" req "[]" s m m1 resp] assms
  by (simp add: serve_def handleConn_end)

lemma serve_stream:
  assumes "is_log m n recs" "smi s = mi" "deadlines s"
  shows "serve s m (frame OpStreamRead (PutUint64 off)) =
    Some (m, if unat off < n then frame StatusError (to_bytes (Error (OffsetOutOfRetentionError off (of_nat n))))
       else stream_frames (drop (unat off - n) recs))"
proof -
  let ?req = "\<lparr>Op = OpStreamRead, ReqPayload = PutUint64 off\<rparr>"
  have "ReadRequest \<lparr>inbox = frame OpStreamRead (PutUint64 off), sent = [], budget = None\<rparr> =
      (\<lparr>inbox = [], sent = [], budget = None\<rparr>, Inr ?req)"
    using ReadRequest_ok [of "\<lparr>inbox = frame OpStreamRead (PutUint64 off), sent = [], budget = None\<rparr>" ?req "[]"]
    by (simp add: MaxPayloadSize_def)
  then show ?thesis
    unfolding serve_def using stream_loop_any [OF assms, of "\<lparr>inbox = [], sent = [], budget = None\<rparr>" off] assms(3)
    by (subst handleConn.simps) (simp add: handleStreamRead_def handleConn_end)
qed

end

end
