(* ===== verification/Client.thy ===== *)
theory Client
  imports Server
begin

text \<open>
  The remote client, \<open>client/client.go\<close>. The machine at the other end of the connection is an
  argument \<open>peer\<close>: from its state and the bytes that reach it, it produces a new state and the bytes it
  sends back. A call writes its request, the peer answers, and the client reads the answer.

  The lemmas compose the client with the server of theory \<open>Server\<close>.
\<close>

section \<open>Calls\<close>

definition DefaultDialTimeout :: int where "DefaultDialTimeout = 10 * 10 ^ 9"

type_synonym 's peer = "'s \<Rightarrow> bytes \<Rightarrow> ('s \<times> bytes) option"

text \<open>The client's state is its connection. Dialling succeeds or gives an error.\<close>

definition NewWithTimeout :: "string option \<Rightarrow> string \<Rightarrow> int \<Rightarrow> goerror + conn" where
  "NewWithTimeout dialErr addr dialTimeout =
     (case dialErr of
        Some msg \<Rightarrow> Inl (Wrap (''client: dial '' @ addr) (OsError msg))
      | None \<Rightarrow> Inr \<lparr>inbox = [], sent = [], budget = None\<rparr>)"

definition New :: "string option \<Rightarrow> string \<Rightarrow> goerror + conn" where
  "New dialErr addr = NewWithTimeout dialErr addr DefaultDialTimeout"

text \<open>What was written since \<open>c\<close> reaches the peer, and its answer the inbox.\<close>

definition deliver :: "'s peer \<Rightarrow> 's \<Rightarrow> conn \<Rightarrow> conn \<Rightarrow> ('s \<times> conn) option" where
  "deliver peer st c c1 =
     map_option (\<lambda>(st', out). (st', c1\<lparr>inbox := inbox c1 @ out\<rparr>)) (peer st (drop (length (sent c)) (sent c1)))"

definition roundTrip :: "'s peer \<Rightarrow> 's \<Rightarrow> conn \<Rightarrow> Request \<Rightarrow> ('s \<times> conn \<times> (goerror + Response)) option" where
  "roundTrip peer st c req =
     (case WriteRequest c req of
        (c1, Some e) \<Rightarrow> Some (st, c1, Inl e)
      | (c1, None) \<Rightarrow>
          (case deliver peer st c c1 of
             None \<Rightarrow> None
           | Some (st1, c2) \<Rightarrow>
               (case ReadResponse c2 of
                  (c3, Inl e) \<Rightarrow> Some (st1, c3, Inl e)
                | (c3, Inr resp) \<Rightarrow>
                    if Status resp \<noteq> StatusOK
                    then Some (st1, c3, Inl (Errorf (''server error: '' @ to_string (RespPayload resp))))
                    else Some (st1, c3, Inr resp))))"

text \<open>The calls whose answer is an offset share the check of its length.\<close>

definition offset_answer :: "string \<Rightarrow> 's \<times> conn \<times> (goerror + Response) \<Rightarrow> 's \<times> conn \<times> (goerror + u64)" where
  "offset_answer what a =
     (case a of
        (st, c, Inl e) \<Rightarrow> (st, c, Inl e)
      | (st, c, Inr resp) \<Rightarrow>
          if length (RespPayload resp) \<noteq> 8
          then (st, c, Inl (Errorf (what @ '': unexpected response length '' @ dec (length (RespPayload resp)))))
          else (st, c, Inr (Uint64 (RespPayload resp))))"

definition Produce :: "'s peer \<Rightarrow> 's \<Rightarrow> conn \<Rightarrow> bytes \<Rightarrow> ('s \<times> conn \<times> (goerror + u64)) option" where
  "Produce peer st c data =
     map_option (offset_answer ''produce'') (roundTrip peer st c \<lparr>Op = OpProduce, ReqPayload = data\<rparr>)"

definition Read :: "'s peer \<Rightarrow> 's \<Rightarrow> conn \<Rightarrow> u64 \<Rightarrow> ('s \<times> conn \<times> (goerror + bytes)) option" where
  "Read peer st c offset =
     (case roundTrip peer st c \<lparr>Op = OpRead, ReqPayload = PutUint64 offset\<rparr> of
        None \<Rightarrow> None
      | Some (st1, c1, Inl e) \<Rightarrow> Some (st1, c1, Inl e)
      | Some (st1, c1, Inr resp) \<Rightarrow> Some (st1, c1, Inr (RespPayload resp)))"

definition client_NextOffset :: "'s peer \<Rightarrow> 's \<Rightarrow> conn \<Rightarrow> ('s \<times> conn \<times> (goerror + u64)) option" where
  "client_NextOffset peer st c =
     map_option (offset_answer ''next-offset'') (roundTrip peer st c \<lparr>Op = OpNextOffset, ReqPayload = []\<rparr>)"

definition client_EarliestOffset :: "'s peer \<Rightarrow> 's \<Rightarrow> conn \<Rightarrow> ('s \<times> conn \<times> (goerror + u64)) option" where
  "client_EarliestOffset peer st c =
     map_option (offset_answer ''earliest-offset'') (roundTrip peer st c \<lparr>Op = OpEarliestOffset, ReqPayload = []\<rparr>)"

lemma ReadResponse_consumes:
  assumes "ReadResponse c = (c', Inr resp)"
  shows "length (inbox c') < length (inbox c)"
  using assms by (auto simp: ReadResponse_def ReadFull_def Let_def split: if_splits prod.splits)

text \<open>The loop of \<open>StreamRead\<close>. The callback \<open>fn\<close> works on a state of its own.\<close>

function stream_recv ::
  "('a \<Rightarrow> u64 \<Rightarrow> bytes \<Rightarrow> 'a \<times> goerror option) \<Rightarrow> 'a \<Rightarrow> conn \<Rightarrow> u64 \<Rightarrow> 'a \<times> conn \<times> u64 \<times> goerror option" where
  "stream_recv fn acc c nxt =
     (case ReadResponse c of
        (c1, Inl e) \<Rightarrow> (acc, c1, nxt, Some e)
      | (c1, Inr resp) \<Rightarrow>
          if Status resp = StatusStreamEnd then (acc, c1, nxt, None)
          else if Status resp = StatusError then
            (acc, c1, nxt, Some (Errorf (''server error: '' @ to_string (RespPayload resp))))
          else if Status resp = StatusOK then
            (case fn acc nxt (RespPayload resp) of
               (acc1, Some e) \<Rightarrow> (acc1, c1, nxt, Some e)
             | (acc1, None) \<Rightarrow> stream_recv fn acc1 c1 (nxt + 1))
          else (acc, c1, nxt, Some (Errorf (''stream: unknown status '' @ dec (unat (Status resp))))))"
  by pat_completeness auto
termination
  by (relation "measure (\<lambda>(fn, acc, c, nxt). length (inbox c))") (auto dest: ReadResponse_consumes [OF sym])

declare stream_recv.simps [simp del]

definition StreamRead ::
  "'s peer \<Rightarrow> 's \<Rightarrow> conn \<Rightarrow> u64 \<Rightarrow> ('a \<Rightarrow> u64 \<Rightarrow> bytes \<Rightarrow> 'a \<times> goerror option) \<Rightarrow> 'a \<Rightarrow>
     ('s \<times> 'a \<times> conn \<times> u64 \<times> goerror option) option" where
  "StreamRead peer st c startOffset fn acc =
     (case WriteRequest c \<lparr>Op = OpStreamRead, ReqPayload = PutUint64 startOffset\<rparr> of
        (c1, Some e) \<Rightarrow> Some (st, acc, c1, startOffset, Some e)
      | (c1, None) \<Rightarrow>
          (case deliver peer st c c1 of
             None \<Rightarrow> None
           | Some (st1, c2) \<Rightarrow> Some (st1, stream_recv fn acc c2 startOffset)))"

section \<open>Client and server\<close>

text \<open>A connection on which nothing is outstanding.\<close>

definition idle_conn :: "conn \<Rightarrow> bool" where
  "idle_conn c \<longleftrightarrow> inbox c = [] \<and> budget c = None"

lemma roundTrip_serve:
  assumes c: "idle_conn c" and p: "peer st (frame (Op req) (ReqPayload req)) = Some (st1, frame (Status resp) (RespPayload resp))"
    and "length (RespPayload resp) \<le> MaxPayloadSize"
  shows "roundTrip peer st c req =
    Some (st1, c\<lparr>sent := sent c @ frame (Op req) (ReqPayload req)\<rparr>,
      if Status resp \<noteq> StatusOK then Inl (Errorf (''server error: '' @ to_string (RespPayload resp))) else Inr resp)"
proof -
  let ?c1 = "c\<lparr>sent := sent c @ frame (Op req) (ReqPayload req)\<rparr>"
  have "WriteRequest c req = (?c1, None)" using c by (simp add: idle_conn_def WriteRequest_ok)
  moreover have "deliver peer st c ?c1 = Some (st1, ?c1\<lparr>inbox := frame (Status resp) (RespPayload resp)\<rparr>)"
    using c p by (simp add: deliver_def idle_conn_def)
  moreover have "ReadResponse (?c1\<lparr>inbox := frame (Status resp) (RespPayload resp)\<rparr>) = (?c1\<lparr>inbox := []\<rparr>, Inr resp)"
    using ReadResponse_ok [of "?c1\<lparr>inbox := frame (Status resp) (RespPayload resp)\<rparr>" resp "[]"] assms(3) by simp
  ultimately show ?thesis using c by (simp add: roundTrip_def idle_conn_def)
qed

lemma stream_recv_frames:
  assumes "\<forall>r \<in> set recs. length r \<le> MaxPayloadSize" "inbox c = stream_frames recs @ rest"
    and fn: "\<And>acc off d. fn acc off d = (acc @ [(off, d)], None)"
  shows "stream_recv fn acc c nxt =
    (acc @ zip (map (\<lambda>i. nxt + of_nat i) [0..<length recs]) recs, c\<lparr>inbox := rest\<rparr>, nxt + of_nat (length recs), None)"
  using assms(1,2)
proof (induction recs arbitrary: acc c nxt)
  case Nil
  then have "ReadResponse c = (c\<lparr>inbox := rest\<rparr>, Inr \<lparr>Status = StatusStreamEnd, RespPayload = []\<rparr>)"
    by (intro ReadResponse_ok) simp_all
  then show ?case by (subst stream_recv.simps) simp
next
  case (Cons r recs)
  have r: "ReadResponse c = (c\<lparr>inbox := stream_frames recs @ rest\<rparr>, Inr \<lparr>Status = StatusOK, RespPayload = r\<rparr>)"
    using Cons.prems by (intro ReadResponse_ok) simp_all
  have ne: "StatusOK \<noteq> StatusStreamEnd" "StatusOK \<noteq> StatusError" by (simp_all add: StatusOK_def StatusStreamEnd_def StatusError_def)
  have "stream_recv fn acc c nxt = stream_recv fn (acc @ [(nxt, r)]) (c\<lparr>inbox := stream_frames recs @ rest\<rparr>) (nxt + 1)"
    using r ne fn by (subst stream_recv.simps) simp
  also have "\<dots> = ((acc @ [(nxt, r)]) @ zip (map (\<lambda>i. (nxt + 1) + of_nat i) [0..<length recs]) recs,
      c\<lparr>inbox := rest\<rparr>, (nxt + 1) + of_nat (length recs), None)"
    using Cons.IH [of "c\<lparr>inbox := stream_frames recs @ rest\<rparr>" "acc @ [(nxt, r)]" "nxt + 1"] Cons.prems(1) by simp
  also have "map (\<lambda>i. nxt + of_nat i) [0..<length (r # recs)] = nxt # map (\<lambda>i. (nxt + 1) + of_nat i) [0..<length recs]"
    by (simp add: upt_conv_Cons map_Suc_upt [symmetric] add_ac del: upt_Suc map_Suc_upt)
  ultimately show ?case by (simp add: add_ac)
qed

lemma ReadResponse_tag:
  assumes "inbox c = frame tag p @ rest" "ReadResponse c = (c', Inr resp)"
  shows "Status resp = tag"
  using assms ReadFull_header [OF assms(1)]
  by (auto simp: ReadResponse_def Let_def split: if_splits prod.splits sum.splits)

text \<open>An error frame is an error of the call, whatever its length.\<close>

lemma roundTrip_error:
  assumes c: "idle_conn c" and p: "peer st (frame (Op req) (ReqPayload req)) = Some (st1, frame StatusError p)"
  shows "\<exists>c' e. roundTrip peer st c req = Some (st1, c', Inl e)"
proof -
  let ?c1 = "c\<lparr>sent := sent c @ frame (Op req) (ReqPayload req)\<rparr>"
  let ?c2 = "?c1\<lparr>inbox := frame StatusError p\<rparr>"
  have w: "WriteRequest c req = (?c1, None)" using c by (simp add: idle_conn_def WriteRequest_ok)
  have d: "deliver peer st c ?c1 = Some (st1, ?c2)" using c p by (simp add: deliver_def idle_conn_def)
  obtain c3 r where r: "ReadResponse ?c2 = (c3, r)" by fastforce
  have "Status resp \<noteq> StatusOK" if "r = Inr resp" for resp
    using ReadResponse_tag [of ?c2 StatusError p "[]" c3 resp] r that by (simp add: StatusOK_def StatusError_def)
  then show ?thesis using w d r by (cases r) (auto simp: roundTrip_def)
qed

context log_manager
begin

lemma Produce_ok:
  assumes a: "iAppend mi m data = Some (m1, Inr off)" and s: "smi s = mi" "deadlines s"
    and d: "data \<noteq> []" "length data \<le> MaxPayloadSize" and c: "idle_conn c"
  shows "\<exists>c'. Produce (serve s) m c data = Some (m1, c', Inr off) \<and> idle_conn c'"
proof -
  let ?req = "\<lparr>Op = OpProduce, ReqPayload = data\<rparr>"
  have "dispatch s m ?req = Some (m1, offsetResponse off)"
    using a s(1) d(1) by (simp add: dispatch_def handleProduce_def)
  then have "serve s m (frame (Op ?req) (ReqPayload ?req)) = Some (m1, frame (Status (offsetResponse off)) (RespPayload (offsetResponse off)))"
    using serve_request [of ?req s m m1 "offsetResponse off"] d(2) s(2) by (simp add: OpProduce_def OpStreamRead_def)
  then have "roundTrip (serve s) m c ?req = Some (m1, c\<lparr>sent := sent c @ frame OpProduce data\<rparr>, Inr (offsetResponse off))"
    using roundTrip_serve [of c "serve s" m ?req m1 "offsetResponse off"] c by (simp add: offsetResponse_def MaxPayloadSize_def)
  then have "Produce (serve s) m c data = Some (m1, c\<lparr>sent := sent c @ frame OpProduce data\<rparr>, Inr off)"
    by (simp add: Produce_def offset_answer_def offsetResponse_def)
  then show ?thesis using c by (simp add: idle_conn_def)
qed

lemma Produce_fails:
  assumes a: "iAppend mi m data = Some (m1, Inl e)" and s: "smi s = mi" "deadlines s"
    and d: "data \<noteq> []" "length data \<le> MaxPayloadSize" and c: "idle_conn c"
  shows "\<exists>c' e'. Produce (serve s) m c data = Some (m1, c', Inl e')"
proof -
  let ?req = "\<lparr>Op = OpProduce, ReqPayload = data\<rparr>"
  have "dispatch s m ?req = Some (m1, errorResponse (Error e))"
    using a s(1) d(1) by (simp add: dispatch_def handleProduce_def)
  then have "serve s m (frame (Op ?req) (ReqPayload ?req)) = Some (m1, frame StatusError (to_bytes (Error e)))"
    using serve_request [of ?req s m m1 "errorResponse (Error e)"] d(2) s(2)
    by (simp add: errorResponse_def OpProduce_def OpStreamRead_def)
  from roundTrip_error [of c "serve s" m ?req m1, OF c this] obtain c' e'
    where "roundTrip (serve s) m c ?req = Some (m1, c', Inl e')" by blast
  then show ?thesis by (simp add: Produce_def offset_answer_def)
qed

lemma Produce_any:
  assumes lg: "is_log m n recs" and s: "smi s = mi" "deadlines s" and room: "n + length recs + 1 < 2 ^ 64"
    and d: "data \<noteq> []" "length data \<le> MaxPayloadSize" and c: "idle_conn c"
  shows "\<exists>m' c' r recs'. Produce (serve s) m c data = Some (m', c', r) \<and> is_log m' n recs' \<and>
    (case r of Inr off \<Rightarrow> off = of_nat (n + length recs) \<and> recs' = recs @ [data] \<and> idle_conn c'
     | Inl e \<Rightarrow> recs' = recs \<or> recs' = recs @ [data])"
proof -
  obtain m1 r recs1 where a: "iAppend mi m data = Some (m1, r)" "log_append n recs data r recs1" "is_log m1 n recs1"
    using append_law [OF lg room] by blast
  show ?thesis
  proof (cases r)
    case (Inr off)
    then show ?thesis using a Produce_ok [OF _ s d c, of m m1 off] by (fastforce simp: log_append_def)
  next
    case (Inl e)
    then show ?thesis using a Produce_fails [OF _ s d c, of m m1 e] by (fastforce simp: log_append_def)
  qed
qed

lemma Read_hit:
  assumes lg: "is_log m n recs" and s: "smi s = mi" "deadlines s" and j: "j < length recs" and c: "idle_conn c"
  shows "\<exists>c'. Read (serve s) m c (of_nat (n + j)) = Some (m, c', Inr (recs ! j)) \<and> idle_conn c'"
proof -
  let ?req = "\<lparr>Op = OpRead, ReqPayload = PutUint64 (of_nat (n + j))\<rparr>" and ?resp = "\<lparr>Status = StatusOK, RespPayload = recs ! j\<rparr>"
  have op: "OpRead \<noteq> OpStreamRead" "OpRead \<noteq> OpProduce" by (simp_all add: OpRead_def OpStreamRead_def OpProduce_def)
  have "handleRead s m (PutUint64 (of_nat (n + j))) = (m, ?resp)"
    using read_law [OF lg] log_read_at [OF lg, of j] s(1) j by (simp add: handleRead_def)
  then have "dispatch s m ?req = Some (m, ?resp)" using op by (simp add: dispatch_def)
  then have "serve s m (frame (Op ?req) (ReqPayload ?req)) = Some (m, frame (Status ?resp) (RespPayload ?resp))"
    using s(2) op by (intro serve_request) (simp_all add: MaxPayloadSize_def)
  moreover have "length (RespPayload ?resp) \<le> MaxPayloadSize"
    using size_law [OF lg, of "recs ! j"] j by (simp add: MaxPayloadSize_def MaxRecordSize_def)
  ultimately have "roundTrip (serve s) m c ?req =
      Some (m, c\<lparr>sent := sent c @ frame (Op ?req) (ReqPayload ?req)\<rparr>, Inr ?resp)"
    using roundTrip_serve [OF c, of "serve s" m ?req m ?resp] by simp
  then show ?thesis using c by (simp add: Read_def idle_conn_def)
qed

lemma StreamRead_all:
  assumes lg: "is_log m n recs" and s: "smi s = mi" "deadlines s" and off: "n \<le> unat off" "unat off \<le> n + length recs"
    and c: "idle_conn c" and fn: "\<And>acc off d. fn acc off d = (acc @ [(off, d)], None)"
  shows "\<exists>c'. StreamRead (serve s) m c off fn [] =
      Some (m, zip (map of_nat [unat off..<n + length recs]) (drop (unat off - n) recs), c', of_nat (n + length recs), None)
    \<and> idle_conn c'"
proof -
  let ?req = "\<lparr>Op = OpStreamRead, ReqPayload = PutUint64 off\<rparr>" and ?rs = "drop (unat off - n) recs"
  let ?c1 = "c\<lparr>sent := sent c @ frame OpStreamRead (PutUint64 off)\<rparr>"
  let ?c2 = "?c1\<lparr>inbox := stream_frames ?rs\<rparr>"
  have w: "WriteRequest c ?req = (?c1, None)" using c by (simp add: idle_conn_def WriteRequest_ok)
  have d: "deliver (serve s) m c ?c1 = Some (m, ?c2)"
    using c serve_stream [OF lg s, of off] off(1) by (simp add: deliver_def idle_conn_def)
  have sz: "\<forall>r \<in> set ?rs. length r \<le> MaxPayloadSize"
    using size_law [OF lg] by (auto simp: MaxPayloadSize_def MaxRecordSize_def dest: in_set_dropD)
  have len: "length ?rs = n + length recs - unat off" using off by simp
  have "map (\<lambda>i. off + of_nat i) [0..<length ?rs] = map of_nat [unat off..<n + length recs]"
    using off by (intro nth_equalityI) (simp_all add: len)
  moreover have "off + of_nat (length ?rs) = of_nat (n + length recs)"
  proof -
    have "of_nat (unat off + (n + length recs - unat off)) = off + of_nat (n + length recs - unat off)" by simp
    moreover have "unat off + (n + length recs - unat off) = n + length recs" using off by simp
    ultimately show ?thesis unfolding len by metis
  qed
  ultimately have "stream_recv fn [] ?c2 off =
      (zip (map of_nat [unat off..<n + length recs]) ?rs, ?c2\<lparr>inbox := []\<rparr>, of_nat (n + length recs), None)"
    using stream_recv_frames [OF sz, of ?c2 "[]" fn "[]" off] fn by simp
  then show ?thesis using w d c by (simp add: StreamRead_def idle_conn_def)
qed

text \<open>When the callback gives up, the frames behind the record it refused stay in the connection.\<close>

lemma StreamRead_abort:
  assumes lg: "is_log m n recs" and s: "smi s = mi" "deadlines s" and len: "2 \<le> length recs" and c: "idle_conn c"
  shows "\<exists>c'. StreamRead (serve s) m c (of_nat n) (\<lambda>acc off d. (acc, Some e)) acc = Some (m, acc, c', of_nat n, Some e)
    \<and> (\<exists>c''. Read (serve s) m c' off = Some (m, c'', Inr (recs ! 1)))"
proof -
  obtain r1 r2 rs where recs: "recs = r1 # r2 # rs" using len by (metis One_nat_def Suc_1 Suc_le_length_iff)
  have sz: "length r \<le> MaxPayloadSize" if "r \<in> set recs" for r
    using size_law [OF lg that] by (simp add: MaxPayloadSize_def MaxRecordSize_def)
  let ?req = "\<lparr>Op = OpStreamRead, ReqPayload = PutUint64 (of_nat n)\<rparr>" and ?rd = "\<lparr>Op = OpRead, ReqPayload = PutUint64 off\<rparr>"
  let ?c1 = "c\<lparr>sent := sent c @ frame OpStreamRead (PutUint64 (of_nat n))\<rparr>"
  let ?c2 = "?c1\<lparr>inbox := frame StatusOK r1 @ stream_frames (r2 # rs)\<rparr>" and ?c3 = "?c1\<lparr>inbox := stream_frames (r2 # rs)\<rparr>"
  have w: "WriteRequest c ?req = (?c1, None)" using c by (simp add: idle_conn_def WriteRequest_ok)
  have "unat (of_nat n :: u64) = n" using log_bound [OF lg] unfolding unat_of_nat by simp
  then have d: "deliver (serve s) m c ?c1 = Some (m, ?c2)"
    using c serve_stream [OF lg s, of "of_nat n"] recs by (simp add: deliver_def idle_conn_def)
  have "ReadResponse ?c2 = (?c3, Inr \<lparr>Status = StatusOK, RespPayload = r1\<rparr>)"
    using ReadResponse_ok [of ?c2 "\<lparr>Status = StatusOK, RespPayload = r1\<rparr>" "stream_frames (r2 # rs)"] sz recs by simp
  then have "stream_recv (\<lambda>acc off d. (acc, Some e)) acc ?c2 (of_nat n) = (acc, ?c3, of_nat n, Some e)"
    by (subst stream_recv.simps) (simp add: StatusOK_def StatusStreamEnd_def StatusError_def)
  then have st: "StreamRead (serve s) m c (of_nat n) (\<lambda>acc off d. (acc, Some e)) acc = Some (m, acc, ?c3, of_nat n, Some e)"
    using w d by (simp add: StreamRead_def)
  obtain resp where "dispatch s m ?rd = Some (m, resp)"
    using read_law [OF lg, of off] s(1) by (cases "log_read n recs off")
      (simp_all add: dispatch_def handleRead_def OpRead_def OpProduce_def)
  then have sv: "serve s m (frame OpRead (PutUint64 off)) = Some (m, frame (Status resp) (RespPayload resp))"
    using serve_request [of ?rd s m m resp] s(2) by (simp add: MaxPayloadSize_def OpRead_def OpStreamRead_def)
  let ?c4 = "?c3\<lparr>sent := sent ?c3 @ frame OpRead (PutUint64 off)\<rparr>"
  let ?rest = "stream_frames rs @ frame (Status resp) (RespPayload resp)"
  let ?c5 = "?c4\<lparr>inbox := frame StatusOK r2 @ ?rest\<rparr>"
  have "WriteRequest ?c3 ?rd = (?c4, None)" using c by (simp add: idle_conn_def WriteRequest_ok)
  moreover have "deliver (serve s) m ?c3 ?c4 = Some (m, ?c5)" using sv by (simp add: deliver_def)
  moreover have "ReadResponse ?c5 = (?c5\<lparr>inbox := ?rest\<rparr>, Inr \<lparr>Status = StatusOK, RespPayload = r2\<rparr>)"
    using ReadResponse_ok [of ?c5 "\<lparr>Status = StatusOK, RespPayload = r2\<rparr>" ?rest] sz recs by simp
  ultimately have "Read (serve s) m ?c3 off = Some (m, ?c5\<lparr>inbox := ?rest\<rparr>, Inr r2)"
    by (simp add: Read_def roundTrip_def)
  then show ?thesis using st recs by auto
qed

end

end
