(* ===== verification/Network_Properties.thy ===== *)
theory Network_Properties
  imports Client Log_Properties
begin

text \<open>
  The log over the network: the client of \<open>client/client.go\<close> talking to the server of
  \<open>internal/network/server.go\<close> in front of the manager of \<open>internal/segment/manager.go\<close>. The lemmas of the
  locale \<open>log_manager\<close> are used through its interpretation on the manager.
\<close>

section \<open>A server in front of the manager\<close>

definition log_server :: "faults \<Rightarrow> (string \<Rightarrow> int option) \<Rightarrow> int \<Rightarrow> manager Server" where
  "log_server flt mts now = \<lparr>smi = manager_iface flt mts now, scfg = DefaultServerConfig, deadlines = True\<rparr>"

lemma log_server_sel [simp]:
  "smi (log_server flt mts now) = manager_iface flt mts now" "deadlines (log_server flt mts now)"
  by (simp_all add: log_server_def)

lemma NewServer_default: "NewServer (manager_iface flt mts now) None addr [] = Inr (log_server flt mts now)"
  by (simp add: NewServer_def log_server_def)

definition fresh_conn :: conn where "fresh_conn = \<lparr>inbox = [], sent = [], budget = None\<rparr>"

lemma New_fresh: "New None addr = Inr fresh_conn"
  by (simp add: New_def NewWithTimeout_def fresh_conn_def)

lemma idle_fresh [simp]: "idle_conn fresh_conn"
  by (simp add: idle_conn_def fresh_conn_def)

text \<open>C31: a record a client produces is read back over the same connection. The call returns; when it returns an
  offset, that is the offset the log was at, the log has grown by exactly this record, and reading the offset gives the
  bytes produced and leaves the connection ready for the next call. When it returns an error the log holds at most this
  record more.\<close>

theorem produce_then_read:
  assumes lg: "serves flt cs m n recs" and room: "n + length recs + 1 < 2 ^ 64"
    and d: "data \<noteq> []" "length data \<le> MaxPayloadSize" and c: "idle_conn c"
  shows "\<exists>m' c' r recs'. Produce (serve (log_server flt mts now)) m c data = Some (m', c', r) \<and> serves flt cs m' n recs' \<and>
    (case r of
       Inr off \<Rightarrow> off = mgr_NextOffset m \<and> recs' = recs @ [data]
         \<and> (\<exists>c''. Read (serve (log_server flt mts now)) m' c' off = Some (m', c'', Inr data) \<and> idle_conn c'')
     | Inl e \<Rightarrow> recs' = recs \<or> recs' = recs @ [data])"
proof -
  obtain m' c' r recs' where p: "Produce (serve (log_server flt mts now)) m c data = Some (m', c', r)" "serves flt cs m' n recs'"
    "case r of Inr off \<Rightarrow> off = of_nat (n + length recs) \<and> recs' = recs @ [data] \<and> idle_conn c'
     | Inl e \<Rightarrow> recs' = recs \<or> recs' = recs @ [data]"
    using mgr.Produce_any [OF lg log_server_sel room d c] by blast
  have "mgr_NextOffset m = of_nat (n + length recs)"
    using mgr.next_law [OF lg, of mts now] by (simp add: manager_iface_def)
  moreover have "\<exists>c''. Read (serve (log_server flt mts now)) m' c' (of_nat (n + length recs)) = Some (m', c'', Inr data) \<and> idle_conn c''"
    if "recs' = recs @ [data]" "idle_conn c'"
    using mgr.Read_hit [OF p(2) log_server_sel, of "length recs" c'] that by simp
  ultimately show ?thesis using p by (cases r) auto
qed

theorem produce_then_read_witness:
  "\<exists>m' c' c''. Produce (serve (log_server no_faults (\<lambda>_. None) 96)) demo_mgr fresh_conn [7] = Some (m', c', Inr 2)
    \<and> Read (serve (log_server no_faults (\<lambda>_. None) 96)) m' c' 2 = Some (m', c'', Inr [7])"
proof -
  have acc: "accepts NewCRC32C [[2]] (active demo_mgr) [7]"
    by (simp add: accepts_def demo_mgr_def active_def demo_seg_def MaxRecordSize_def max_file_size_def)
  have inv: "mgr_inv NewCRC32C 0 ([[[1]]] @ [[[2]]]) demo_mgr" using demo_mgr_inv by simp
  obtain m1 where "Append no_faults (\<lambda>_. None) 96 demo_mgr [7] = Some (m1, Inr 2)"
    using crc32c.Append_succeeds [OF inv acc healthy_no_faults(1), of "\<lambda>_. None" 96] by auto
  then have "\<exists>c1. Produce (serve (log_server no_faults (\<lambda>_. None) 96)) demo_mgr fresh_conn [7] = Some (m1, c1, Inr 2)"
    using mgr.Produce_ok [of no_faults "\<lambda>_. None" 96 demo_mgr "[7]" m1 2 "log_server no_faults (\<lambda>_. None) 96" fresh_conn]
    by (auto simp: manager_iface_def MaxPayloadSize_def)
  then show ?thesis
    using produce_then_read [OF demo_mgr_serves, of "[7]" fresh_conn "\<lambda>_. None" 96] by (auto simp: MaxPayloadSize_def)
qed

text \<open>C32: one stream request delivers the rest of the log. From any offset the log still holds, or its next offset,
  \<open>StreamRead\<close> hands the callback every record from there to the head, in order and with its offset, returns the
  offset to resume from, changes nothing in the log, and leaves the connection ready for the next call.\<close>

theorem stream_delivers_rest_of_log:
  assumes "serves flt cs m n recs" "unat (EarliestOffset m) \<le> unat off" "unat off \<le> unat (mgr_NextOffset m)" "idle_conn c"
  shows "\<exists>c'. StreamRead (serve (log_server flt mts now)) m c off (\<lambda>acc off d. (acc @ [(off, d)], None)) [] =
      Some (m, zip (map of_nat [unat off..<unat (mgr_NextOffset m)]) (drop (unat off - n) recs), c', mgr_NextOffset m, None)
    \<and> idle_conn c'"
proof -
  have b: "n + length recs < 2 ^ 64" using mgr.log_bound [OF assms(1)] .
  have nx: "mgr_NextOffset m = of_nat (n + length recs)" and er: "EarliestOffset m = of_nat n"
    using mgr.next_law [OF assms(1), of "\<lambda>_. None" 0] mgr.earliest_law [OF assms(1), of "\<lambda>_. None" 0] by (simp_all add: manager_iface_def)
  have u: "unat (mgr_NextOffset m) = n + length recs" "unat (EarliestOffset m) = n"
    unfolding nx er using b by (simp_all only: unat_of_nat, simp_all)
  show ?thesis
    using mgr.StreamRead_all [OF assms(1) log_server_sel _ _ assms(4), of off "\<lambda>acc off d. (acc @ [(off, d)], None)"] assms(2,3)
    unfolding u nx [symmetric] by simp
qed

theorem stream_delivers_rest_of_log_witness:
  "\<exists>c'. StreamRead (serve (log_server no_faults (\<lambda>_. None) 96)) demo_mgr fresh_conn 0 (\<lambda>acc off d. (acc @ [(off, d)], None)) [] =
      Some (demo_mgr, [(0, [1]), (1, [2])], c', 2, None)"
proof -
  have "mgr_NextOffset demo_mgr = 2" "EarliestOffset demo_mgr = 0"
    using mgr.next_law [OF demo_mgr_serves, of "\<lambda>_. None" 0] mgr.earliest_law [OF demo_mgr_serves, of "\<lambda>_. None" 0] 
    by (simp_all add: manager_iface_def)
  then show ?thesis
    using stream_delivers_rest_of_log [OF demo_mgr_serves, of 0 fresh_conn "\<lambda>_. None" 96] by (simp add: upt_rec) blast
qed

text \<open>C33: no client can wedge the server or damage the log. For any bytes on a connection and any point at which
  writing to it fails, \<open>handleConn\<close> returns, and the log keeps every record it held, with records only added at
  the end.\<close>

theorem server_survives_any_input:
  assumes "serves flt cs m n recs" "n + length recs + length (inbox c) < 2 ^ 64"
  shows "\<exists>m' c' recs'. handleConn (log_server flt mts now) m c = Some (m', c') \<and> serves flt cs m' n (recs @ recs')"
  by (rule mgr.handleConn_any [OF assms(1) log_server_sel(1) assms(2)])

theorem server_survives_any_input_witness:
  "\<exists>m' c' recs'. handleConn (log_server no_faults (\<lambda>_. None) 96) demo_mgr
      \<lparr>inbox = [9, 9, 0, 0, 0, 0, 1, 0, 0, 0, 1, 5, 255], sent = [], budget = Some 3\<rparr> = Some (m', c')
    \<and> serves no_faults NewCRC32C m' 0 ([[1], [2]] @ recs')"
  by (rule server_survives_any_input [OF demo_mgr_serves]) simp

text \<open>C34: a callback that stops a stream early leaves the connection out of step. \<open>StreamRead\<close> returns the
  callback's error with the remaining frames unread, so the next \<open>Read\<close> on that client, of any offset,
  returns the second record of the stream.\<close>

theorem aborted_stream_desyncs:
  assumes "serves flt cs m n recs" "2 \<le> length recs" "idle_conn c"
  shows "\<exists>c'. StreamRead (serve (log_server flt mts now)) m c (EarliestOffset m) (\<lambda>acc off d. (acc, Some e)) [] =
      Some (m, [], c', EarliestOffset m, Some e)
    \<and> (\<exists>c''. Read (serve (log_server flt mts now)) m c' off = Some (m, c'', Inr (recs ! 1)))"
proof -
  have "EarliestOffset m = of_nat n"
    using mgr.earliest_law [OF assms(1), of mts now] by (simp add: manager_iface_def)
  then show ?thesis using mgr.StreamRead_abort [OF assms(1) log_server_sel assms(2,3)] by simp
qed

theorem aborted_stream_desyncs_witness:
  "\<exists>c'. StreamRead (serve (log_server no_faults (\<lambda>_. None) 96)) demo_mgr fresh_conn (EarliestOffset demo_mgr)
      (\<lambda>acc off d. (acc, Some EOF)) [] = Some (demo_mgr, [], c', EarliestOffset demo_mgr, Some EOF)
    \<and> (\<exists>c''. Read (serve (log_server no_faults (\<lambda>_. None) 96)) demo_mgr c' 0 = Some (demo_mgr, c'', Inr [2]))"
  using aborted_stream_desyncs [OF demo_mgr_serves, of fresh_conn "\<lambda>_. None" 96 EOF 0] by simp

end
