(* ===== verification/Raft_Storage.thy ===== *)
theory Raft_Storage
  imports Atomic_File
begin

text \<open>
  What a Raft node keeps on stable storage, \<open>internal/raft/storage.go\<close>: the persistent state, the
  interface \<open>Storage\<close> and its two implementations. \<open>FileStorage\<close> replaces a file as
  theory \<open>Atomic_File\<close> describes; the encoding of \<open>encoding/gob\<close> is a parameter.

  The locale \<open>stable_storage\<close> states what the node relies on: a load returns what the last
  successful save stored, also after a crash. It is interpreted for both implementations, under any
  fault schedule.
\<close>

section \<open>Persistent state\<close>

type_synonym NodeID = int

definition NoNode :: NodeID where "NoNode = - 1"

record LogEntry =
  eTerm :: u64
  Command :: bytes

record PersistentState =
  CurrentTerm :: u64
  VotedFor :: NodeID
  Log :: "LogEntry list"

text \<open>The interface. \<open>Load\<close> gives \<open>None\<close> where the code returns \<open>ok = false\<close>.\<close>

record 's Storage =
  Save :: "'s \<Rightarrow> PersistentState \<Rightarrow> 's \<times> goerror option"
  Load :: "'s \<Rightarrow> goerror + PersistentState option"

section \<open>In memory\<close>

type_synonym MemoryStorage = "PersistentState option"

definition NewMemoryStorage :: MemoryStorage where "NewMemoryStorage = None"

definition mem_Save :: "MemoryStorage \<Rightarrow> PersistentState \<Rightarrow> MemoryStorage \<times> goerror option" where
  "mem_Save m state = (Some state, None)"

definition mem_Load :: "MemoryStorage \<Rightarrow> goerror + PersistentState option" where
  "mem_Load m = (case m of None \<Rightarrow> Inr None | Some cp \<Rightarrow> Inr (Some cp))"

definition memory_storage :: "MemoryStorage Storage" where
  "memory_storage = \<lparr>Save = mem_Save, Load = mem_Load\<rparr>"

section \<open>In a file\<close>

type_synonym gob_encoder = "PersistentState \<Rightarrow> goerror + bytes"
type_synonym gob_decoder = "bytes \<Rightarrow> goerror + PersistentState"

definition fsyncDir :: "faults \<Rightarrow> dir \<Rightarrow> string \<Rightarrow> dir \<times> goerror option" where
  "fsyncDir flt d path =
     (case flt (SysDirSync path) of
        Some (msg, _) \<Rightarrow> (d, Some (OsError msg))
      | None \<Rightarrow> (d\<lparr>stable := live d\<rparr>, None))"

text \<open>\<open>Save\<close>, with every state of the directory it passes through, the last one first.\<close>

definition file_Save :: "faults \<Rightarrow> gob_encoder \<Rightarrow> string \<Rightarrow> dir \<Rightarrow> PersistentState \<Rightarrow> dir list \<times> goerror option" where
  "file_Save flt encode path d state =
     (case encode state of
        Inl e \<Rightarrow> ([d], Some (Wrap ''raft: encode state'' e))
      | Inr buf \<Rightarrow>
      let tmp = path @ ''.tmp'' in
      case flt (SysOpen tmp) of
        Some (msg, _) \<Rightarrow> ([d], Some (Wrap (''raft: open tmp '' @ fmt_q tmp) (OsError msg)))
      | None \<Rightarrow>
      let f0 = \<lparr>fname = tmp, content = [], synced = []\<rparr>;
          d0 = d\<lparr>live := (live d)(tmp \<mapsto> f0)\<rparr> in
      case file_Write flt f0 buf of
        (f1, Some e) \<Rightarrow> ([d0\<lparr>live := (live d0)(tmp \<mapsto> f1)\<rparr>, d0, d], Some (Wrap ''raft: write state'' e))
      | (f1, None) \<Rightarrow>
      let d1 = d0\<lparr>live := (live d0)(tmp \<mapsto> f1)\<rparr> in
      case file_Sync flt f1 of
        (_, Some e) \<Rightarrow> ([d1, d0, d], Some (Wrap ''raft: fsync state'' e))
      | (f2, None) \<Rightarrow>
      let d2 = d1\<lparr>live := (live d1)(tmp \<mapsto> f2)\<rparr> in
      case file_Close flt f2 of
        Some e \<Rightarrow> ([d2, d1, d0, d], Some (Wrap ''raft: close tmp'' e))
      | None \<Rightarrow>
      case flt (SysRename tmp) of
        Some (msg, _) \<Rightarrow> ([d2, d1, d0, d], Some (Wrap ''raft: rename state'' (OsError msg)))
      | None \<Rightarrow>
      let d3 = d2\<lparr>live := (live d2)(path \<mapsto> f2\<lparr>fname := path\<rparr>, tmp := None)\<rparr> in
      case fsyncDir flt d3 path of
        (d4, e) \<Rightarrow> ([d4, d3, d2, d1, d0, d], e))"

definition file_Load :: "faults \<Rightarrow> gob_decoder \<Rightarrow> string \<Rightarrow> dir \<Rightarrow> goerror + PersistentState option" where
  "file_Load flt decode path d =
     (case live d path of
        None \<Rightarrow> Inr None
      | Some f \<Rightarrow>
          (case flt (SysOpen path) of
             Some (msg, _) \<Rightarrow> Inl (Wrap (''raft: read state '' @ fmt_q path) (OsError msg))
           | None \<Rightarrow>
               (case decode (content f) of
                  Inl e \<Rightarrow> Inl (Wrap ''raft: decode state'' e)
                | Inr state \<Rightarrow> Inr (Some state))))"

definition file_storage :: "faults \<Rightarrow> gob_encoder \<Rightarrow> gob_decoder \<Rightarrow> string \<Rightarrow> dir Storage" where
  "file_storage flt encode decode path =
     \<lparr>Save = (\<lambda>d state. case file_Save flt encode path d state of (ds, e) \<Rightarrow> (hd ds, e)), Load = file_Load flt decode path\<rparr>"

section \<open>What a node relies on\<close>

locale stable_storage =
  fixes S :: "'s Storage" and stored :: "'s \<Rightarrow> PersistentState option \<Rightarrow> bool" and crash :: "'s \<Rightarrow> 's \<Rightarrow> bool"
  assumes save_law: "stored s x \<Longrightarrow> Save S s p = (s', None) \<Longrightarrow> stored s' (Some p)"
    and load_law: "stored s x \<Longrightarrow> Load S s = Inr y \<Longrightarrow> y = x"
    and crash_law: "stored s x \<Longrightarrow> crash s s' \<Longrightarrow> stored s' x"

text \<open>A restart of a node in memory keeps its \<open>MemoryStorage\<close>.\<close>

interpretation in_memory: stable_storage memory_storage "(=)" "(=)"
  by unfold_locales (auto simp: memory_storage_def mem_Save_def mem_Load_def split: option.splits)

text \<open>Decoding gives back what was encoded.\<close>

definition gob_ok :: "gob_encoder \<Rightarrow> gob_decoder \<Rightarrow> bool" where
  "gob_ok encode decode \<longleftrightarrow> (\<forall>p b. encode p = Inr b \<longrightarrow> decode b = Inr p)"

definition file_stored :: "gob_encoder \<Rightarrow> gob_decoder \<Rightarrow> string \<Rightarrow> dir \<Rightarrow> PersistentState option \<Rightarrow> bool" where
  "file_stored encode decode path d x \<longleftrightarrow> gob_ok encode decode \<and>
     (case x of None \<Rightarrow> file_settled d path None | Some p \<Rightarrow> (\<exists>b. encode p = Inr b \<and> file_settled d path (Some b)))"

text \<open>After a crash both views of the path are one of the contents it may have.\<close>

definition file_crash :: "string \<Rightarrow> dir \<Rightarrow> dir \<Rightarrow> bool" where
  "file_crash path d d' \<longleftrightarrow> (\<exists>r. crash_read d path r \<and> file_settled d' path r)"

lemma file_Save_crash:
  assumes st: "file_settled d path v" and "d' \<in> set (fst (file_Save flt encode path d p))" "crash_read d' path r"
  shows "r = v \<or> (\<exists>b. encode p = Inr b \<and> r = Some b)"
proof (cases "encode p")
  case (Inl e)
  then show ?thesis using assms crash_read_settled [OF st] by (simp add: file_Save_def)
next
  case (Inr b)
  let ?f = "\<lparr>fname = path, content = b, synced = b\<rparr>"
  have "live d' path = live d path \<and> stable d' = stable d
      \<or> live d' path = Some ?f \<and> (stable d' = stable d \<or> stable d' path = Some ?f)"
    using assms(2) Inr
    by (auto simp: file_Save_def Let_def file_Write_def file_Sync_def fsyncDir_def split: option.splits if_splits)
  then show ?thesis
    using crash_read_replaced [of d path v d' ?f b r] assms Inr by simp
qed

lemma file_Save_ok:
  assumes "file_Save flt encode path d p = (ds, None)"
  shows "\<exists>b. encode p = Inr b \<and> file_settled (hd ds) path (Some b)"
  using assms
  by (auto simp: file_Save_def Let_def file_Write_def file_Sync_def fsyncDir_def file_settled_def
      split: sum.splits option.splits if_splits)

interpretation on_file: stable_storage "file_storage flt encode decode path" "file_stored encode decode path" "file_crash path" for flt encode decode path
proof
  fix s x p s' y
  assume st: "file_stored encode decode path s x"
  show "file_stored encode decode path s' (Some p)" if "Save (file_storage flt encode decode path) s p = (s', None)"
    using that st file_Save_ok [of flt encode path s p]
    by (auto simp: file_storage_def file_stored_def split: prod.splits)
  show "y = x" if "Load (file_storage flt encode decode path) s = Inr y"
    using that st
    by (auto simp: file_storage_def file_Load_def file_stored_def file_settled_def gob_ok_def
        split: option.splits sum.splits)
  show "file_stored encode decode path s' x" if "file_crash path s s'"
    using that st crash_read_settled [of s path]
    by (auto simp: file_stored_def file_crash_def split: option.splits)
qed

end
