(* ===== verification/Raft_Node.thy ===== *)
theory Raft_Node
  imports Raft_Storage
begin

text \<open>
  One Raft node, \<open>internal/raft/raft.go\<close> and \<open>internal/raft/rpc.go\<close>: its state and everything
  that changes it. Each definition is one critical section under the node's mutex; the goroutines that
  the code starts, and the network between them, are in theory \<open>Raft_Cluster\<close>.

  Terms are 64-bit words. Log indices are \<open>nat\<close>: the code adds to an index only after it has
  compared it with the length of a slice, so these sums do not wrap. A slice access that may be out of
  range gives \<open>Panic\<close>. A clock is the result of \<open>time.Now\<close> and the function
  \<open>rand.Int63n\<close>. What the code reports with \<open>log.Printf\<close> is kept in \<open>logged\<close>.
\<close>

section \<open>State\<close>

datatype RaftState = Follower | Candidate | Leader

fun State_String :: "RaftState \<Rightarrow> string" where
  "State_String Follower = ''follower''"
| "State_String Candidate = ''candidate''"
| "State_String Leader = ''leader''"

datatype 'a go = Panic | Ret 'a

record ApplyMsg =
  CommandValid :: bool
  MsgCommand :: bytes
  CommandIndex :: nat

definition DefaultHeartbeatInterval :: int where "DefaultHeartbeatInterval = 50 * 10 ^ 6"
definition DefaultElectionTimeoutMin :: int where "DefaultElectionTimeoutMin = 150 * 10 ^ 6"
definition DefaultElectionTimeoutMax :: int where "DefaultElectionTimeoutMax = 300 * 10 ^ 6"

record RaftConfig =
  ID :: NodeID
  Peers :: "NodeID list"
  HeartbeatInterval :: int
  ElectionTimeoutMin :: int
  ElectionTimeoutMax :: int

record 's Raft =
  rid :: NodeID
  peers :: "NodeID list"
  heartbeatInterval :: int
  electionTimeoutMin :: int
  electionTimeoutMax :: int
  currentTerm :: u64
  votedFor :: NodeID
  rlog :: "LogEntry list"
  rstate :: RaftState
  leaderID :: NodeID
  commitIndex :: nat
  lastApplied :: nat
  electionDeadline :: int
  nextIndex :: "NodeID \<Rightarrow> nat"
  matchIndex :: "NodeID \<Rightarrow> nat"
  storage :: 's
  logged :: "goerror list"

type_synonym clock = "int \<times> (int \<Rightarrow> int)"

definition clusterSize :: "'s Raft \<Rightarrow> nat" where "clusterSize r = length (peers r) + 1"
definition majority :: "'s Raft \<Rightarrow> nat" where "majority r = clusterSize r div 2 + 1"
definition lastIndexLocked :: "'s Raft \<Rightarrow> nat" where "lastIndexLocked r = length (rlog r) - 1"

definition lastLogTermIndexLocked :: "'s Raft \<Rightarrow> u64 \<times> nat" where
  "lastLogTermIndexLocked r = (let idx = lastIndexLocked r in (eTerm (rlog r ! idx), idx))"

definition resetElectionDeadlineLocked :: "clock \<Rightarrow> 's Raft \<Rightarrow> 's Raft" where
  "resetElectionDeadlineLocked ck r =
     (let span = electionTimeoutMax r - electionTimeoutMin r;
          timeout = electionTimeoutMin r + snd ck span in
      r\<lparr>electionDeadline := fst ck + timeout\<rparr>)"

definition becomeFollowerLocked :: "clock \<Rightarrow> u64 \<Rightarrow> 's Raft \<Rightarrow> 's Raft" where
  "becomeFollowerLocked ck term r =
     resetElectionDeadlineLocked ck (r\<lparr>rstate := Follower, currentTerm := term, votedFor := NoNode, leaderID := NoNode\<rparr>)"

section \<open>Persistence\<close>

definition persistLocked :: "'s Storage \<Rightarrow> 's Raft \<Rightarrow> 's Raft" where
  "persistLocked S r =
     (case Save S (storage r) \<lparr>CurrentTerm = currentTerm r, VotedFor = votedFor r, Log = rlog r\<rparr> of
        (s, None) \<Rightarrow> r\<lparr>storage := s\<rparr>
      | (s, Some e) \<Rightarrow> r\<lparr>storage := s, logged := logged r @ [Wrap (''raft '' @ dec_int (rid r) @ '': persist'') e]\<rparr>)"

definition loadPersistedState :: "'s Storage \<Rightarrow> 's Raft \<Rightarrow> 's Raft" where
  "loadPersistedState S r =
     (case Load S (storage r) of
        Inl e \<Rightarrow> r\<lparr>logged := logged r @ [Wrap (''raft '' @ dec_int (rid r) @ '': load persisted state'') e]\<rparr>
      | Inr None \<Rightarrow> r
      | Inr (Some state) \<Rightarrow>
          (let r1 = r\<lparr>currentTerm := CurrentTerm state, votedFor := VotedFor state\<rparr> in
           if length (Log state) > 0 then r1\<lparr>rlog := Log state\<rparr> else r1))"

definition sentinel :: LogEntry where "sentinel = \<lparr>eTerm = 0, Command = []\<rparr>"

definition raft_New :: "'s Storage \<Rightarrow> clock \<Rightarrow> RaftConfig \<Rightarrow> 's \<Rightarrow> 's Raft" where
  "raft_New S ck c st =
     (let hb = (if HeartbeatInterval c \<le> 0 then DefaultHeartbeatInterval else HeartbeatInterval c);
          tmin = (if ElectionTimeoutMin c \<le> 0 then DefaultElectionTimeoutMin else ElectionTimeoutMin c);
          tmax = (if ElectionTimeoutMax c \<le> tmin then int64 (tmin * 2) else ElectionTimeoutMax c) in
      resetElectionDeadlineLocked ck (loadPersistedState S
        \<lparr>rid = ID c, peers = Peers c, heartbeatInterval = hb, electionTimeoutMin = tmin, electionTimeoutMax = tmax,
         currentTerm = 0, votedFor = NoNode, rlog = [sentinel], rstate = Follower, leaderID = NoNode,
         commitIndex = 0, lastApplied = 0, electionDeadline = 0, nextIndex = (\<lambda>_. 0), matchIndex = (\<lambda>_. 0),
         storage = st, logged = []\<rparr>))"

text \<open>\<open>rand.Int63n\<close> needs a positive argument. \<open>New\<close> sees to it, unless twice the lower timeout overflows.\<close>

lemma election_span_positive:
  assumes "ElectionTimeoutMin c < 2 ^ 62"
  shows "electionTimeoutMax (raft_New S ck c st) - electionTimeoutMin (raft_New S ck c st) > 0"
proof -
  have "int64 (t * 2) > t" if "0 < t" "t < 2 ^ 62" for t :: int using that int64_nonneg [of "t * 2"] by simp
  moreover have "int64 300000000 = 300000000" by (rule int64_nonneg) simp_all
  ultimately show ?thesis
    using assms
    by (auto simp: raft_New_def loadPersistedState_def resetElectionDeadlineLocked_def Let_def DefaultElectionTimeoutMin_def
        split: sum.splits option.splits)
qed

section \<open>Elections\<close>

record RequestVoteArgs =
  rvTerm :: u64
  CandidateID :: NodeID
  LastLogIndex :: nat
  LastLogTerm :: u64

record RequestVoteReply =
  rvrTerm :: u64
  VoteGranted :: bool

definition timedOut :: "int \<Rightarrow> 's Raft \<Rightarrow> bool" where
  "timedOut now r \<longleftrightarrow> rstate r \<noteq> Leader \<and> now > electionDeadline r"

text \<open>\<open>startElection\<close> up to the point where it releases the mutex: the new state and the request it sends to
  every peer. The role is not checked again after \<open>electionLoop\<close> has looked at it.\<close>

definition startElection :: "'s Storage \<Rightarrow> clock \<Rightarrow> 's Raft \<Rightarrow> 's Raft \<times> RequestVoteArgs" where
  "startElection S ck r =
     (let r1 = persistLocked S (resetElectionDeadlineLocked ck
            (r\<lparr>rstate := Candidate, currentTerm := currentTerm r + 1, votedFor := rid r, leaderID := NoNode\<rparr>));
          (lastLogTerm, lastLogIndex) = lastLogTermIndexLocked r1 in
      (r1, \<lparr>rvTerm = currentTerm r1, CandidateID = rid r1, LastLogIndex = lastLogIndex, LastLogTerm = lastLogTerm\<rparr>))"

definition candidateUpToDateLocked :: "RequestVoteArgs \<Rightarrow> 's Raft \<Rightarrow> bool" where
  "candidateUpToDateLocked args r =
     (let (myLastTerm, myLastIndex) = lastLogTermIndexLocked r in
      if LastLogTerm args \<noteq> myLastTerm then LastLogTerm args > myLastTerm else LastLogIndex args \<ge> myLastIndex)"

definition RequestVote :: "'s Storage \<Rightarrow> clock \<Rightarrow> RequestVoteArgs \<Rightarrow> 's Raft \<Rightarrow> 's Raft \<times> RequestVoteReply" where
  "RequestVote S ck args r =
     (let (r1, changed) = (if rvTerm args > currentTerm r then (becomeFollowerLocked ck (rvTerm args) r, True) else (r, False)) in
      if rvTerm args < currentTerm r1 then (r1, \<lparr>rvrTerm = currentTerm r1, VoteGranted = False\<rparr>)
      else
        let alreadyVoted = (votedFor r1 \<noteq> NoNode \<and> votedFor r1 \<noteq> CandidateID args);
            granted = (\<not> alreadyVoted \<and> candidateUpToDateLocked args r1);
            r2 = (if granted then resetElectionDeadlineLocked ck (r1\<lparr>votedFor := CandidateID args\<rparr>) else r1);
            r3 = (if changed \<or> granted then persistLocked S r2 else r2) in
        (r3, \<lparr>rvrTerm = currentTerm r1, VoteGranted = granted\<rparr>))"

definition becomeLeaderLocked :: "'s Raft \<Rightarrow> 's Raft" where
  "becomeLeaderLocked r =
     (if rstate r \<noteq> Candidate then r
      else let last = lastIndexLocked r in
        r\<lparr>rstate := Leader, leaderID := rid r,
          nextIndex := (\<lambda>p. if p \<in> set (peers r) then last + 1 else 0), matchIndex := (\<lambda>_. 0)\<rparr>)"

text \<open>What the goroutine that asked a peer does with its answer. The \<open>votes\<close> of this election are shared by the
  goroutines of one \<open>startElection\<close>.\<close>

definition vote_reply ::
  "'s Storage \<Rightarrow> clock \<Rightarrow> u64 \<Rightarrow> RequestVoteReply \<Rightarrow> 's Raft \<Rightarrow> nat \<Rightarrow> 's Raft \<times> nat" where
  "vote_reply S ck term reply r votes =
     (if rstate r \<noteq> Candidate \<or> currentTerm r \<noteq> term then (r, votes)
      else if rvrTerm reply > currentTerm r then (persistLocked S (becomeFollowerLocked ck (rvrTerm reply) r), votes)
      else if \<not> VoteGranted reply then (r, votes)
      else if votes + 1 \<ge> majority r then (becomeLeaderLocked r, votes + 1)
      else (r, votes + 1))"

section \<open>Replication\<close>

record AppendEntriesArgs =
  aeTerm :: u64
  LeaderID :: NodeID
  PrevLogIndex :: nat
  PrevLogTerm :: u64
  Entries :: "LogEntry list"
  LeaderCommit :: nat

record AppendEntriesReply =
  aerTerm :: u64
  Success :: bool
  ConflictIndex :: nat

definition Start :: "'s Storage \<Rightarrow> bytes \<Rightarrow> 's Raft \<Rightarrow> 's Raft \<times> nat \<times> u64 \<times> bool" where
  "Start S command r =
     (if rstate r \<noteq> Leader then (r, 0, currentTerm r, False)
      else let r1 = r\<lparr>rlog := rlog r @ [\<lparr>eTerm = currentTerm r, Command = command\<rparr>]\<rparr>;
               r2 = persistLocked S r1 in
        (r2, length (rlog r1) - 1, currentTerm r2, True))"

text \<open>The peers that \<open>broadcastAppendEntries\<close> starts a \<open>replicateTo\<close> for.\<close>

definition broadcastAppendEntries :: "'s Raft \<Rightarrow> NodeID list" where
  "broadcastAppendEntries r = (if rstate r \<noteq> Leader then [] else peers r)"

text \<open>The request \<open>replicateTo\<close> sends.\<close>

definition replicate_args :: "'s Raft \<Rightarrow> NodeID \<Rightarrow> AppendEntriesArgs option go" where
  "replicate_args r peer =
     (if rstate r \<noteq> Leader then Ret None
      else
        let ni = (if nextIndex r peer < 1 then 1 else nextIndex r peer); prevIndex = ni - 1 in
        if length (rlog r) \<le> prevIndex then Panic
        else Ret (Some \<lparr>aeTerm = currentTerm r, LeaderID = rid r, PrevLogIndex = prevIndex,
          PrevLogTerm = eTerm (rlog r ! prevIndex), Entries = drop ni (rlog r), LeaderCommit = commitIndex r\<rparr>))"

text \<open>The loop that skips a conflicting term backwards.\<close>

fun conflict_back :: "LogEntry list \<Rightarrow> u64 \<Rightarrow> nat \<Rightarrow> nat" where
  "conflict_back l conflictTerm 0 = 0"
| "conflict_back l conflictTerm (Suc ci) =
     (if Suc ci > 1 \<and> eTerm (l ! ci) = conflictTerm then conflict_back l conflictTerm ci else Suc ci)"

text \<open>The loop over the entries: matching ones are skipped, the first other one replaces the rest of the log. It also
  tells whether the log changed.\<close>

fun append_loop :: "LogEntry list \<Rightarrow> nat \<Rightarrow> LogEntry list \<Rightarrow> LogEntry list \<times> bool" where
  "append_loop l idx [] = (l, False)"
| "append_loop l idx (e # es) =
     (if idx < length l \<and> eTerm (l ! idx) = eTerm e then append_loop l (idx + 1) es
      else (take idx l @ e # es, True))"

definition AppendEntries :: "'s Storage \<Rightarrow> clock \<Rightarrow> AppendEntriesArgs \<Rightarrow> 's Raft \<Rightarrow> 's Raft \<times> AppendEntriesReply" where
  "AppendEntries S ck args r =
     (if aeTerm args < currentTerm r then (r, \<lparr>aerTerm = currentTerm r, Success = False, ConflictIndex = 0\<rparr>)
      else
        let (r1, changed) = (if aeTerm args > currentTerm r then (becomeFollowerLocked ck (aeTerm args) r, True) else (r, False));
            r2 = resetElectionDeadlineLocked ck (r1\<lparr>rstate := Follower, leaderID := LeaderID args\<rparr>) in
        if PrevLogIndex args > lastIndexLocked r2 then
          (if changed then persistLocked S r2 else r2,
           \<lparr>aerTerm = currentTerm r2, Success = False, ConflictIndex = lastIndexLocked r2 + 1\<rparr>)
        else if eTerm (rlog r2 ! PrevLogIndex args) \<noteq> PrevLogTerm args then
          (if changed then persistLocked S r2 else r2,
           \<lparr>aerTerm = currentTerm r2, Success = False,
            ConflictIndex = conflict_back (rlog r2) (eTerm (rlog r2 ! PrevLogIndex args)) (PrevLogIndex args)\<rparr>)
        else
          let (l, appended) = append_loop (rlog r2) (PrevLogIndex args + 1) (Entries args);
              r3 = r2\<lparr>rlog := l\<rparr>;
              r4 = (if LeaderCommit args > commitIndex r3
                    then r3\<lparr>commitIndex := min (LeaderCommit args) (PrevLogIndex args + length (Entries args))\<rparr> else r3) in
          (if changed \<or> appended then persistLocked S r4 else r4,
           \<lparr>aerTerm = currentTerm r2, Success = True, ConflictIndex = 0\<rparr>))"

definition match_count :: "'s Raft \<Rightarrow> nat \<Rightarrow> nat" where
  "match_count r n = 1 + length (filter (\<lambda>p. matchIndex r p \<ge> n) (peers r))"

fun advance_loop :: "'s Raft \<Rightarrow> nat \<Rightarrow> 's Raft" where
  "advance_loop r 0 = r"
| "advance_loop r (Suc n) =
     (if Suc n \<le> commitIndex r then r
      else if eTerm (rlog r ! Suc n) \<noteq> currentTerm r then advance_loop r n
      else if match_count r (Suc n) \<ge> majority r then r\<lparr>commitIndex := Suc n\<rparr>
      else advance_loop r n)"

definition advanceCommitLocked :: "'s Raft \<Rightarrow> 's Raft" where
  "advanceCommitLocked r = advance_loop r (lastIndexLocked r)"

text \<open>What \<open>replicateTo\<close> does with the answer to the request \<open>args\<close>.\<close>

definition replicate_reply :: "clock \<Rightarrow> NodeID \<Rightarrow> AppendEntriesArgs \<Rightarrow> AppendEntriesReply \<Rightarrow> 's Raft \<Rightarrow> 's Raft" where
  "replicate_reply ck peer args reply r =
     (if rstate r \<noteq> Leader \<or> currentTerm r \<noteq> aeTerm args then r
      else if aerTerm reply > currentTerm r then becomeFollowerLocked ck (aerTerm reply) r
      else if Success reply then
        let m = PrevLogIndex args + length (Entries args) in
        advanceCommitLocked (r\<lparr>matchIndex := (matchIndex r)(peer := m), nextIndex := (nextIndex r)(peer := m + 1)\<rparr>)
      else if ConflictIndex reply > 0 then r\<lparr>nextIndex := (nextIndex r)(peer := ConflictIndex reply)\<rparr>
      else if nextIndex r peer > 1 then r\<lparr>nextIndex := (nextIndex r)(peer := nextIndex r peer - 1)\<rparr>
      else r)"

section \<open>Applying\<close>

text \<open>One round of \<open>applyLoop\<close>, when it does not wait.\<close>

definition apply_next :: "'s Raft \<Rightarrow> ('s Raft \<times> ApplyMsg) option go" where
  "apply_next r =
     (if lastApplied r \<ge> commitIndex r then Ret None
      else
        let i = lastApplied r + 1 in
        if length (rlog r) \<le> i then Panic
        else Ret (Some (r\<lparr>lastApplied := i\<rparr>,
          \<lparr>CommandValid = True, MsgCommand = Command (rlog r ! i), CommandIndex = i\<rparr>)))"

end
