(* ===== verification/Raft_Cluster.thy ===== *)
theory Raft_Cluster
  imports Raft_Node
begin

text \<open>
  A cluster of Raft nodes: the goroutines of \<open>internal/raft/raft.go\<close> and the transport between them.

  An action is one critical section of one node. The transport may lose, delay, reorder and repeat
  messages: what was once sent or answered stays in the cluster and may be delivered at any later time,
  any number of times. Only the goroutines of an election take the answer of a peer at most once, so those
  still waiting are kept. A crash loses everything but the storage; the node restarts with \<open>New\<close>.
  Timers are not constrained: an election or a replication round may begin at any time.
\<close>

record 's cluster =
  node :: "NodeID \<Rightarrow> 's Raft"
  votes :: "NodeID \<Rightarrow> u64 \<Rightarrow> nat"
  asking :: "(NodeID \<times> u64 \<times> NodeID) list"
  vote_reqs :: "(NodeID \<times> RequestVoteArgs) list"
  vote_reps :: "(NodeID \<times> RequestVoteArgs \<times> RequestVoteReply) list"
  app_reqs :: "(NodeID \<times> AppendEntriesArgs) list"
  app_reps :: "(NodeID \<times> AppendEntriesArgs \<times> AppendEntriesReply) list"
  applied :: "(NodeID \<times> ApplyMsg) list"

datatype 's raft_action =
    ElectionTimeout NodeID clock
  | DeliverVote NodeID RequestVoteArgs clock
  | ReceiveVote NodeID NodeID RequestVoteArgs RequestVoteReply clock
  | Propose NodeID bytes
  | SendAppend NodeID NodeID
  | DeliverAppend NodeID AppendEntriesArgs clock
  | ReceiveAppend NodeID NodeID AppendEntriesArgs AppendEntriesReply clock
  | Apply NodeID
  | Crash NodeID 's clock

definition set_node :: "NodeID \<Rightarrow> 's Raft \<Rightarrow> 's cluster \<Rightarrow> 's cluster" where
  "set_node i r c = c\<lparr>node := (node c)(i := r)\<rparr>"

definition raft_init :: "'s Storage \<Rightarrow> clock \<Rightarrow> (NodeID \<Rightarrow> RaftConfig) \<Rightarrow> (NodeID \<Rightarrow> 's) \<Rightarrow> 's cluster" where
  "raft_init S ck cfgs st =
     \<lparr>node = (\<lambda>i. raft_New S ck (cfgs i) (st i)), votes = (\<lambda>_ _. 0), asking = [], vote_reqs = [], vote_reps = [],
      app_reqs = [], app_reps = [], applied = []\<rparr>"

text \<open>An action at a member of the cluster, \<open>None\<close> when it is not enabled.\<close>

fun raft_act :: "'s Storage \<Rightarrow> ('s \<Rightarrow> 's \<Rightarrow> bool) \<Rightarrow> (NodeID \<Rightarrow> RaftConfig) \<Rightarrow> 's raft_action \<Rightarrow> 's cluster \<Rightarrow> 's cluster option" where
  "raft_act S crash cfgs (ElectionTimeout i ck) c =
     (case startElection S ck (node c i) of
        (r, args) \<Rightarrow> Some ((set_node i r c)\<lparr>
          votes := (votes c)(i := (votes c i)(rvTerm args := 1)),
          asking := map (\<lambda>p. (i, rvTerm args, p)) (peers r) @ asking c,
          vote_reqs := map (\<lambda>p. (p, args)) (peers r) @ vote_reqs c\<rparr>))"
| "raft_act S crash cfgs (DeliverVote p args ck) c =
     (if (p, args) \<in> set (vote_reqs c) then
        (case RequestVote S ck args (node c p) of
           (r, reply) \<Rightarrow> Some ((set_node p r c)\<lparr>vote_reps := (p, args, reply) # vote_reps c\<rparr>))
      else None)"
| "raft_act S crash cfgs (ReceiveVote i p args reply ck) c =
     (if (p, args, reply) \<in> set (vote_reps c) \<and> CandidateID args = i \<and> (i, rvTerm args, p) \<in> set (asking c) then
        (case vote_reply S ck (rvTerm args) reply (node c i) (votes c i (rvTerm args)) of
           (r, v) \<Rightarrow> Some ((set_node i r c)\<lparr>
             votes := (votes c)(i := (votes c i)(rvTerm args := v)),
             asking := removeAll (i, rvTerm args, p) (asking c)\<rparr>))
      else None)"
| "raft_act S crash cfgs (Propose i command) c = (case Start S command (node c i) of (r, _) \<Rightarrow> Some (set_node i r c))"
| "raft_act S crash cfgs (SendAppend i p) c =
     (if p \<in> set (broadcastAppendEntries (node c i)) then
        (case replicate_args (node c i) p of
           Ret (Some args) \<Rightarrow> Some (c\<lparr>app_reqs := (p, args) # app_reqs c\<rparr>)
         | _ \<Rightarrow> None)
      else None)"
| "raft_act S crash cfgs (DeliverAppend p args ck) c =
     (if (p, args) \<in> set (app_reqs c) then
        (case AppendEntries S ck args (node c p) of
           (r, reply) \<Rightarrow> Some ((set_node p r c)\<lparr>app_reps := (p, args, reply) # app_reps c\<rparr>))
      else None)"
| "raft_act S crash cfgs (ReceiveAppend i p args reply ck) c =
     (if (p, args, reply) \<in> set (app_reps c) \<and> LeaderID args = i
      then Some (set_node i (replicate_reply ck p args reply (node c i)) c) else None)"
| "raft_act S crash cfgs (Apply i) c =
     (case apply_next (node c i) of
        Ret (Some (r, msg)) \<Rightarrow> Some ((set_node i r c)\<lparr>applied := (i, msg) # applied c\<rparr>)
      | _ \<Rightarrow> None)"
| "raft_act S crash cfgs (Crash i s ck) c =
     (if crash (storage (node c i)) s then
        (let r = raft_New S ck (cfgs i) s in
         Some ((set_node i (r\<lparr>logged := logged (node c i) @ logged r\<rparr>) c)\<lparr>
           asking := filter (\<lambda>(j, _). j \<noteq> i) (asking c)\<rparr>))
      else None)"

fun actor :: "'s raft_action \<Rightarrow> NodeID" where
  "actor (ElectionTimeout i ck) = i"
| "actor (DeliverVote i args ck) = i"
| "actor (ReceiveVote i p args reply ck) = i"
| "actor (Propose i command) = i"
| "actor (SendAppend i p) = i"
| "actor (DeliverAppend i args ck) = i"
| "actor (ReceiveAppend i p args reply ck) = i"
| "actor (Apply i) = i"
| "actor (Crash i s ck) = i"

text \<open>The clusters that \<open>k\<close> actions of its members reach.\<close>

inductive raft_reach ::
  "'s Storage \<Rightarrow> ('s \<Rightarrow> 's \<Rightarrow> bool) \<Rightarrow> (NodeID \<Rightarrow> RaftConfig) \<Rightarrow> NodeID set \<Rightarrow> 's cluster \<Rightarrow> nat \<Rightarrow> 's cluster \<Rightarrow> bool"
  for S crash cfgs members c0 where
  start: "raft_reach S crash cfgs members c0 0 c0"
| step: "raft_reach S crash cfgs members c0 k c \<Longrightarrow> actor a \<in> members \<Longrightarrow> raft_act S crash cfgs a c = Some c' \<Longrightarrow>
     raft_reach S crash cfgs members c0 (Suc k) c'"

text \<open>A run of given actions.\<close>

fun raft_run :: "'s Storage \<Rightarrow> ('s \<Rightarrow> 's \<Rightarrow> bool) \<Rightarrow> (NodeID \<Rightarrow> RaftConfig) \<Rightarrow> 's raft_action list \<Rightarrow> 's cluster \<Rightarrow> 's cluster option" where
  "raft_run S crash cfgs [] c = Some c"
| "raft_run S crash cfgs (a # as) c =
     (case raft_act S crash cfgs a c of None \<Rightarrow> None | Some c' \<Rightarrow> raft_run S crash cfgs as c')"

lemma raft_run_reach:
  assumes "raft_reach S crash cfgs members c0 k c" "raft_run S crash cfgs as c = Some c'" "\<forall>a \<in> set as. actor a \<in> members"
  shows "raft_reach S crash cfgs members c0 (k + length as) c'"
  using assms
proof (induction as arbitrary: k c)
  case (Cons a as)
  then obtain c1 where "raft_act S crash cfgs a c = Some c1" "raft_run S crash cfgs as c1 = Some c'"
    by (auto split: option.splits)
  then show ?case using Cons.IH [OF raft_reach.step [OF Cons.prems(1)], of a c1] Cons.prems(3) by simp
qed simp

text \<open>Every node of the cluster knows exactly the others as its peers. No node has the number that stands for
  \<open>None\<close>.\<close>

definition well_configured :: "NodeID set \<Rightarrow> (NodeID \<Rightarrow> RaftConfig) \<Rightarrow> bool" where
  "well_configured members cfgs \<longleftrightarrow> finite members \<and> NoNode \<notin> members \<and>
     (\<forall>i \<in> members. ID (cfgs i) = i \<and> distinct (Peers (cfgs i)) \<and> set (Peers (cfgs i)) = members - {i})"

text \<open>No node has reported that saving or loading its state failed.\<close>

definition no_storage_errors :: "NodeID set \<Rightarrow> 's cluster \<Rightarrow> bool" where
  "no_storage_errors members c \<longleftrightarrow> (\<forall>i \<in> members. logged (node c i) = [])"

end
