(* ===== verification/Raft_History.thy ===== *)
theory Raft_History
  imports Raft_Cluster
begin

text \<open>
  The argument for the safety of Raft, apart from the running nodes. A \<open>history\<close> records the votes
  ever cast, the elections ever won, the log of the leader of each term, and what has been
  acknowledged and committed. \<open>hist_ok\<close> collects what holds of it in every run; the main result is
  \<open>leader_complete\<close>: what is committed in one term is in the log of the leader of every later term.
\<close>

section \<open>Histories\<close>

text \<open>
  \<open>disk\<close>: what each node has on stable storage. \<open>cast\<close>: voter, term, candidate and the voter's log.
  \<open>won\<close>: for each term the winner and its log when it won. \<open>tlog\<close>: for each term the log of its leader,
  which only grows. \<open>acks\<close>: a node has stored the leader's log of a term up to an index whose entry is of
  that term. \<open>commits\<close>: a leader has counted a majority of acknowledgements.
\<close>

record history =
  disk :: "NodeID \<Rightarrow> PersistentState option"
  cast :: "(NodeID \<times> u64 \<times> NodeID \<times> LogEntry list) set"
  won :: "u64 \<Rightarrow> (NodeID \<times> LogEntry list) option"
  tlog :: "u64 \<Rightarrow> LogEntry list"
  acks :: "(NodeID \<times> u64 \<times> nat) set"
  commits :: "(u64 \<times> nat) set"

text \<open>Each entry of a log agrees, with everything before it, with the log of the leader of its term.\<close>

definition good :: "history \<Rightarrow> LogEntry list \<Rightarrow> bool" where
  "good g l \<longleftrightarrow> l \<noteq> [] \<and> l ! 0 = sentinel \<and>
     (\<forall>n < length l. n < length (tlog g (eTerm (l ! n))) \<and> take (Suc n) l = take (Suc n) (tlog g (eTerm (l ! n))))"

text \<open>A log contains the entries of the leader of term \<open>t\<close> up to index \<open>n\<close>.\<close>

definition has :: "history \<Rightarrow> LogEntry list \<Rightarrow> u64 \<Rightarrow> nat \<Rightarrow> bool" where
  "has g l t n \<longleftrightarrow> n < length l \<and> take (Suc n) l = take (Suc n) (tlog g t)"

text \<open>Between \<open>t\<close> and \<open>u\<close> a leader was elected without these entries.\<close>

definition overruled :: "history \<Rightarrow> u64 \<Rightarrow> nat \<Rightarrow> u64 \<Rightarrow> bool" where
  "overruled g t n u \<longleftrightarrow> (\<exists>t' w l. t < t' \<and> t' \<le> u \<and> won g t' = Some (w, l) \<and> \<not> has g l t n)"

text \<open>The comparison of logs in the election restriction.\<close>

definition newer :: "LogEntry list \<Rightarrow> LogEntry list \<Rightarrow> bool" where
  "newer l l' \<longleftrightarrow> eTerm (last l) > eTerm (last l') \<or> eTerm (last l) = eTerm (last l') \<and> length l \<ge> length l'"

definition quorum :: "NodeID set \<Rightarrow> NodeID set \<Rightarrow> bool" where
  "quorum N Q \<longleftrightarrow> Q \<subseteq> N \<and> 2 * card Q > card N"

definition terms_ok :: "NodeID set \<Rightarrow> history \<Rightarrow> bool" where
  "terms_ok N g \<longleftrightarrow> tlog g 0 = [sentinel] \<and> won g 0 = None \<and>
     (\<forall>t. t \<noteq> 0 \<longrightarrow> won g t = None \<longrightarrow> tlog g t = []) \<and>
     (\<forall>t w l. won g t = Some (w, l) \<longrightarrow> w \<in> N \<and> good g l \<and> (\<forall>e \<in> set l. eTerm e < t) \<and>
        (\<exists>ext. tlog g t = l @ ext \<and> (\<forall>e \<in> set ext. eTerm e = t)))"

definition votes_ok :: "NodeID set \<Rightarrow> history \<Rightarrow> bool" where
  "votes_ok N g \<longleftrightarrow> (\<forall>j t cd vl. (j, t, cd, vl) \<in> cast g \<longrightarrow> cd \<in> N \<and> good g vl \<and>
     (\<forall>cd' vl'. (j, t, cd', vl') \<in> cast g \<longrightarrow> cd' = cd) \<and>
     (\<forall>s n. (j, s, n) \<in> acks g \<longrightarrow> s < t \<longrightarrow> has g vl s n \<or> overruled g s n t))"

definition wins_ok :: "NodeID set \<Rightarrow> history \<Rightarrow> bool" where
  "wins_ok N g \<longleftrightarrow> (\<forall>t w l. won g t = Some (w, l) \<longrightarrow> (\<exists>Q. quorum N Q \<and>
     (\<forall>j \<in> Q. \<exists>vl. (j, t, w, vl) \<in> cast g \<and> newer l vl \<and>
        (\<forall>s n. (j, s, n) \<in> acks g \<longrightarrow> s < t \<longrightarrow> has g vl s n \<or> (\<exists>u < t. overruled g s n u)))))"

definition acks_ok :: "history \<Rightarrow> bool" where
  "acks_ok g \<longleftrightarrow> (\<forall>j t n. (j, t, n) \<in> acks g \<longrightarrow> n < length (tlog g t) \<and> eTerm (tlog g t ! n) = t)"

definition commits_ok :: "NodeID set \<Rightarrow> history \<Rightarrow> bool" where
  "commits_ok N g \<longleftrightarrow> (\<forall>t n. (t, n) \<in> commits g \<longrightarrow> (\<exists>Q. quorum N Q \<and> (\<forall>j \<in> Q. (j, t, n) \<in> acks g)))"

definition hist_ok :: "NodeID set \<Rightarrow> history \<Rightarrow> bool" where
  "hist_ok N g \<longleftrightarrow> finite N \<and> terms_ok N g \<and> votes_ok N g \<and> wins_ok N g \<and> acks_ok g \<and> commits_ok N g"

section \<open>Consequences\<close>

lemma quorums_meet:
  assumes "finite N" "quorum N Q" "quorum N Q'"
  obtains j where "j \<in> Q" "j \<in> Q'" "j \<in> N"
proof -
  have "Q \<inter> Q' \<noteq> {}"
  proof
    assume "Q \<inter> Q' = {}"
    moreover have "finite Q" "finite Q'" using assms by (auto simp: quorum_def intro: finite_subset)
    ultimately have "card (Q \<union> Q') = card Q + card Q'" by (simp add: card_Un_disjoint)
    moreover have "card (Q \<union> Q') \<le> card N" using assms by (intro card_mono) (auto simp: quorum_def)
    ultimately show False using assms by (simp add: quorum_def)
  qed
  then show ?thesis using that assms by (auto simp: quorum_def)
qed

lemma won_term:
  assumes "terms_ok N g" "won g t = Some (w, l)"
  shows "t \<noteq> 0" "w \<in> N" "good g l" "\<forall>e \<in> set l. eTerm e < t" "prefix l (tlog g t)"
    "\<forall>e \<in> set (tlog g t). eTerm e \<le> t" "\<And>n. length l \<le> n \<Longrightarrow> n < length (tlog g t) \<Longrightarrow> eTerm (tlog g t ! n) = t"
proof -
  show t: "t \<noteq> 0" using assms by (auto simp: terms_ok_def)
  then obtain ext where e: "w \<in> N" "good g l" "\<forall>e \<in> set l. eTerm e < t" "tlog g t = l @ ext" "\<forall>e \<in> set ext. eTerm e = t"
    using assms unfolding terms_ok_def by blast
  then show "w \<in> N" "good g l" "\<forall>e \<in> set l. eTerm e < t" "prefix l (tlog g t)" "\<forall>e \<in> set (tlog g t). eTerm e \<le> t"
    by (auto simp: less_imp_le)
  show "eTerm (tlog g t ! n) = t" if "length l \<le> n" "n < length (tlog g t)" for n
    using e that by (auto simp: nth_append)
qed

lemma term_bound:
  assumes "terms_ok N g" "e \<in> set (tlog g t)"
  shows "eTerm e \<le> t"
proof (cases "won g t")
  case None
  then show ?thesis using assms by (cases "t = 0") (auto simp: terms_ok_def sentinel_def)
next
  case (Some x)
  then show ?thesis using won_term(6) [OF assms(1), of t "fst x" "snd x"] assms(2) by simp
qed

lemma tlog_won:
  assumes "terms_ok N g" "tlog g t \<noteq> []" "t \<noteq> 0"
  obtains w l where "won g t = Some (w, l)"
  using assms by (cases "won g t") (auto simp: terms_ok_def)

lemma good_last:
  assumes "good g l"
  shows "l = take (length l) (tlog g (eTerm (last l)))" "length l \<le> length (tlog g (eTerm (last l)))"
proof -
  have n: "length l - 1 < length l" "Suc (length l - 1) = length l" and "l \<noteq> []" using assms by (auto simp: good_def)
  then have "last l = l ! (length l - 1)" by (simp add: last_conv_nth)
  then show "l = take (length l) (tlog g (eTerm (last l)))" "length l \<le> length (tlog g (eTerm (last l)))"
    using assms n unfolding good_def by (metis order_refl take_all, metis Suc_leI)
qed

lemma good_sorted:
  assumes t: "terms_ok N g" and l: "good g l" and "m \<le> n" "n < length l"
  shows "eTerm (l ! m) \<le> eTerm (l ! n)"
proof -
  have "take (Suc n) l = take (Suc n) (tlog g (eTerm (l ! n)))" "n < length (tlog g (eTerm (l ! n)))"
    using l assms(4) by (auto simp: good_def)
  then have "l ! m = tlog g (eTerm (l ! n)) ! m" "m < length (tlog g (eTerm (l ! n)))"
    using assms(3,4) by (metis le_imp_less_Suc nth_take, simp)
  then show ?thesis using term_bound [OF t, of "l ! m"] by simp
qed

lemma has_nth: "has g l t n \<Longrightarrow> m \<le> n \<Longrightarrow> n < length (tlog g t) \<Longrightarrow> l ! m = tlog g t ! m"
  unfolding has_def by (metis le_imp_less_Suc nth_take)

lemma has_prefix: "prefix l l' \<Longrightarrow> has g l t n \<Longrightarrow> has g l' t n"
  by (auto simp: has_def prefix_def)

text \<open>Log matching: two good logs with the same term at an index agree up to that index.\<close>

lemma good_match:
  assumes "good g l" "good g l'" "n < length l" "n < length l'" "eTerm (l ! n) = eTerm (l' ! n)"
  shows "take (Suc n) l = take (Suc n) l'"
  using assms by (auto simp: good_def)

lemma good_prefix:
  assumes "good g l'" "prefix l l'" "l \<noteq> []"
  shows "good g l"
  unfolding good_def
proof (intro conjI allI impI)
  have take: "take k l = take k l'" if "k \<le> length l" for k
    using assms(2) that by (auto simp: prefix_def)
  have nth: "l ! n = l' ! n" "n < length l'" if "n < length l" for n
    using assms(2) that by (auto simp: prefix_def nth_append)
  show "l \<noteq> []" using assms(3) .
  then show "l ! 0 = sentinel" using nth [of 0] assms(1) by (simp add: good_def)
  fix n assume n: "n < length l"
  show "n < length (tlog g (eTerm (l ! n)))" "take (Suc n) l = take (Suc n) (tlog g (eTerm (l ! n)))"
    using assms(1) nth [OF n] take [of "Suc n"] n by (auto simp: good_def)
qed

text \<open>A good log extended in the term of the leader it belongs to.\<close>

lemma good_tlog:
  assumes t: "terms_ok N g" and "tlog g t \<noteq> []"
  shows "good g (tlog g t)"
proof (cases "t = 0")
  case True
  then show ?thesis using t by (simp add: good_def terms_ok_def sentinel_def)
next
  case False
  then obtain w l where w: "won g t = Some (w, l)" using tlog_won [OF assms] by blast
  note W = won_term [OF t w]
  have l: "l \<noteq> []" "l ! 0 = sentinel" using W(3) by (auto simp: good_def)
  have nth: "tlog g t ! n = l ! n" "take (Suc n) (tlog g t) = take (Suc n) l" if "n < length l" for n
    using W(5) that by (auto simp: prefix_def nth_append)
  show ?thesis unfolding good_def
  proof (intro conjI allI impI)
    show "tlog g t \<noteq> []" "tlog g t ! 0 = sentinel" using assms(2) l nth(1) [of 0] by auto
    fix n assume n: "n < length (tlog g t)"
    show "n < length (tlog g (eTerm (tlog g t ! n)))" "take (Suc n) (tlog g t) = take (Suc n) (tlog g (eTerm (tlog g t ! n)))"
      using n W(3) nth [of n] W(7) [of n] by (cases "n < length l"; auto simp: good_def)+
  qed
qed

section \<open>Leader completeness\<close>

text \<open>The newer of two logs has what the other one has, if every leader in between has it.\<close>

lemma newer_has:
  assumes t: "terms_ok N g" and l: "good g l" and vl: "good g vl" and nw: "newer l vl" and h: "has g vl t n"
    and tn: "n < length (tlog g t)" "eTerm (tlog g t ! n) = t"
    and below: "\<And>e. e \<in> set l \<Longrightarrow> eTerm e < u"
    and IH: "\<And>t' w' l'. t < t' \<Longrightarrow> t' < u \<Longrightarrow> won g t' = Some (w', l') \<Longrightarrow> has g l' t n"
  shows "has g l t n"
proof -
  let ?s = "eTerm (last l)"
  have ne: "l \<noteq> []" "vl \<noteq> []" using l vl by (auto simp: good_def)
  have n: "n < length vl" "vl ! n = tlog g t ! n" using h tn(1) has_nth [OF h, of n] by (auto simp: has_def)
  have "t \<le> eTerm (last vl)"
    using good_sorted [OF t vl, of n "length vl - 1"] n tn(2) ne by (simp add: last_conv_nth)
  from nw consider "?s = eTerm (last vl)" "length vl \<le> length l" | "t < ?s"
    using \<open>t \<le> eTerm (last vl)\<close> by (auto simp: newer_def)
  then show ?thesis
  proof cases
    case 1
    have "take (length vl) l = take (length vl) (take (length l) (tlog g ?s))" using good_last(1) [OF l] by simp
    also have "\<dots> = vl" using good_last(1) [OF vl] 1 by simp
    finally have "prefix vl l" by (metis take_is_prefix)
    then show ?thesis using h by (rule has_prefix)
  next
    case 2
    have su: "?s < u" using below ne by simp
    have "?s \<noteq> 0" using 2 by auto
    moreover have "tlog g ?s \<noteq> []" using good_last(2) [OF l] ne by auto
    ultimately obtain w' l' where w: "won g ?s = Some (w', l')" using tlog_won [OF t] by blast
    have "has g (tlog g ?s) t n"
      using IH [OF 2 su w] won_term(5) [OF t w] by (rule has_prefix [rotated])
    then have eq: "take (Suc n) (tlog g ?s) = take (Suc n) (tlog g t)" by (simp add: has_def)
    have "n < length l"
    proof (rule ccontr)
      assume "\<not> n < length l"
      then have m: "length l - 1 \<le> n" "length l - 1 < length l" using ne by auto
      then have "last l = tlog g ?s ! (length l - 1)"
        using good_last(1) [OF l] ne by (metis last_conv_nth nth_take)
      also have "\<dots> = tlog g t ! (length l - 1)" using eq m by (metis le_imp_less_Suc nth_take)
      finally have "last l \<in> set (tlog g t)" using m tn(1) by simp
      then show False using term_bound [OF t] 2 by fastforce
    qed
    moreover from this have "take (Suc n) l = take (Suc n) (tlog g ?s)"
      using good_last(1) [OF l] by (metis Suc_leI min.absorb1 take_take)
    ultimately show ?thesis using eq by (simp add: has_def)
  qed
qed

theorem leader_complete:
  assumes ok: "hist_ok N g" and c: "(t, n) \<in> commits g" and "won g u = Some (w, l)" "t < u"
  shows "has g l t n"
  using assms(3,4)
proof (induction u arbitrary: w l rule: less_induct)
  case (less u)
  have T: "terms_ok N g" and fin: "finite N" using ok by (auto simp: hist_ok_def)
  obtain Q where Q: "quorum N Q" "\<And>j. j \<in> Q \<Longrightarrow> (j, t, n) \<in> acks g"
    using ok c unfolding hist_ok_def commits_ok_def by blast
  obtain Q' where Q': "quorum N Q'" "\<And>j. j \<in> Q' \<Longrightarrow> \<exists>vl. (j, u, w, vl) \<in> cast g \<and> newer l vl \<and>
      (\<forall>s n. (j, s, n) \<in> acks g \<longrightarrow> s < u \<longrightarrow> has g vl s n \<or> (\<exists>u' < u. overruled g s n u'))"
    using ok less.prems(1) unfolding hist_ok_def wins_ok_def by blast
  obtain j where j: "j \<in> Q" "j \<in> Q'" using quorums_meet [OF fin Q(1) Q'(1)] by blast
  then obtain vl where vl: "(j, u, w, vl) \<in> cast g" "newer l vl"
    and h: "has g vl t n \<or> (\<exists>u' < u. overruled g t n u')" using Q'(2) Q(2) less.prems(2) by blast
  have IH: "has g l' t n" if "t < t'" "t' < u" "won g t' = Some (w', l')" for t' w' l'
    using less.IH that by blast
  then have "has g vl t n" using h by (auto simp: overruled_def)
  moreover have "good g vl" using ok vl(1) unfolding hist_ok_def votes_ok_def by blast
  moreover have "n < length (tlog g t)" "eTerm (tlog g t ! n) = t"
    using ok Q(2) [OF j(1)] unfolding hist_ok_def acks_ok_def by blast+
  ultimately show ?case
    using newer_has [OF T won_term(3) [OF T less.prems(1)], of vl t n u] vl(2) won_term(4) [OF T less.prems(1)] IH by blast
qed

text \<open>So the logs of the leaders of later terms contain what is committed, and committed entries never differ.\<close>

lemma tlog_complete:
  assumes "hist_ok N g" "(t, n) \<in> commits g" "won g u = Some (w, l)" "t \<le> u"
  shows "has g (tlog g u) t n"
proof (cases "t = u")
  case True
  have "acks_ok g" "\<exists>Q. quorum N Q \<and> (\<forall>j \<in> Q. (j, t, n) \<in> acks g)" "finite N"
    using assms(1,2) unfolding hist_ok_def commits_ok_def by blast+
  then have "n < length (tlog g t)" using quorums_meet [of N] unfolding acks_ok_def by metis
  then show ?thesis using True by (simp add: has_def)
next
  case False
  have "terms_ok N g" using assms(1) by (simp add: hist_ok_def)
  then show ?thesis
    using leader_complete [OF assms(1-3)] has_prefix [OF won_term(5) [OF _ assms(3)]] False assms(4) by simp
qed

lemma commit_acked:
  assumes "hist_ok N g" "(t, n) \<in> commits g"
  obtains j where "(j, t, n) \<in> acks g" "j \<in> N" "n < length (tlog g t)" "eTerm (tlog g t ! n) = t"
proof -
  obtain Q where Q: "quorum N Q" "\<forall>j \<in> Q. (j, t, n) \<in> acks g"
    using assms unfolding hist_ok_def commits_ok_def by blast
  moreover obtain j where "j \<in> Q" "j \<in> N" using quorums_meet [OF _ Q(1) Q(1)] assms(1) by (auto simp: hist_ok_def)
  ultimately show ?thesis using that assms(1) unfolding hist_ok_def acks_ok_def by blast
qed

lemma commits_agree_le:
  assumes ok: "hist_ok N g" and c: "(t, n) \<in> commits g" "(t', n') \<in> commits g" and le: "t \<le> t'" "m \<le> n" "m \<le> n'"
  shows "tlog g t ! m = tlog g t' ! m"
proof (cases "t = t'")
  case False
  have T: "terms_ok N g" using ok by (simp add: hist_ok_def)
  obtain j where "n' < length (tlog g t')" using commit_acked [OF ok c(2)] by blast
  moreover have "t' \<noteq> 0" using False le(1) by auto
  ultimately obtain w l where w: "won g t' = Some (w, l)" using tlog_won [OF T, of t'] by fastforce
  have "n < length (tlog g t)" using commit_acked [OF ok c(1)] by blast
  then show ?thesis
    using has_nth [OF tlog_complete [OF ok c(1) w le(1)] le(2)] by simp
qed simp

lemma commits_agree:
  assumes "hist_ok N g" "(t, n) \<in> commits g" "(t', n') \<in> commits g" "m \<le> n" "m \<le> n'"
  shows "tlog g t ! m = tlog g t' ! m"
  using commits_agree_le [OF assms(1-3) _ assms(4,5)] commits_agree_le [OF assms(1,3,2) _ assms(5,4)] by (metis linear)

end
