(* ===== verification/Raft_Steps.thy ===== *)
theory Raft_Steps
  imports Raft_History
begin

text \<open>
  How a history grows while the cluster runs, and what it says about a single node. \<open>grows i\<close> relates the
  histories before and after an action of node \<open>i\<close>; \<open>node_ok\<close> is the invariant of a node. The lemmas show
  that each kind of growth keeps \<open>hist_ok\<close>, and that it keeps \<open>node_ok\<close> of every other node.
\<close>

section \<open>Growth\<close>

definition view :: "PersistentState option \<Rightarrow> PersistentState" where
  "view x = (case x of None \<Rightarrow> \<lparr>CurrentTerm = 0, VotedFor = NoNode, Log = [sentinel]\<rparr> | Some p \<Rightarrow> p)"

lemma view_Some [simp]: "view (Some p) = p"
  by (simp add: view_def)

definition dterm :: "history \<Rightarrow> NodeID \<Rightarrow> u64" where
  "dterm g i = CurrentTerm (view (disk g i))"

definition grows :: "NodeID \<Rightarrow> history \<Rightarrow> history \<Rightarrow> bool" where
  "grows i g g' \<longleftrightarrow> (\<forall>j. j \<noteq> i \<longrightarrow> disk g' j = disk g j) \<and> dterm g i \<le> dterm g' i \<and>
     cast g \<subseteq> cast g' \<and> (\<forall>j t cd vl. (j, t, cd, vl) \<in> cast g' \<longrightarrow> j \<noteq> i \<longrightarrow> (j, t, cd, vl) \<in> cast g) \<and>
     (\<forall>t x. won g t = Some x \<longrightarrow> won g' t = Some x) \<and> (\<forall>t w l. won g' t = Some (w, l) \<longrightarrow> w \<noteq> i \<longrightarrow> won g t = Some (w, l)) \<and>
     (\<forall>t. prefix (tlog g t) (tlog g' t)) \<and> (\<forall>t w l. won g' t = Some (w, l) \<longrightarrow> w \<noteq> i \<longrightarrow> tlog g' t = tlog g t) \<and>
     acks g \<subseteq> acks g' \<and> (\<forall>j t n. (j, t, n) \<in> acks g' \<longrightarrow> j \<noteq> i \<longrightarrow> (j, t, n) \<in> acks g) \<and>
     commits g \<subseteq> commits g'"

lemma grows_refl: "grows i g g"
  by (simp add: grows_def)

lemma growsD:
  assumes "grows i g g'"
  shows "\<And>j. j \<noteq> i \<Longrightarrow> disk g' j = disk g j" "dterm g i \<le> dterm g' i" "cast g \<subseteq> cast g'"
    "\<And>j t cd vl. (j, t, cd, vl) \<in> cast g' \<Longrightarrow> j \<noteq> i \<Longrightarrow> (j, t, cd, vl) \<in> cast g"
    "\<And>t x. won g t = Some x \<Longrightarrow> won g' t = Some x"
    "\<And>t w l. won g' t = Some (w, l) \<Longrightarrow> w \<noteq> i \<Longrightarrow> won g t = Some (w, l)"
    "\<And>t. prefix (tlog g t) (tlog g' t)"
    "\<And>t w l. won g' t = Some (w, l) \<Longrightarrow> w \<noteq> i \<Longrightarrow> tlog g' t = tlog g t"
    "acks g \<subseteq> acks g'" "\<And>j t n. (j, t, n) \<in> acks g' \<Longrightarrow> j \<noteq> i \<Longrightarrow> (j, t, n) \<in> acks g"
    "commits g \<subseteq> commits g'"
  using assms unfolding grows_def by blast+

lemma grows_trans:
  assumes a: "grows i g g'" and b: "grows i g' g''"
  shows "grows i g g''"
  unfolding grows_def
proof (intro conjI allI impI)
  show "dterm g i \<le> dterm g'' i" using growsD(2) [OF a] growsD(2) [OF b] by (rule order_trans)
  show "prefix (tlog g t) (tlog g'' t)" for t
    using growsD(7) [OF a, of t] growsD(7) [OF b, of t] by (rule prefix_order.trans)
  show "tlog g'' t = tlog g t" if "won g'' t = Some (w, l)" "w \<noteq> i" for t w l
    using growsD(8) [OF b that] growsD(8) [OF a growsD(6) [OF b that] that(2)] by simp
  show "cast g \<subseteq> cast g''" "acks g \<subseteq> acks g''" "commits g \<subseteq> commits g''"
    using growsD(3,9,11) [OF a] growsD(3,9,11) [OF b] by blast+
  show "disk g'' j = disk g j" if "j \<noteq> i" for j using growsD(1) [OF a that] growsD(1) [OF b that] by simp
  show "(j, t, cd, vl) \<in> cast g" if "(j, t, cd, vl) \<in> cast g''" "j \<noteq> i" for j t cd vl
    using growsD(4) [OF a growsD(4) [OF b that] that(2)] .
  show "won g'' t = Some x" if "won g t = Some x" for t x using growsD(5) [OF b growsD(5) [OF a that]] .
  show "won g t = Some (w, l)" if "won g'' t = Some (w, l)" "w \<noteq> i" for t w l
    using growsD(6) [OF a growsD(6) [OF b that] that(2)] .
  show "(j, t, n) \<in> acks g" if "(j, t, n) \<in> acks g''" "j \<noteq> i" for j t n
    using growsD(10) [OF a growsD(10) [OF b that] that(2)] .
qed

lemma grows_dterm: "grows i g g' \<Longrightarrow> dterm g j \<le> dterm g' j"
  using growsD(1) [of i g g' j] growsD(2) [of i g g'] by (cases "j = i") (simp_all add: dterm_def)

lemma tlog_take:
  assumes "prefix (tlog g t) (tlog g' t)" "n < length (tlog g t)"
  shows "take (Suc n) (tlog g' t) = take (Suc n) (tlog g t)" "n < length (tlog g' t)" "tlog g' t ! n = tlog g t ! n"
  using assms by (auto simp: prefix_def nth_append)

lemma good_mono:
  assumes "\<And>t. prefix (tlog g t) (tlog g' t)" "good g l"
  shows "good g' l"
  using assms tlog_take [OF assms(1)] by (simp add: good_def)

lemma has_mono:
  assumes "prefix (tlog g t) (tlog g' t)" "n < length (tlog g t)"
  shows "has g' l t n \<longleftrightarrow> has g l t n"
  using tlog_take [OF assms] by (simp add: has_def)

lemma overruled_mono:
  assumes "prefix (tlog g t) (tlog g' t)" "n < length (tlog g t)" "\<And>t x. won g t = Some x \<Longrightarrow> won g' t = Some x"
    "overruled g t n u" "u \<le> u'"
  shows "overruled g' t n u'"
  using assms(3,4) order_trans [OF _ assms(5)] unfolding overruled_def has_mono [OF assms(1,2)] by meson

section \<open>The histories of single steps\<close>

lemma hist_disk [simp]:
  "good (g\<lparr>disk := d\<rparr>) = good g" "has (g\<lparr>disk := d\<rparr>) = has g" "overruled (g\<lparr>disk := d\<rparr>) = overruled g"
  "hist_ok N (g\<lparr>disk := d\<rparr>) = hist_ok N g"
  by (auto simp: good_def has_def overruled_def fun_eq_iff hist_ok_def terms_ok_def votes_ok_def wins_ok_def acks_ok_def commits_ok_def)

lemma hist_cast [simp]:
  "good (g\<lparr>cast := d\<rparr>) = good g" "has (g\<lparr>cast := d\<rparr>) = has g" "overruled (g\<lparr>cast := d\<rparr>) = overruled g"
  "dterm (g\<lparr>cast := d\<rparr>) = dterm g"
  by (auto simp: good_def has_def overruled_def fun_eq_iff dterm_def)

lemma hist_acks [simp]:
  "good (g\<lparr>acks := d\<rparr>) = good g" "has (g\<lparr>acks := d\<rparr>) = has g" "overruled (g\<lparr>acks := d\<rparr>) = overruled g"
  "dterm (g\<lparr>acks := d\<rparr>) = dterm g"
  by (auto simp: good_def has_def overruled_def fun_eq_iff dterm_def)

lemma hist_commits [simp]:
  "good (g\<lparr>commits := d\<rparr>) = good g" "has (g\<lparr>commits := d\<rparr>) = has g" "overruled (g\<lparr>commits := d\<rparr>) = overruled g"
  "dterm (g\<lparr>commits := d\<rparr>) = dterm g"
  by (auto simp: good_def has_def overruled_def fun_eq_iff dterm_def)

text \<open>A vote.\<close>

lemma hist_ok_cast:
  assumes ok: "hist_ok N g" and "cd \<in> N" "good g vl"
    and uniq: "\<And>cd' vl'. (j, t, cd', vl') \<in> cast g \<Longrightarrow> cd' = cd"
    and kept: "\<And>s n. (j, s, n) \<in> acks g \<Longrightarrow> s < t \<Longrightarrow> has g vl s n \<or> overruled g s n t"
  shows "hist_ok N (g\<lparr>cast := insert (j, t, cd, vl) (cast g)\<rparr>)"
proof -
  have "votes_ok N (g\<lparr>cast := insert (j, t, cd, vl) (cast g)\<rparr>)"
    unfolding votes_ok_def
  proof (intro allI impI)
    fix j' u cd0 vl0 assume v: "(j', u, cd0, vl0) \<in> cast (g\<lparr>cast := insert (j, t, cd, vl) (cast g)\<rparr>)"
    have V: "cd1 \<in> N \<and> good g vl1 \<and> (\<forall>cd' vl'. (j1, u1, cd', vl') \<in> cast g \<longrightarrow> cd' = cd1) \<and>
        (\<forall>s n. (j1, s, n) \<in> acks g \<longrightarrow> s < u1 \<longrightarrow> has g vl1 s n \<or> overruled g s n u1)"
      if "(j1, u1, cd1, vl1) \<in> cast g" for j1 u1 cd1 vl1
      using ok that unfolding hist_ok_def votes_ok_def by blast
    show "cd0 \<in> N \<and> good (g\<lparr>cast := insert (j, t, cd, vl) (cast g)\<rparr>) vl0 \<and>
        (\<forall>cd' vl'. (j', u, cd', vl') \<in> cast (g\<lparr>cast := insert (j, t, cd, vl) (cast g)\<rparr>) \<longrightarrow> cd' = cd0) \<and>
        (\<forall>s n. (j', s, n) \<in> acks (g\<lparr>cast := insert (j, t, cd, vl) (cast g)\<rparr>) \<longrightarrow> s < u \<longrightarrow>
           has (g\<lparr>cast := insert (j, t, cd, vl) (cast g)\<rparr>) vl0 s n \<or> overruled (g\<lparr>cast := insert (j, t, cd, vl) (cast g)\<rparr>) s n u)"
    proof (cases "(j', u, cd0, vl0) \<in> cast g")
      case True
      then show ?thesis using V [OF True] uniq [of cd0 vl0] by (simp) blast
    next
      case False
      then have "j' = j" "u = t" "cd0 = cd" "vl0 = vl" using v by auto
      then show ?thesis using assms(2,3) uniq kept by auto
    qed
  qed
  moreover have "wins_ok N (g\<lparr>cast := insert (j, t, cd, vl) (cast g)\<rparr>)"
    using ok unfolding hist_ok_def wins_ok_def by simp meson
  ultimately show ?thesis
    using ok by (simp add: hist_ok_def terms_ok_def acks_ok_def commits_ok_def)
qed

text \<open>Acknowledgements, of a node that has not voted in a later term.\<close>

lemma hist_ok_acks:
  assumes ok: "hist_ok N g"
    and new: "\<And>n. n \<in> M \<Longrightarrow> n < length (tlog g t) \<and> eTerm (tlog g t ! n) = t"
    and low: "\<And>u cd vl. (j, u, cd, vl) \<in> cast g \<Longrightarrow> u \<le> t"
  shows "hist_ok N (g\<lparr>acks := acks g \<union> {(j, t, n) |n. n \<in> M}\<rparr>)" (is "hist_ok N ?g")
proof -
  have old: "(j', s, n) \<in> acks g" if "(j', s, n) \<in> acks ?g" "s < u" "(j', u, cd, vl) \<in> cast g" for j' s n u cd vl
    using that low by fastforce
  have "votes_ok N ?g" unfolding votes_ok_def
  proof (intro allI impI)
    fix j' u cd vl assume v: "(j', u, cd, vl) \<in> cast ?g"
    then show "cd \<in> N \<and> good ?g vl \<and> (\<forall>cd' vl'. (j', u, cd', vl') \<in> cast ?g \<longrightarrow> cd' = cd) \<and>
        (\<forall>s n. (j', s, n) \<in> acks ?g \<longrightarrow> s < u \<longrightarrow> has ?g vl s n \<or> overruled ?g s n u)"
      using ok old unfolding hist_ok_def votes_ok_def by simp blast
  qed
  moreover have "wins_ok N ?g" unfolding wins_ok_def
  proof (intro allI impI)
    fix u w l assume "won ?g u = Some (w, l)"
    then obtain Q where Q: "quorum N Q" "\<forall>j \<in> Q. \<exists>vl. (j, u, w, vl) \<in> cast g \<and> newer l vl \<and>
        (\<forall>s n. (j, s, n) \<in> acks g \<longrightarrow> s < u \<longrightarrow> has g vl s n \<or> (\<exists>u' < u. overruled g s n u'))"
      using ok unfolding hist_ok_def wins_ok_def by fastforce
    have "\<forall>j \<in> Q. \<exists>vl. (j, u, w, vl) \<in> cast ?g \<and> newer l vl \<and>
        (\<forall>s n. (j, s, n) \<in> acks ?g \<longrightarrow> s < u \<longrightarrow> has ?g vl s n \<or> (\<exists>u' < u. overruled ?g s n u'))"
    proof
      fix j' assume "j' \<in> Q"
      then obtain vl where v: "(j', u, w, vl) \<in> cast g" "newer l vl"
        "\<And>s n. (j', s, n) \<in> acks g \<Longrightarrow> s < u \<Longrightarrow> has g vl s n \<or> (\<exists>u' < u. overruled g s n u')" using Q(2) by blast
      have "has g vl s n \<or> (\<exists>u' < u. overruled g s n u')" if "(j', s, n) \<in> acks ?g" "s < u" for s n
        using v(3) [OF old [OF that v(1)] that(2)] .
      then show "\<exists>vl. (j', u, w, vl) \<in> cast ?g \<and> newer l vl \<and>
          (\<forall>s n. (j', s, n) \<in> acks ?g \<longrightarrow> s < u \<longrightarrow> has ?g vl s n \<or> (\<exists>u' < u. overruled ?g s n u'))"
        using v(1,2) by (intro exI [of _ vl]) simp
    qed
    then show "\<exists>Q. quorum N Q \<and> (\<forall>j \<in> Q. \<exists>vl. (j, u, w, vl) \<in> cast ?g \<and> newer l vl \<and>
        (\<forall>s n. (j, s, n) \<in> acks ?g \<longrightarrow> s < u \<longrightarrow> has ?g vl s n \<or> (\<exists>u' < u. overruled ?g s n u')))" using Q(1) by blast
  qed
  moreover have "acks_ok ?g" using ok new by (auto simp: hist_ok_def acks_ok_def)
  moreover have "commits_ok N ?g" using ok unfolding hist_ok_def commits_ok_def by simp blast
  ultimately show ?thesis using ok by (simp add: hist_ok_def terms_ok_def)
qed

lemma hist_ok_commit:
  assumes ok: "hist_ok N g" and "quorum N Q" "\<And>j. j \<in> Q \<Longrightarrow> (j, t, n) \<in> acks g"
  shows "hist_ok N (g\<lparr>commits := insert (t, n) (commits g)\<rparr>)"
proof -
  have "commits_ok N (g\<lparr>commits := insert (t, n) (commits g)\<rparr>)"
    using assms unfolding hist_ok_def commits_ok_def by auto
  moreover have "wins_ok N (g\<lparr>commits := insert (t, n) (commits g)\<rparr>)" "votes_ok N (g\<lparr>commits := insert (t, n) (commits g)\<rparr>)"
    using ok by (simp_all add: hist_ok_def wins_ok_def votes_ok_def)
  ultimately show ?thesis using ok by (simp add: hist_ok_def terms_ok_def acks_ok_def)
qed

text \<open>When the logs of leaders grow and elections are won, the parts about votes, acknowledgements and commits stay.\<close>

lemma hist_ok_extend:
  assumes ok: "hist_ok N g" and T: "terms_ok N g'" and p: "\<And>t. prefix (tlog g t) (tlog g' t)"
    and w: "\<And>t x. won g t = Some x \<Longrightarrow> won g' t = Some x"
    and same: "cast g' = cast g" "acks g' = acks g" "commits g' = commits g"
    and new: "\<And>t w l. won g' t = Some (w, l) \<Longrightarrow> won g t \<noteq> Some (w, l) \<Longrightarrow> \<exists>Q. quorum N Q \<and>
       (\<forall>j \<in> Q. \<exists>vl. (j, t, w, vl) \<in> cast g \<and> newer l vl \<and>
          (\<forall>s n. (j, s, n) \<in> acks g \<longrightarrow> s < t \<longrightarrow> has g vl s n \<or> (\<exists>u < t. overruled g s n u)))"
  shows "hist_ok N g'"
proof -
  have A: "n < length (tlog g t)" "eTerm (tlog g t ! n) = t" if "(j, t, n) \<in> acks g" for j t n
    using ok that unfolding hist_ok_def acks_ok_def by blast+
  have h: "has g' vl s n = has g vl s n" "overruled g s n u \<Longrightarrow> overruled g' s n u" if "(j, s, n) \<in> acks g" for j s n vl u
    using has_mono [OF p A(1) [OF that]] overruled_mono [OF p A(1) [OF that] w, of u u] by auto
  have gd: "good g l \<Longrightarrow> good g' l" for l using good_mono [OF p] .
  have acks: "acks_ok g'" using A tlog_take [OF p A(1)] unfolding acks_ok_def same by metis
  have votes: "votes_ok N g'"
    unfolding votes_ok_def same
  proof (intro allI impI)
    fix j t cd vl assume "(j, t, cd, vl) \<in> cast g"
    then have v: "cd \<in> N \<and> good g vl \<and> (\<forall>cd' vl'. (j, t, cd', vl') \<in> cast g \<longrightarrow> cd' = cd) \<and>
        (\<forall>s n. (j, s, n) \<in> acks g \<longrightarrow> s < t \<longrightarrow> has g vl s n \<or> overruled g s n t)"
      using ok unfolding hist_ok_def votes_ok_def by blast
    then show "cd \<in> N \<and> good g' vl \<and> (\<forall>cd' vl'. (j, t, cd', vl') \<in> cast g \<longrightarrow> cd' = cd) \<and>
        (\<forall>s n. (j, s, n) \<in> acks g \<longrightarrow> s < t \<longrightarrow> has g' vl s n \<or> overruled g' s n t)"
      using gd h by blast
  qed
  have "wins_ok N g'" unfolding wins_ok_def same
  proof (intro allI impI)
    fix t w l assume "won g' t = Some (w, l)"
    then obtain Q where Q: "quorum N Q" "\<forall>j \<in> Q. \<exists>vl. (j, t, w, vl) \<in> cast g \<and> newer l vl \<and>
          (\<forall>s n. (j, s, n) \<in> acks g \<longrightarrow> s < t \<longrightarrow> has g vl s n \<or> (\<exists>u < t. overruled g s n u))"
      using ok new [of t w l] unfolding hist_ok_def wins_ok_def by (cases "won g t = Some (w, l)") blast+
    have "\<forall>j \<in> Q. \<exists>vl. (j, t, w, vl) \<in> cast g \<and> newer l vl \<and>
          (\<forall>s n. (j, s, n) \<in> acks g \<longrightarrow> s < t \<longrightarrow> has g' vl s n \<or> (\<exists>u < t. overruled g' s n u))"
    proof
      fix j assume "j \<in> Q"
      then obtain vl where v: "(j, t, w, vl) \<in> cast g" "newer l vl"
        "\<And>s n. (j, s, n) \<in> acks g \<Longrightarrow> s < t \<Longrightarrow> has g vl s n \<or> (\<exists>u < t. overruled g s n u)" using Q(2) by blast
      have "has g' vl s n \<or> (\<exists>u < t. overruled g' s n u)" if "(j, s, n) \<in> acks g" "s < t" for s n
        using v(3) [OF that] h [OF that(1)] by auto
      then show "\<exists>vl. (j, t, w, vl) \<in> cast g \<and> newer l vl \<and>
          (\<forall>s n. (j, s, n) \<in> acks g \<longrightarrow> s < t \<longrightarrow> has g' vl s n \<or> (\<exists>u < t. overruled g' s n u))"
        using v(1,2) by blast
    qed
    then show "\<exists>Q. quorum N Q \<and> (\<forall>j \<in> Q. \<exists>vl. (j, t, w, vl) \<in> cast g \<and> newer l vl \<and>
          (\<forall>s n. (j, s, n) \<in> acks g \<longrightarrow> s < t \<longrightarrow> has g' vl s n \<or> (\<exists>u < t. overruled g' s n u)))"
      using Q(1) by blast
  qed
  then show ?thesis
    using ok T votes acks by (simp add: hist_ok_def commits_ok_def same)
qed

text \<open>An election is won.\<close>

definition win :: "u64 \<Rightarrow> NodeID \<Rightarrow> LogEntry list \<Rightarrow> history \<Rightarrow> history" where
  "win t i l g = g\<lparr>won := (won g)(t \<mapsto> (i, l)), tlog := (tlog g)(t := l)\<rparr>"

lemma win_tlog:
  assumes "terms_ok N g" "won g t = None" "t \<noteq> 0"
  shows "prefix (tlog g u) (tlog (win t i l g) u)"
  using assms by (auto simp: win_def terms_ok_def)

lemma win_terms_ok:
  assumes T: "terms_ok N g" and t: "won g t = None" "t \<noteq> 0" and l: "i \<in> N" "good g l" "\<forall>e \<in> set l. eTerm e < t"
  shows "terms_ok N (win t i l g)"
  unfolding terms_ok_def
proof (intro conjI allI impI)
  note gd = good_mono [OF win_tlog [OF T t]]
  show "tlog (win t i l g) 0 = [sentinel]" "won (win t i l g) 0 = None" using T t(2) by (auto simp: terms_ok_def win_def)
  show "tlog (win t i l g) u = []" if "u \<noteq> 0" "won (win t i l g) u = None" for u
    using T that by (auto simp: terms_ok_def win_def split: if_splits)
  fix u w l' assume w: "won (win t i l g) u = Some (w, l')"
  have "w \<in> N \<and> good g l' \<and> (\<forall>e \<in> set l'. eTerm e < u) \<and> (\<exists>ext. tlog (win t i l g) u = l' @ ext \<and> (\<forall>e \<in> set ext. eTerm e = u))"
  proof (cases "u = t")
    case True
    then show ?thesis using w l by (auto simp: win_def)
  next
    case False
    then have "won g u = Some (w, l')" "tlog (win t i l g) u = tlog g u" using w by (auto simp: win_def)
    then show ?thesis using T unfolding terms_ok_def by metis
  qed
  then show "w \<in> N" "good (win t i l g) l'" "\<forall>e \<in> set l'. eTerm e < u"
    "\<exists>ext. tlog (win t i l g) u = l' @ ext \<and> (\<forall>e \<in> set ext. eTerm e = u)" using gd by blast+
qed

text \<open>A leader extends its log.\<close>

definition extend_term :: "u64 \<Rightarrow> LogEntry \<Rightarrow> history \<Rightarrow> history" where
  "extend_term t e g = g\<lparr>tlog := (tlog g)(t := tlog g t @ [e])\<rparr>"

lemma extend_term_tlog: "prefix (tlog g u) (tlog (extend_term t e g) u)"
  by (simp add: extend_term_def)

lemma extend_term_ok:
  assumes ok: "hist_ok N g" and t: "won g t = Some (w, l)" "eTerm e = t"
  shows "hist_ok N (extend_term t e g)"
proof (rule hist_ok_extend [OF ok _ extend_term_tlog])
  have T: "terms_ok N g" using ok by (simp add: hist_ok_def)
  show "terms_ok N (extend_term t e g)"
    unfolding terms_ok_def
  proof (intro conjI allI impI)
    show "tlog (extend_term t e g) 0 = [sentinel]" "won (extend_term t e g) 0 = None"
      using T won_term(1) [OF T t(1)] by (auto simp: terms_ok_def extend_term_def)
    show "tlog (extend_term t e g) u = []" if "u \<noteq> 0" "won (extend_term t e g) u = None" for u
      using T that t(1) by (auto simp: terms_ok_def extend_term_def)
    fix u w' l' assume "won (extend_term t e g) u = Some (w', l')"
    then have w: "won g u = Some (w', l')" by (simp add: extend_term_def)
    then show "w' \<in> N" "good (extend_term t e g) l'" "\<forall>e \<in> set l'. eTerm e < u"
      using won_term [OF T w] good_mono [OF extend_term_tlog] by blast+
    obtain ext where "tlog g u = l' @ ext" "\<forall>e \<in> set ext. eTerm e = u" using T w unfolding terms_ok_def by blast
    then show "\<exists>ext. tlog (extend_term t e g) u = l' @ ext \<and> (\<forall>e \<in> set ext. eTerm e = u)"
      using t(2) by (auto simp: extend_term_def intro!: exI [of _ "if u = t then ext @ [e] else ext"])
  qed
qed (simp_all add: extend_term_def)

section \<open>A node\<close>

text \<open>The entries of a log up to an index are committed, by leaders of terms up to \<open>u\<close>.\<close>

definition committed_upto :: "history \<Rightarrow> u64 \<Rightarrow> LogEntry list \<Rightarrow> nat \<Rightarrow> bool" where
  "committed_upto g u l ci \<longleftrightarrow> ci < length l \<and> (ci = 0 \<or>
     (\<exists>t n. (t, n) \<in> commits g \<and> t \<le> u \<and> ci \<le> n \<and> take (Suc ci) l = take (Suc ci) (tlog g t)))"

definition node_static :: "NodeID set \<Rightarrow> NodeID \<Rightarrow> 's Raft \<Rightarrow> bool" where
  "node_static N i r \<longleftrightarrow> i \<in> N \<and> rid r = i \<and> distinct (peers r) \<and> set (peers r) = N - {i}"

definition node_disk :: "history \<Rightarrow> NodeID \<Rightarrow> 's Raft \<Rightarrow> bool" where
  "node_disk g i r \<longleftrightarrow> good g (rlog r) \<and> Log (view (disk g i)) = rlog r \<and>
     (\<forall>e \<in> set (rlog r). eTerm e \<le> dterm g i) \<and> dterm g i \<le> currentTerm r"

definition node_vote :: "history \<Rightarrow> NodeID \<Rightarrow> 's Raft \<Rightarrow> bool" where
  "node_vote g i r \<longleftrightarrow> (\<forall>t cd vl. (i, t, cd, vl) \<in> cast g \<longrightarrow> t \<le> dterm g i \<and>
     (t = dterm g i \<longrightarrow> VotedFor (view (disk g i)) = cd) \<and> (t = currentTerm r \<longrightarrow> votedFor r = cd))"

definition node_ack :: "history \<Rightarrow> NodeID \<Rightarrow> 's Raft \<Rightarrow> bool" where
  "node_ack g i r \<longleftrightarrow> (\<forall>t n. (i, t, n) \<in> acks g \<longrightarrow> t \<le> dterm g i \<and>
     (has g (rlog r) t n \<or> overruled g t n (dterm g i)))"

definition lead_ok :: "NodeID set \<Rightarrow> history \<Rightarrow> NodeID \<Rightarrow> 's Raft \<Rightarrow> bool" where
  "lead_ok N g i r \<longleftrightarrow> (\<exists>l. won g (currentTerm r) = Some (i, l)) \<and> rlog r = tlog g (currentTerm r) \<and>
     (\<forall>p. nextIndex r p \<le> length (rlog r) \<and> matchIndex r p < length (rlog r)) \<and>
     (\<forall>p \<in> N - {i}. \<forall>n \<le> matchIndex r p. eTerm (rlog r ! n) = currentTerm r \<longrightarrow> (p, currentTerm r, n) \<in> acks g)"

definition node_role :: "NodeID set \<Rightarrow> history \<Rightarrow> NodeID \<Rightarrow> 's Raft \<Rightarrow> bool" where
  "node_role N g i r \<longleftrightarrow> (\<forall>t l. won g t = Some (i, l) \<longrightarrow> t \<le> dterm g i) \<and>
     (rstate r = Candidate \<longrightarrow> (\<forall>l. won g (currentTerm r) \<noteq> Some (i, l))) \<and> (rstate r = Leader \<longrightarrow> lead_ok N g i r)"

definition node_commit :: "history \<Rightarrow> 's Raft \<Rightarrow> bool" where
  "node_commit g r \<longleftrightarrow> committed_upto g (currentTerm r) (rlog r) (commitIndex r) \<and> lastApplied r \<le> commitIndex r"

definition node_ok :: "NodeID set \<Rightarrow> history \<Rightarrow> NodeID \<Rightarrow> 's Raft \<Rightarrow> bool" where
  "node_ok N g i r \<longleftrightarrow> node_static N i r \<and> node_disk g i r \<and> node_vote g i r \<and> node_ack g i r \<and> node_role N g i r \<and> node_commit g r"

lemma committed_upto_mono:
  assumes ok: "hist_ok N g" and p: "\<And>t. prefix (tlog g t) (tlog g' t)" and c: "commits g \<subseteq> commits g'"
    and l: "committed_upto g u l ci" and u: "u \<le> u'" and l': "take (Suc ci) l' = take (Suc ci) l" "ci < length l'"
  shows "committed_upto g' u' l' ci"
proof (cases "ci = 0")
  case False
  then obtain t n where t: "(t, n) \<in> commits g" "t \<le> u" "ci \<le> n" "take (Suc ci) l = take (Suc ci) (tlog g t)"
    using l by (auto simp: committed_upto_def)
  have "n < length (tlog g t)" using commit_acked [OF ok t(1)] by blast
  then have "ci < length (tlog g t)" using t(3) by simp
  then have "take (Suc ci) (tlog g' t) = take (Suc ci) (tlog g t)" by (rule tlog_take(1) [OF p])
  then show ?thesis
    using t c order_trans [OF t(2) u] l' unfolding committed_upto_def by (metis subsetD)
qed (use l' in \<open>simp add: committed_upto_def\<close>)

text \<open>The parts of the invariant that do not depend on the role stay true while a history grows, as long as nothing is
  added for the node itself.\<close>

lemma node_parts_mono:
  assumes ok: "hist_ok N g" and n: "node_ok N g j r" and p: "\<And>t. prefix (tlog g t) (tlog g' t)"
    and w: "\<And>t x. won g t = Some x \<Longrightarrow> won g' t = Some x" and c: "commits g \<subseteq> commits g'" and d: "disk g' j = disk g j"
    and v: "\<And>t cd vl. (j, t, cd, vl) \<in> cast g' \<Longrightarrow> (j, t, cd, vl) \<in> cast g"
    and a: "\<And>t n. (j, t, n) \<in> acks g' \<Longrightarrow> (j, t, n) \<in> acks g"
  shows "node_disk g' j r" "node_vote g' j r" "node_ack g' j r" "node_commit g' r"
proof -
  have dt: "dterm g' j = dterm g j" using d by (simp add: dterm_def)
  have ac: "n < length (tlog g t)" if "(j, t, n) \<in> acks g" for t n
    using ok that unfolding hist_ok_def acks_ok_def by blast
  have "good g (rlog r) \<Longrightarrow> good g' (rlog r)" using good_mono [OF p] .
  then show "node_disk g' j r" using n unfolding node_ok_def node_disk_def d dt by blast
  show "node_vote g' j r" using n v unfolding node_ok_def node_vote_def d dt by blast
  show "node_ack g' j r" unfolding node_ack_def dt
  proof (intro allI impI)
    fix t n' assume "(j, t, n') \<in> acks g'"
    then have t: "(j, t, n') \<in> acks g" by (rule a)
    then show "t \<le> dterm g j \<and> (has g' (rlog r) t n' \<or> overruled g' t n' (dterm g j))"
      using n has_mono [OF p ac [OF t]] overruled_mono [OF p ac [OF t] w]
      unfolding node_ok_def node_ack_def by blast
  qed
  show "node_commit g' r"
    using n committed_upto_mono [OF ok p c] unfolding node_ok_def node_commit_def committed_upto_def by blast
qed

text \<open>Actions of another node keep the invariant of a node.\<close>

lemma node_ok_other:
  assumes ok: "hist_ok N g" and n: "node_ok N g j r" and gr: "grows i g g'" and ji: "j \<noteq> i"
  shows "node_ok N g' j r"
proof -
  note G = growsD [OF gr]
  have d: "dterm g' j = dterm g j" using G(1) [OF ji] by (simp add: dterm_def)
  note parts = node_parts_mono [OF ok n G(7) G(5) G(11) G(1) [OF ji] G(4) [OF _ ji] G(10) [OF _ ji]]
  have "lead_ok N g' j r" if lo: "lead_ok N g j r"
  proof -
    obtain l where w: "won g (currentTerm r) = Some (j, l)" using lo by (auto simp: lead_ok_def)
    have "tlog g' (currentTerm r) = tlog g (currentTerm r)" using G(8) [OF G(5) [OF w] ji] .
    then show ?thesis using lo G(5) [OF w] G(9) unfolding lead_ok_def by (auto 0 3)
  qed
  then have "node_role N g' j r"
    unfolding node_role_def d using n G(6) [OF _ ji] unfolding node_ok_def node_role_def by blast
  then show ?thesis using n parts by (simp add: node_ok_def)
qed

end
