(* ===== verification/Raft_Moves.thy ===== *)
theory Raft_Moves
  imports Raft_Steps
begin

text \<open>
  What the handlers of a node do to its invariant: each lemma takes a node and a history that satisfy it, and
  gives the history after the handler, for the node it leaves.
\<close>

lemma node_voteD:
  assumes "node_ok N g i r" "(i, t, cd, vl) \<in> cast g"
  shows "t \<le> dterm g i" "t = dterm g i \<Longrightarrow> VotedFor (view (disk g i)) = cd" "t = currentTerm r \<Longrightarrow> votedFor r = cd"
  using assms unfolding node_ok_def node_vote_def by blast+

lemma node_ackD:
  assumes "node_ok N g i r" "(i, t, n) \<in> acks g"
  shows "t \<le> dterm g i" "has g (rlog r) t n \<or> overruled g t n (dterm g i)"
  using assms unfolding node_ok_def node_ack_def by blast+

lemma node_diskD:
  assumes "node_ok N g i r"
  shows "good g (rlog r)" "Log (view (disk g i)) = rlog r" "\<And>e. e \<in> set (rlog r) \<Longrightarrow> eTerm e \<le> dterm g i" "dterm g i \<le> currentTerm r"
  using assms unfolding node_ok_def node_disk_def by blast+

section \<open>Changes that keep the log\<close>

text \<open>What a handler that does not touch the log may change.\<close>

definition keeps_log :: "NodeID set \<Rightarrow> history \<Rightarrow> NodeID \<Rightarrow> 's Raft \<Rightarrow> 's Raft \<Rightarrow> bool" where
  "keeps_log N g i r r' \<longleftrightarrow> rid r' = rid r \<and> peers r' = peers r \<and> rlog r' = rlog r \<and> commitIndex r' = commitIndex r \<and>
     lastApplied r' = lastApplied r \<and> currentTerm r \<le> currentTerm r' \<and>
     (\<forall>cd vl. (i, currentTerm r', cd, vl) \<in> cast g \<longrightarrow> votedFor r' = cd) \<and>
     (rstate r' = Candidate \<longrightarrow> (\<forall>l. won g (currentTerm r') \<noteq> Some (i, l))) \<and> (rstate r' = Leader \<longrightarrow> lead_ok N g i r')"

lemma node_ok_volatile:
  assumes ok: "hist_ok N g" and n: "node_ok N g i r" and k: "keeps_log N g i r r'"
  shows "node_ok N g i r'"
proof -
  have "currentTerm r \<le> currentTerm r'" using k by (simp add: keeps_log_def)
  then have "node_disk g i r'" using n k order_trans unfolding node_ok_def node_disk_def keeps_log_def by auto
  moreover have "node_vote g i r'"
    using n k unfolding node_ok_def node_vote_def keeps_log_def by blast
  moreover have "node_ack g i r'" "node_static N i r'"
    using n k unfolding node_ok_def node_ack_def node_static_def keeps_log_def by auto
  moreover have "node_role N g i r'" using n k unfolding node_ok_def node_role_def keeps_log_def by blast
  moreover have "node_commit g r'"
    using n k committed_upto_mono [OF ok, of g "currentTerm r" "rlog r" "commitIndex r" "currentTerm r'" "rlog r'"]
    unfolding node_ok_def node_commit_def keeps_log_def by (auto simp: committed_upto_def)
  ultimately show ?thesis by (simp add: node_ok_def)
qed

text \<open>The same with the new state saved.\<close>

definition saved :: "'s Raft \<Rightarrow> PersistentState" where
  "saved r = \<lparr>CurrentTerm = currentTerm r, VotedFor = votedFor r, Log = rlog r\<rparr>"

definition save :: "NodeID \<Rightarrow> 's Raft \<Rightarrow> history \<Rightarrow> history" where
  "save i r g = g\<lparr>disk := (disk g)(i \<mapsto> saved r)\<rparr>"

lemma save_simps [simp]:
  "good (save i r g) = good g" "has (save i r g) = has g" "overruled (save i r g) = overruled g" "hist_ok N (save i r g) = hist_ok N g"
  "cast (save i r g) = cast g" "won (save i r g) = won g" "tlog (save i r g) = tlog g" "acks (save i r g) = acks g"
  "commits (save i r g) = commits g" "disk (save i r g) i = Some (saved r)" "dterm (save i r g) i = currentTerm r"
  "committed_upto (save i r g) = committed_upto g" "lead_ok N (save i r g) = lead_ok N g" "node_commit (save i r g) = node_commit g"
  by (simp_all add: save_def dterm_def saved_def committed_upto_def fun_eq_iff lead_ok_def node_commit_def)

lemma save_grows: "dterm g i \<le> currentTerm r \<Longrightarrow> grows i g (save i r g)"
  unfolding grows_def by (simp add: save_def dterm_def saved_def)

lemma node_ok_save:
  assumes ok: "hist_ok N g" and n: "node_ok N g i r"
  shows "node_ok N (save i r g) i r" "grows i g (save i r g)"
proof -
  have d: "dterm g i \<le> currentTerm r" using n by (simp add: node_ok_def node_disk_def)
  then show "grows i g (save i r g)" by (rule save_grows)
  have "node_disk (save i r g) i r"
    using n d order_trans [OF _ d] by (auto simp: node_ok_def node_disk_def saved_def)
  moreover have "node_vote (save i r g) i r"
    using n d order_trans [OF _ d] unfolding node_ok_def node_vote_def by (auto simp: saved_def)
  moreover have "node_ack (save i r g) i r"
    using n d order_trans [OF _ d] unfolding node_ok_def node_ack_def overruled_def by auto meson
  moreover have "node_role N (save i r g) i r"
    using n d order_trans [OF _ d] unfolding node_ok_def node_role_def by auto
  ultimately show "node_ok N (save i r g) i r" using n by (simp add: node_ok_def)
qed

text \<open>A vote is cast when it is on disk.\<close>

definition vote_cast :: "NodeID \<Rightarrow> 's Raft \<Rightarrow> history \<Rightarrow> history" where
  "vote_cast i r g = g\<lparr>cast := insert (i, currentTerm r, votedFor r, rlog r) (cast g)\<rparr>"

lemma vote_cast_simps [simp]:
  "good (vote_cast i r g) = good g" "has (vote_cast i r g) = has g" "overruled (vote_cast i r g) = overruled g"
  "won (vote_cast i r g) = won g" "tlog (vote_cast i r g) = tlog g" "acks (vote_cast i r g) = acks g"
  "commits (vote_cast i r g) = commits g" "disk (vote_cast i r g) = disk g" "dterm (vote_cast i r g) = dterm g"
  "committed_upto (vote_cast i r g) = committed_upto g" "lead_ok N (vote_cast i r g) = lead_ok N g" "node_commit (vote_cast i r g) = node_commit g"
  by (simp_all add: vote_cast_def dterm_def committed_upto_def fun_eq_iff lead_ok_def node_commit_def)

lemma node_ok_vote:
  assumes ok: "hist_ok N g" and n: "node_ok N g i r" and d: "disk g i = Some (saved r)" and c: "votedFor r \<in> N"
  shows "hist_ok N (vote_cast i r g)" "node_ok N (vote_cast i r g) i r" "grows i g (vote_cast i r g)"
proof -
  have t: "dterm g i = currentTerm r" using d by (simp add: dterm_def saved_def)
  show "hist_ok N (vote_cast i r g)"
    unfolding vote_cast_def
  proof (rule hist_ok_cast [OF ok c])
    show "good g (rlog r)" using n by (simp add: node_ok_def node_disk_def)
    show "cd' = votedFor r" if "(i, currentTerm r, cd', vl') \<in> cast g" for cd' vl'
      using node_voteD(3) [OF n that] by simp
    show "has g (rlog r) s m \<or> overruled g s m (currentTerm r)" if "(i, s, m) \<in> acks g" for s m
      using node_ackD(2) [OF n that] t by simp
  qed
  show "grows i g (vote_cast i r g)" unfolding grows_def by (auto simp: vote_cast_def dterm_def)
  have "node_vote (vote_cast i r g) i r"
    using n d t unfolding node_ok_def node_vote_def by (auto simp: vote_cast_def dterm_def saved_def)
  then show "node_ok N (vote_cast i r g) i r"
    using n by (simp add: node_ok_def node_disk_def node_ack_def node_role_def)
qed

section \<open>Elections won\<close>

lemma quorum_voted_once:
  assumes ok: "hist_ok N g" and Q: "quorum N Q" "\<And>j. j \<in> Q \<Longrightarrow> \<exists>vl. (j, t, i, vl) \<in> cast g" and w: "won g t = Some (w, l)"
  shows "w = i"
proof -
  obtain Q' where Q': "quorum N Q'" "\<And>j. j \<in> Q' \<Longrightarrow> \<exists>vl. (j, t, w, vl) \<in> cast g"
    using ok w unfolding hist_ok_def wins_ok_def by meson
  obtain j where j: "j \<in> Q" "j \<in> Q'" using quorums_meet [OF _ Q(1) Q'(1)] ok by (auto simp: hist_ok_def)
  then show ?thesis using Q(2) Q'(2) ok unfolding hist_ok_def votes_ok_def by metis
qed

text \<open>While a term has no leader, a vote cast in it vouches for the candidate in the sense of \<open>wins_ok\<close>.\<close>

lemma vote_vouches:
  assumes ok: "hist_ok N g" and none: "won g t = None" and v: "(j, t, i, vl) \<in> cast g" and a: "(j, s, m) \<in> acks g" "s < t"
  shows "has g vl s m \<or> (\<exists>u < t. overruled g s m u)"
proof -
  have "has g vl s m \<or> overruled g s m t" using ok v a unfolding hist_ok_def votes_ok_def by blast
  moreover have "\<exists>u < t. overruled g s m u" if t: "overruled g s m t"
  proof -
    obtain t' w l where ov: "s < t'" "t' \<le> t" "won g t' = Some (w, l)" "\<not> has g l s m" using t unfolding overruled_def by blast
    then have "t' < t" using none by (metis option.distinct(1) order_le_imp_less_or_eq)
    then show ?thesis using ov unfolding overruled_def by blast
  qed
  ultimately show ?thesis by blast
qed

lemma hist_ok_win:
  assumes ok: "hist_ok N g" and none: "won g t = None" "t \<noteq> 0" and l: "i \<in> N" "good g l" "\<forall>e \<in> set l. eTerm e < t"
    and Q: "quorum N Q" "\<And>j. j \<in> Q \<Longrightarrow> \<exists>vl. (j, t, i, vl) \<in> cast g \<and> newer l vl"
  shows "hist_ok N (win t i l g)"
proof -
  have T: "terms_ok N g" using ok by (simp add: hist_ok_def)
  have wn: "\<And>u x. won g u = Some x \<Longrightarrow> won (win t i l g) u = Some x" using none by (auto simp: win_def)
  show ?thesis
  proof (rule hist_ok_extend [OF ok win_terms_ok [OF T none l] win_tlog [OF T none] wn])
    fix u w l' assume "won (win t i l g) u = Some (w, l')" "won g u \<noteq> Some (w, l')"
    then have "u = t" "w = i" "l' = l" by (auto simp: win_def split: if_splits)
    moreover have "\<exists>vl. (j, t, i, vl) \<in> cast g \<and> newer l vl \<and>
       (\<forall>s n. (j, s, n) \<in> acks g \<longrightarrow> s < t \<longrightarrow> has g vl s n \<or> (\<exists>v < t. overruled g s n v))" if "j \<in> Q" for j
      using Q(2) [OF that] vote_vouches [OF ok none(1)] by blast
    ultimately show "\<exists>Q. quorum N Q \<and> (\<forall>j \<in> Q. \<exists>vl. (j, u, w, vl) \<in> cast g \<and> newer l' vl \<and>
       (\<forall>s n. (j, s, n) \<in> acks g \<longrightarrow> s < u \<longrightarrow> has g vl s n \<or> (\<exists>v < u. overruled g s n v)))"
      using Q(1) by blast
  qed (simp_all add: win_def)
qed

lemma node_ok_win:
  assumes ok: "hist_ok N g" and n: "node_ok N g i r" and st: "rstate r = Candidate" and t: "dterm g i = currentTerm r" "currentTerm r \<noteq> 0"
    and low: "\<forall>e \<in> set (rlog r). eTerm e < currentTerm r"
    and Q: "quorum N Q" "\<And>j. j \<in> Q \<Longrightarrow> \<exists>vl. (j, currentTerm r, i, vl) \<in> cast g \<and> newer (rlog r) vl"
  shows "hist_ok N (win (currentTerm r) i (rlog r) g)" "node_ok N (win (currentTerm r) i (rlog r) g) i (becomeLeaderLocked r)"
    "grows i g (win (currentTerm r) i (rlog r) g)"
proof -
  let ?t = "currentTerm r" and ?g = "win (currentTerm r) i (rlog r) g" and ?r = "becomeLeaderLocked r"
  have T: "terms_ok N g" using ok by (simp add: hist_ok_def)
  have N: "i \<in> N" "good g (rlog r)" using n by (auto simp: node_ok_def node_static_def node_disk_def)
  have none: "won g ?t = None"
  proof (rule ccontr)
    assume "won g ?t \<noteq> None"
    then obtain w l where w: "won g ?t = Some (w, l)" by auto
    then have "w = i" using quorum_voted_once [OF ok Q(1)] Q(2) by blast
    then show False using n st w unfolding node_ok_def node_role_def by blast
  qed
  note p = win_tlog [OF T none t(2)]
  show "hist_ok N ?g" by (rule hist_ok_win [OF ok none t(2) N low Q])
  show "grows i g ?g"
    unfolding grows_def using none p by (auto simp: win_def dterm_def split: if_splits)
  have r: "rstate ?r = Leader" "currentTerm ?r = ?t" "rlog ?r = rlog r" "matchIndex ?r = (\<lambda>_. 0)"
    "\<And>p. nextIndex ?r p \<le> length (rlog r)" "rid ?r = rid r" "peers ?r = peers r" "commitIndex ?r = commitIndex r"
    "lastApplied ?r = lastApplied r" "votedFor ?r = votedFor r"
    using st N(2) by (auto simp: becomeLeaderLocked_def Let_def lastIndexLocked_def good_def)
  have "lead_ok N ?g i ?r"
    unfolding lead_ok_def r using N(2) t(2) by (auto simp: win_def good_def sentinel_def r(5))
  moreover have "u \<le> ?t" if "won ?g u = Some (i, l)" for u l
    using n that t(1) unfolding node_ok_def node_role_def by (auto simp: win_def split: if_splits)
  ultimately have role: "node_role N ?g i ?r" using r(1) t(1) by (simp add: node_role_def dterm_def win_def)
  have wn: "\<And>u x. won g u = Some x \<Longrightarrow> won ?g u = Some x" using none by (auto simp: win_def)
  have "node_disk ?g i r" "node_vote ?g i r" "node_ack ?g i r" "node_commit ?g r"
    by (rule node_parts_mono [OF ok n p wn]; simp add: win_def)+
  then show "node_ok N ?g i ?r"
    using role n by (simp add: node_ok_def node_disk_def node_vote_def node_ack_def node_commit_def node_static_def r)
qed

section \<open>A leader appends\<close>

lemma extend_term_sel [simp]:
  "dterm (extend_term t e g) = dterm g" "disk (extend_term t e g) = disk g" "won (extend_term t e g) = won g"
  "cast (extend_term t e g) = cast g" "acks (extend_term t e g) = acks g" "commits (extend_term t e g) = commits g"
  by (simp_all add: extend_term_def dterm_def fun_eq_iff)

lemma node_ok_propose:
  assumes ok: "hist_ok N g" and n: "node_ok N g i r" and st: "rstate r = Leader" and e: "eTerm e = currentTerm r"
    and r': "r' = r\<lparr>rlog := rlog r @ [e], storage := s\<rparr>"
  defines "g' \<equiv> save i r' (extend_term (currentTerm r) e g)"
  shows "hist_ok N g'" "node_ok N g' i r'" "grows i g g'"
proof -
  let ?t = "currentTerm r" and ?x = "extend_term (currentTerm r) e g"
  have lo: "lead_ok N g i r" using n st by (simp add: node_ok_def node_role_def)
  then obtain l where w: "won g ?t = Some (i, l)" by (auto simp: lead_ok_def)
  have d: "dterm g i = ?t"
    using n w unfolding node_ok_def node_role_def node_disk_def by (metis order_antisym)
  have x: "hist_ok N ?x" by (rule extend_term_ok [OF ok w e])
  then show "hist_ok N g'" by (simp add: g'_def)
  have T: "terms_ok N ?x" using x by (simp add: hist_ok_def)
  have l: "rlog r @ [e] = tlog ?x ?t" using lo by (simp add: lead_ok_def extend_term_def)
  have "grows i g ?x" unfolding grows_def using w by (auto simp: extend_term_def dterm_def)
  moreover have "grows i ?x g'"
    unfolding g'_def using d by (intro save_grows) (simp add: r')
  ultimately show "grows i g g'" by (rule grows_trans)
  have parts: "node_vote ?x i r" "node_ack ?x i r" "node_commit ?x r"
    by (rule node_parts_mono [OF ok n extend_term_tlog]; simp add: extend_term_def)+
  have "node_disk g' i r'"
    using good_tlog [OF T, of ?t] l [symmetric] n e d
    by (auto simp: g'_def node_disk_def node_ok_def r' saved_def)
  moreover have "node_vote g' i r'"
    using parts(1) d by (auto simp: node_vote_def g'_def r' saved_def)
  moreover have "node_ack g' i r'"
    using parts(2) d has_prefix [of "rlog r" "rlog r @ [e]" ?x] by (simp add: node_ack_def g'_def r') blast 
  moreover have "m < length (tlog g ?t)" if "m \<le> matchIndex r p" for m p
    using lo that unfolding lead_ok_def by (metis le_less_trans)
  then have "lead_ok N g' i r'"
    using lo w by (auto simp: lead_ok_def g'_def r' extend_term_def nth_append le_SucI less_SucI)
  moreover have "node_commit g' r'"
    using parts(3) by (auto simp: node_commit_def g'_def r' committed_upto_def)
  ultimately show "node_ok N g' i r'"
    using n st d by (simp add: node_ok_def node_static_def node_role_def r' g'_def)
qed

section \<open>A follower appends\<close>

text \<open>The loop of \<open>AppendEntries\<close> on the entries of a leader's log \<open>L\<close>: the log agrees with it as far as the
  entries reach, keeps all that already agreed, and is only cut where it differs.\<close>

lemma append_loop_spec:
  assumes "good g l" "good g L" "idx \<le> length l" "take idx l = take idx L" "idx + length es \<le> length L"
    and "es = take (length es) (drop idx L)" "append_loop l idx es = (l', ch)"
  shows "take (idx + length es) l' = take (idx + length es) L \<and> idx + length es \<le> length l' \<and> (\<not> ch \<longrightarrow> l' = l) \<and>
    (ch \<longrightarrow> l' = take (idx + length es) L) \<and>
    (\<forall>m. m \<le> length l \<longrightarrow> m \<le> length L \<longrightarrow> take m l = take m L \<longrightarrow> m \<le> length l' \<and> take m l' = take m L)"
  using assms(3-7)
proof (induction es arbitrary: idx)
  case Nil
  then show ?case by auto
next
  case (Cons e es)
  have idx: "idx < length L" using Cons.prems(3) by simp
  then have e: "e = L ! idx" "es = take (length es) (drop (Suc idx) L)"
    using Cons.prems(4) by (auto simp: Cons_nth_drop_Suc [symmetric])
  show ?case
  proof (cases "idx < length l \<and> eTerm (l ! idx) = eTerm e")
    case True
    then have "take (Suc idx) l = take (Suc idx) L" using good_match [OF assms(1,2), of idx] e idx by simp
    moreover have "append_loop l (Suc idx) es = (l', ch)" using Cons.prems(5) True by simp
    moreover have "Suc idx \<le> length l" "Suc idx + length es \<le> length L" using True Cons.prems(3) by auto
    ultimately show ?thesis using Cons.IH [of "Suc idx"] e(2) by simp
  next
    case False
    then have l': "l' = take idx l @ e # es" "ch" using Cons.prems(5) by auto
    have tk: "take idx L @ e # es = take (idx + length (e # es)) L"
      using Cons.prems(4) by (metis take_add)
    have "m \<le> idx" if "m \<le> length l" "take m l = take m L" for m
    proof (rule ccontr)
      assume "\<not> m \<le> idx"
      then have "idx < length l" "l ! idx = L ! idx" using that by (simp, metis nth_take not_le)
      then show False using False e by simp
    qed
    then have "m \<le> idx + length (e # es)" if "m \<le> length l" "take m l = take m L" for m using that by fastforce
    then show ?thesis
      using l' tk Cons.prems(2,3) by (simp add: min_def del: list.size(4))
  qed
qed

lemma node_ok_cong [simp]:
  "node_ok N g i (r\<lparr>storage := s\<rparr>) = node_ok N g i r" "node_ok N g i (r\<lparr>electionDeadline := d\<rparr>) = node_ok N g i r"
  "node_ok N g i (r\<lparr>leaderID := ld\<rparr>) = node_ok N g i r" "node_ok N g i (r\<lparr>logged := lg\<rparr>) = node_ok N g i r"
  "saved (r\<lparr>storage := s\<rparr>) = saved r" "saved (r\<lparr>commitIndex := ci\<rparr>) = saved r"
  by (simp_all add: node_ok_def node_static_def node_disk_def node_vote_def node_ack_def node_role_def lead_ok_def node_commit_def saved_def)

text \<open>The log of a follower becomes a prefix of the log of the leader of its term, keeping what agreed with it.\<close>

lemma node_ok_replace:
  assumes ok: "hist_ok N g" and n: "node_ok N g i r" and st: "rstate r = Follower" and w: "won g (currentTerm r) = Some (ld, l0)"
    and l': "prefix l' (tlog g (currentTerm r))" "l' \<noteq> []"
    and keep: "\<And>m. m \<le> length (rlog r) \<Longrightarrow> m \<le> length (tlog g (currentTerm r)) \<Longrightarrow>
       take m (rlog r) = take m (tlog g (currentTerm r)) \<Longrightarrow> m \<le> length l' \<and> take m l' = take m (tlog g (currentTerm r))"
  shows "node_ok N (save i (r\<lparr>rlog := l'\<rparr>) g) i (r\<lparr>rlog := l'\<rparr>)"
proof -
  let ?t = "currentTerm r" and ?r = "r\<lparr>rlog := l'\<rparr>" and ?L = "tlog g (currentTerm r)"
  let ?g = "save i ?r g"
  have T: "terms_ok N g" using ok by (simp add: hist_ok_def)
  note D = node_diskD [OF n]
  have "?L \<noteq> []" using l' by (metis prefix_Nil)
  then have L: "good g ?L" "prefix l0 ?L" using good_tlog [OF T, of ?t] won_term(5) [OF T w] by blast+
  have kept: "has g l' s m" if "has g (rlog r) s m" "has g ?L s m" for s m
    using keep [of "Suc m"] that by (auto simp: has_def Suc_le_eq)
  have "node_disk ?g i ?r"
    using good_prefix [OF L(1) l'] term_bound [OF T, of _ ?t] set_mono_prefix [OF l'(1)] by (auto simp: node_disk_def saved_def)
  moreover have "node_vote ?g i ?r"
    using node_voteD [OF n] D(4) by (fastforce simp: node_vote_def saved_def)
  moreover have "node_ack ?g i ?r" unfolding node_ack_def
  proof (intro allI impI)
    fix s m assume "(i, s, m) \<in> acks ?g"
    then have a: "(i, s, m) \<in> acks g" by simp
    have m: "m < length (tlog g s)" using ok a unfolding hist_ok_def acks_ok_def by blast
    have s: "s \<le> ?t" using node_ackD(1) [OF n a] D(4) by (rule order_trans)
    have "has g l' s m \<or> overruled g s m ?t"
    proof (cases "has g ?L s m")
      case True
      then show ?thesis
        using node_ackD(2) [OF n a] kept overruled_mono [of g s g m "dterm g i" ?t] m D(4) by auto
    next
      case False
      then have "s \<noteq> ?t" "\<not> has g l0 s m" using m L(2) has_prefix by (auto simp: has_def)
      then show ?thesis using s w unfolding overruled_def by (metis order_le_imp_less_or_eq order_refl)
    qed
    then show "s \<le> dterm ?g i \<and> (has ?g (rlog ?r) s m \<or> overruled ?g s m (dterm ?g i))" using s by simp
  qed
  moreover have "node_role N ?g i ?r"
    using n D(4) st order_trans [OF _ D(4)] by (auto simp: node_ok_def node_role_def)
  moreover have "committed_upto g ?t l' (commitIndex r)"
  proof (cases "commitIndex r = 0")
    case False
    obtain s m where c: "(s, m) \<in> commits g" "s \<le> ?t" "commitIndex r \<le> m" "commitIndex r < length (rlog r)"
      "take (Suc (commitIndex r)) (rlog r) = take (Suc (commitIndex r)) (tlog g s)"
      using n False unfolding node_ok_def node_commit_def committed_upto_def by auto
    have "has g ?L s m" by (rule tlog_complete [OF ok c(1) w c(2)])
    then have "take (Suc (commitIndex r)) ?L = take (Suc (commitIndex r)) (tlog g s)" "commitIndex r < length ?L"
      using c(3) unfolding has_def by (metis Suc_le_mono min.absorb1 take_take, simp)
    then show ?thesis
      using keep [of "Suc (commitIndex r)"] c unfolding committed_upto_def by (auto simp: Suc_le_eq)
  qed (use l' in \<open>simp add: committed_upto_def\<close>)
  ultimately show ?thesis
    using n by (simp add: node_ok_def node_static_def node_commit_def)
qed

text \<open>What agrees with the leader's log is acknowledged.\<close>

definition ack :: "NodeID \<Rightarrow> u64 \<Rightarrow> nat \<Rightarrow> history \<Rightarrow> history" where
  "ack i t k g = g\<lparr>acks := acks g \<union> {(i, t, n) |n. n \<in> {n. n \<le> k \<and> eTerm (tlog g t ! n) = t}}\<rparr>"

lemma ack_sel [simp]:
  "good (ack i t k g) = good g" "has (ack i t k g) = has g" "overruled (ack i t k g) = overruled g"
  "won (ack i t k g) = won g" "tlog (ack i t k g) = tlog g" "cast (ack i t k g) = cast g"
  "commits (ack i t k g) = commits g" "disk (ack i t k g) = disk g" "dterm (ack i t k g) = dterm g"
  "node_disk (ack i t k g) = node_disk g" "node_vote (ack i t k g) = node_vote g" "node_commit (ack i t k g) = node_commit g"
  by (simp_all add: ack_def dterm_def node_disk_def node_vote_def node_commit_def committed_upto_def fun_eq_iff)

lemma node_ok_ack:
  assumes ok: "hist_ok N g" and n: "node_ok N g i r" and k: "k < length (tlog g (currentTerm r))" "k < length (rlog r)"
    and eq: "take (Suc k) (rlog r) = take (Suc k) (tlog g (currentTerm r))"
  shows "hist_ok N (ack i (currentTerm r) k g)" "node_ok N (ack i (currentTerm r) k g) i r" "grows i g (ack i (currentTerm r) k g)"
proof -
  let ?t = "currentTerm r" and ?g = "ack i (currentTerm r) k g"
  note D = node_diskD [OF n]
  show "hist_ok N ?g" unfolding ack_def
  proof (rule hist_ok_acks [OF ok])
    show "u \<le> ?t" if "(i, u, cd, vl) \<in> cast g" for u cd vl using node_voteD(1) [OF n that] D(4) by (rule order_trans)
  qed (use k in auto)
  show "grows i g ?g" unfolding grows_def by (auto simp: ack_def dterm_def)
  have new: "?t \<le> dterm g i \<and> has g (rlog r) ?t m" if "m \<le> k" "eTerm (tlog g ?t ! m) = ?t" for m
  proof -
    have t: "take (Suc m) (rlog r) = take (Suc m) (tlog g ?t)"
      using eq that(1) by (metis Suc_le_mono min.absorb1 take_take)
    then have "rlog r ! m = tlog g ?t ! m" by (metis lessI nth_take)
    moreover have "m < length (rlog r)" using that(1) k(2) by simp
    ultimately show ?thesis using D(3) [OF nth_mem, of m] that t by (simp add: has_def)
  qed
  have "node_ack ?g i r"
    using node_ackD [OF n] new by (auto simp: node_ack_def ack_def)
  moreover have "lead_ok N ?g i r" if "lead_ok N g i r" using that by (auto simp: lead_ok_def ack_def)
  then have "node_role N ?g i r" using n by (auto simp: node_ok_def node_role_def)
  ultimately show "node_ok N ?g i r" using n by (simp add: node_ok_def)
qed

lemma node_ok_commitIndex:
  assumes "node_ok N g i r" "committed_upto g (currentTerm r) (rlog r) ci" "commitIndex r \<le> ci"
  shows "node_ok N g i (r\<lparr>commitIndex := ci\<rparr>)"
  using assms
  by (auto simp: node_ok_def node_static_def node_disk_def node_vote_def node_ack_def node_role_def lead_ok_def node_commit_def)

end
