(* ===== verification/Raft_Commit.thy ===== *)
theory Raft_Commit
  imports Raft_Moves
begin

text \<open>
  The last of the handlers' effects on the invariant of a node: a leader that commits, and a node that starts or restarts.
\<close>

section \<open>A leader commits\<close>

lemma advance_loop_cases:
  obtains "advance_loop r k = r"
  | n where "advance_loop r k = r\<lparr>commitIndex := n\<rparr>" "commitIndex r < n" "n \<le> k" "eTerm (rlog r ! n) = currentTerm r"
      "majority r \<le> match_count r n"
proof -
  have "advance_loop r k = r \<or> (\<exists>n. advance_loop r k = r\<lparr>commitIndex := n\<rparr> \<and> commitIndex r < n \<and> n \<le> k
      \<and> eTerm (rlog r ! n) = currentTerm r \<and> majority r \<le> match_count r n)"
  proof (induction k)
    case (Suc k)
    show ?case
    proof (cases "Suc k \<le> commitIndex r \<or> eTerm (rlog r ! Suc k) = currentTerm r \<and> majority r \<le> match_count r (Suc k)")
      case True
      then consider "Suc k \<le> commitIndex r" | "\<not> Suc k \<le> commitIndex r" "eTerm (rlog r ! Suc k) = currentTerm r" "majority r \<le> match_count r (Suc k)"
        by blast
      then show ?thesis
      proof cases
        case 2
        then show ?thesis by (intro disjI2 exI [of _ "Suc k"]) simp
      qed simp
    next
      case False
      then have "advance_loop r (Suc k) = advance_loop r k" by auto
      then show ?thesis using Suc.IH le_SucI by metis
    qed
  qed simp
  then show ?thesis using that by blast
qed

text \<open>The peers counted by \<open>advanceCommitLocked\<close> and the leader form a majority.\<close>

lemma match_quorum:
  assumes s: "node_static N i r" and fin: "finite N" and m: "majority r \<le> match_count r n"
  shows "quorum N (insert i {p \<in> N - {i}. n \<le> matchIndex r p})"
proof -
  let ?P = "filter (\<lambda>p. n \<le> matchIndex r p) (peers r)"
  have P: "set ?P = {p \<in> N - {i}. n \<le> matchIndex r p}" "distinct ?P" using s by (auto simp: node_static_def)
  then have "card (insert i {p \<in> N - {i}. n \<le> matchIndex r p}) = Suc (length ?P)"
    using distinct_card [OF P(2)] fin by simp
  moreover have "card (N - {i}) = length (peers r)" using s distinct_card [of "peers r"] by (simp add: node_static_def)
  then have "card N = Suc (length (peers r))" using s fin card_Suc_Diff1 [of N i] by (simp add: node_static_def)
  ultimately show ?thesis
    using s m by (auto simp: quorum_def node_static_def majority_def clusterSize_def match_count_def)
qed

lemma node_ok_advance:
  assumes ok: "hist_ok N g" and n: "node_ok N g i r" and st: "rstate r = Leader"
  shows "\<exists>g'. hist_ok N g' \<and> node_ok N g' i (advanceCommitLocked r) \<and> grows i g g' \<and> disk g' i = disk g i"
proof (cases rule: advance_loop_cases [of r "lastIndexLocked r"])
  case 1
  then show ?thesis using ok n grows_refl by (intro exI [of _ g]) (simp add: advanceCommitLocked_def)
next
  case (2 k)
  let ?t = "currentTerm r"
  let ?Q = "insert i {p \<in> N - {i}. k \<le> matchIndex r p}"
  have lo: "lead_ok N g i r" using n st by (simp add: node_ok_def node_role_def)
  have L: "rlog r = tlog g ?t" using lo by (simp add: lead_ok_def)
  have "rlog r \<noteq> []" using node_diskD(1) [OF n] by (simp add: good_def)
  then have k: "k < length (rlog r)" using 2(3) by (cases "rlog r") (simp_all add: lastIndexLocked_def)
  have kL: "k < length (tlog g ?t)" "take (Suc k) (rlog r) = take (Suc k) (tlog g ?t)" using k L by simp_all
  let ?a = "ack i ?t k g"
  note A = node_ok_ack [OF ok n kL(1) k kL(2)]
  let ?g = "?a\<lparr>commits := insert (?t, k) (commits ?a)\<rparr>"
  have "quorum N ?Q" using match_quorum [OF _ _ 2(5)] n ok by (simp add: node_ok_def hist_ok_def)
  moreover have "(j, ?t, k) \<in> acks ?a" if "j \<in> ?Q" for j
    using that lo 2(4) L by (auto simp: ack_def lead_ok_def)
  ultimately have h: "hist_ok N ?g" by (rule hist_ok_commit [OF A(1)])
  have "grows i ?a ?g" unfolding grows_def by (auto simp: dterm_def)
  then have gr: "grows i g ?g" using A(3) grows_trans by blast
  have "node_ok N ?g i r"
    using A(2) committed_upto_mono [OF A(1), of ?g ?t "rlog r" "commitIndex r" ?t "rlog r"]
    unfolding node_ok_def node_disk_def node_vote_def node_ack_def node_role_def lead_ok_def node_commit_def
    by (auto simp: committed_upto_def)
  moreover have "committed_upto ?g ?t (rlog r) k"
    using k L unfolding committed_upto_def by (auto intro: exI [of _ ?t])
  ultimately have "node_ok N ?g i (r\<lparr>commitIndex := k\<rparr>)" using 2(2) node_ok_commitIndex [of N ?g i r k] by simp
  then show ?thesis using h gr 2(1) by (intro exI [of _ ?g]) (simp add: advanceCommitLocked_def)
qed

section \<open>Starting\<close>

definition fresh :: "history \<Rightarrow> NodeID \<Rightarrow> 's Raft \<Rightarrow> bool" where
  "fresh g i r \<longleftrightarrow> currentTerm r = dterm g i \<and> votedFor r = VotedFor (view (disk g i)) \<and> rlog r = Log (view (disk g i)) \<and>
     rstate r = Follower \<and> commitIndex r = 0 \<and> lastApplied r = 0"

lemma node_ok_restart:
  assumes n: "node_ok N g i r" and f: "fresh g i r'" "node_static N i r'"
  shows "node_ok N g i r'"
proof -
  note D = node_diskD [OF n]
  have "node_vote g i r'" using node_voteD [OF n] f unfolding node_vote_def fresh_def by blast
  moreover have "node_ack g i r'" using node_ackD [OF n] f D(2) unfolding node_ack_def fresh_def by simp
  ultimately show ?thesis
    using n f D by (auto simp: node_ok_def node_disk_def node_role_def node_commit_def committed_upto_def fresh_def good_def)
qed

definition hist0 :: history where
  "hist0 = \<lparr>disk = (\<lambda>_. None), cast = {}, won = (\<lambda>_. None), tlog = (\<lambda>_. [])(0 := [sentinel]), acks = {}, commits = {}\<rparr>"

lemma hist0_ok: "finite N \<Longrightarrow> hist_ok N hist0"
  by (simp add: hist_ok_def terms_ok_def votes_ok_def wins_ok_def acks_ok_def commits_ok_def hist0_def)

lemma node_ok_init:
  assumes "fresh hist0 i r" "node_static N i r"
  shows "node_ok N hist0 i r"
  using assms
  by (auto simp: node_ok_def node_disk_def node_vote_def node_ack_def node_role_def node_commit_def committed_upto_def
      fresh_def good_def hist0_def dterm_def view_def sentinel_def)

end
