(* ===== verification/Raft_Invariant.thy ===== *)
theory Raft_Invariant
  imports Raft_Commit
begin

text \<open>
  The invariant of a cluster, \<open>cluster_ok\<close>: messages only say what the
  history says, and a candidate has counted distinct votes. \<open>cluster_step\<close> reduces its preservation to the
  node that acts and the messages it adds.
\<close>

section \<open>Messages and candidates\<close>

definition vote_req_ok :: "NodeID set \<Rightarrow> history \<Rightarrow> NodeID \<Rightarrow> RequestVoteArgs \<Rightarrow> bool" where
  "vote_req_ok N g p args \<longleftrightarrow> p \<in> N \<and> CandidateID args \<in> N \<and> rvTerm args \<le> dterm g (CandidateID args)"

text \<open>The test of \<open>candidateUpToDateLocked\<close> against a log.\<close>

definition up_to_date :: "RequestVoteArgs \<Rightarrow> LogEntry list \<Rightarrow> bool" where
  "up_to_date args l \<longleftrightarrow> LastLogTerm args > eTerm (last l) \<or> LastLogTerm args = eTerm (last l) \<and> length l \<le> Suc (LastLogIndex args)"

definition vote_rep_ok :: "history \<Rightarrow> NodeID \<Rightarrow> RequestVoteArgs \<Rightarrow> RequestVoteReply \<Rightarrow> bool" where
  "vote_rep_ok g p args reply \<longleftrightarrow> (VoteGranted reply \<longrightarrow>
     (\<exists>vl. (p, rvTerm args, CandidateID args, vl) \<in> cast g \<and> up_to_date args vl))"

definition app_req_ok :: "NodeID set \<Rightarrow> history \<Rightarrow> NodeID \<Rightarrow> AppendEntriesArgs \<Rightarrow> bool" where
  "app_req_ok N g p args \<longleftrightarrow> p \<in> N \<and> p \<noteq> LeaderID args \<and>
     (let t = aeTerm args; L = tlog g t; k = PrevLogIndex args + length (Entries args) in
      (\<exists>l. won g t = Some (LeaderID args, l)) \<and> k < length L \<and> PrevLogTerm args = eTerm (L ! PrevLogIndex args) \<and>
      Entries args = take (length (Entries args)) (drop (Suc (PrevLogIndex args)) L) \<and>
      LeaderCommit args \<le> k \<and> committed_upto g t L (LeaderCommit args))"

definition app_rep_ok :: "history \<Rightarrow> NodeID \<Rightarrow> AppendEntriesArgs \<Rightarrow> AppendEntriesReply \<Rightarrow> bool" where
  "app_rep_ok g p args reply \<longleftrightarrow>
     (if Success reply
      then \<forall>n \<le> PrevLogIndex args + length (Entries args). eTerm (tlog g (aeTerm args) ! n) = aeTerm args \<longrightarrow> (p, aeTerm args, n) \<in> acks g
      else ConflictIndex reply \<le> PrevLogIndex args)"

definition applied_ok :: "history \<Rightarrow> ApplyMsg \<Rightarrow> bool" where
  "applied_ok g msg \<longleftrightarrow> (\<exists>t n. (t, n) \<in> commits g \<and> CommandIndex msg \<le> n \<and> MsgCommand msg = Command (tlog g t ! CommandIndex msg))"

definition asked :: "'s cluster \<Rightarrow> NodeID \<Rightarrow> 's Raft \<Rightarrow> bool" where
  "asked c i r \<longleftrightarrow> (\<forall>p args. (p, args) \<in> set (vote_reqs c) \<longrightarrow> CandidateID args = i \<longrightarrow> rvTerm args = currentTerm r \<longrightarrow>
     LastLogTerm args = eTerm (last (rlog r)) \<and> Suc (LastLogIndex args) = length (rlog r))"

definition counted :: "NodeID set \<Rightarrow> history \<Rightarrow> 's cluster \<Rightarrow> NodeID \<Rightarrow> 's Raft \<Rightarrow> bool" where
  "counted N g c i r \<longleftrightarrow> (\<exists>G. i \<in> G \<and> G \<subseteq> N \<and> votes c i (currentTerm r) = card G \<and>
     (\<forall>p \<in> G. (i, currentTerm r, p) \<notin> set (asking c) \<and> (\<exists>vl. (p, currentTerm r, i, vl) \<in> cast g \<and> newer (rlog r) vl)))"

text \<open>What a candidate has asked for, and whose votes it has counted.\<close>

definition cand_ok :: "NodeID set \<Rightarrow> history \<Rightarrow> 's cluster \<Rightarrow> NodeID \<Rightarrow> 's Raft \<Rightarrow> bool" where
  "cand_ok N g c i r \<longleftrightarrow> (rstate r = Candidate \<longrightarrow>
     dterm g i = currentTerm r \<and> currentTerm r \<noteq> 0 \<and> (\<forall>e \<in> set (rlog r). eTerm e < currentTerm r) \<and>
     asked c i r \<and> counted N g c i r)"

lemma counted_mono:
  assumes "counted N g c i r" "votes c' i = votes c i" "cast g \<subseteq> cast g'"
    and ask: "\<And>t p. (i, t, p) \<in> set (asking c') \<Longrightarrow> (i, t, p) \<in> set (asking c)"
  shows "counted N g' c' i r"
proof -
  obtain G where "i \<in> G" "G \<subseteq> N" "votes c i (currentTerm r) = card G"
    and G: "\<And>p. p \<in> G \<Longrightarrow> (i, currentTerm r, p) \<notin> set (asking c) \<and> (\<exists>vl. (p, currentTerm r, i, vl) \<in> cast g \<and> newer (rlog r) vl)"
    using assms(1) unfolding counted_def by blast
  moreover have "(i, currentTerm r, p) \<notin> set (asking c') \<and> (\<exists>vl. (p, currentTerm r, i, vl) \<in> cast g' \<and> newer (rlog r) vl)" if "p \<in> G" for p
    using G [OF that] ask assms(3) by blast
  ultimately show ?thesis unfolding counted_def assms(2) by blast
qed

lemma cand_ok_mono:
  assumes "cand_ok N g c i r" "votes c' i = votes c i" "cast g \<subseteq> cast g'" "dterm g' i = dterm g i"
    and "\<And>t p. (i, t, p) \<in> set (asking c') \<Longrightarrow> (i, t, p) \<in> set (asking c)"
    and "\<And>p args. (p, args) \<in> set (vote_reqs c') \<Longrightarrow> CandidateID args = i \<Longrightarrow> (p, args) \<in> set (vote_reqs c)"
  shows "cand_ok N g' c' i r"
  using assms(1,4,6) counted_mono [OF _ assms(2,3,5)] unfolding cand_ok_def asked_def by simp blast

definition cluster_ok :: "('s \<Rightarrow> PersistentState option \<Rightarrow> bool) \<Rightarrow> NodeID set \<Rightarrow> history \<Rightarrow> 's cluster \<Rightarrow> bool" where
  "cluster_ok stored N g c \<longleftrightarrow> hist_ok N g \<and>
     (\<forall>i \<in> N. node_ok N g i (node c i) \<and> stored (storage (node c i)) (disk g i) \<and> cand_ok N g c i (node c i)) \<and>
     (\<forall>i t p. (i, t, p) \<in> set (asking c) \<longrightarrow> p \<noteq> i) \<and>
     (\<forall>p args. (p, args) \<in> set (vote_reqs c) \<longrightarrow> vote_req_ok N g p args) \<and>
     (\<forall>p args reply. (p, args, reply) \<in> set (vote_reps c) \<longrightarrow> (p, args) \<in> set (vote_reqs c) \<and> vote_rep_ok g p args reply) \<and>
     (\<forall>p args. (p, args) \<in> set (app_reqs c) \<longrightarrow> app_req_ok N g p args) \<and>
     (\<forall>p args reply. (p, args, reply) \<in> set (app_reps c) \<longrightarrow> (p, args) \<in> set (app_reqs c) \<and> app_rep_ok g p args reply) \<and>
     (\<forall>i msg. (i, msg) \<in> set (applied c) \<longrightarrow> applied_ok g msg)"

lemma cluster_okD:
  assumes "cluster_ok stored N g c"
  shows "hist_ok N g" "\<And>i. i \<in> N \<Longrightarrow> node_ok N g i (node c i)" "\<And>i. i \<in> N \<Longrightarrow> stored (storage (node c i)) (disk g i)"
    "\<And>i. i \<in> N \<Longrightarrow> cand_ok N g c i (node c i)" "\<And>i t p. (i, t, p) \<in> set (asking c) \<Longrightarrow> p \<noteq> i"
    "\<And>p args. (p, args) \<in> set (vote_reqs c) \<Longrightarrow> vote_req_ok N g p args"
    "\<And>p args reply. (p, args, reply) \<in> set (vote_reps c) \<Longrightarrow> (p, args) \<in> set (vote_reqs c)"
    "\<And>p args reply. (p, args, reply) \<in> set (vote_reps c) \<Longrightarrow> vote_rep_ok g p args reply"
    "\<And>p args. (p, args) \<in> set (app_reqs c) \<Longrightarrow> app_req_ok N g p args"
    "\<And>p args reply. (p, args, reply) \<in> set (app_reps c) \<Longrightarrow> (p, args) \<in> set (app_reqs c)"
    "\<And>p args reply. (p, args, reply) \<in> set (app_reps c) \<Longrightarrow> app_rep_ok g p args reply"
    "\<And>i msg. (i, msg) \<in> set (applied c) \<Longrightarrow> applied_ok g msg"
  using assms unfolding cluster_ok_def by blast+

text \<open>A message stays true while the history grows.\<close>

lemma messages_mono:
  assumes ok: "hist_ok N g" and gr: "grows i g g'"
  shows "vote_req_ok N g p vargs \<Longrightarrow> vote_req_ok N g' p vargs" "vote_rep_ok g p vargs vrep \<Longrightarrow> vote_rep_ok g' p vargs vrep"
    "app_req_ok N g p args \<Longrightarrow> app_req_ok N g' p args"
    "app_req_ok N g p args \<Longrightarrow> app_rep_ok g p args rep \<Longrightarrow> app_rep_ok g' p args rep" "applied_ok g msg \<Longrightarrow> applied_ok g' msg"
proof -
  note G = growsD [OF gr]
  show "vote_req_ok N g p vargs \<Longrightarrow> vote_req_ok N g' p vargs"
    using grows_dterm [OF gr, of "CandidateID vargs"] order_trans by (auto simp: vote_req_ok_def)
  show "vote_rep_ok g p vargs vrep \<Longrightarrow> vote_rep_ok g' p vargs vrep" using G(3) unfolding vote_rep_ok_def by blast
  note tk = tlog_take [OF G(7)]
  show "app_req_ok N g' p args" if a: "app_req_ok N g p args"
  proof -
    let ?t = "aeTerm args" and ?k = "PrevLogIndex args + length (Entries args)"
    have k: "?k < length (tlog g ?t)" using a by (simp add: app_req_ok_def Let_def)
    obtain z where z: "tlog g' ?t = tlog g ?t @ z" using G(7) [of ?t] by (auto simp: prefix_def)
    have "committed_upto g' ?t (tlog g' ?t) (LeaderCommit args)"
      using a z committed_upto_mono [OF ok G(7) G(11), of ?t "tlog g ?t" "LeaderCommit args" ?t "tlog g' ?t"]
      by (simp add: app_req_ok_def Let_def)
    moreover have "PrevLogTerm args = eTerm (tlog g' ?t ! PrevLogIndex args)"
      using a z k by (simp add: app_req_ok_def Let_def nth_append)
    moreover have "take (length (Entries args)) (drop (Suc (PrevLogIndex args)) (tlog g' ?t)) =
        take (length (Entries args)) (drop (Suc (PrevLogIndex args)) (tlog g ?t))" using z k by simp
    moreover have "?k < length (tlog g' ?t)" using z k by simp
    moreover have "\<exists>l. won g' ?t = Some (LeaderID args, l)" using a G(5) unfolding app_req_ok_def Let_def by blast
    ultimately show ?thesis using a unfolding app_req_ok_def Let_def by presburger
  qed
  show "app_rep_ok g' p args rep" if a: "app_req_ok N g p args" "app_rep_ok g p args rep"
  proof -
    have "tlog g' (aeTerm args) ! n = tlog g (aeTerm args) ! n" if "n \<le> PrevLogIndex args + length (Entries args)" for n
      using a(1) that tk(3) [of n "aeTerm args"] by (simp add: app_req_ok_def Let_def)
    then show ?thesis using a(2) G(9) by (auto simp: app_rep_ok_def)
  qed
  show "applied_ok g' msg" if a: "applied_ok g msg"
  proof -
    obtain t n where t: "(t, n) \<in> commits g" "CommandIndex msg \<le> n" "MsgCommand msg = Command (tlog g t ! CommandIndex msg)"
      using a by (auto simp: applied_ok_def)
    have "n < length (tlog g t)" using commit_acked [OF ok t(1)] by blast
    then have "tlog g' t ! CommandIndex msg = tlog g t ! CommandIndex msg" using t(2) tk(3) [of "CommandIndex msg" t] by simp
    then show ?thesis using t G(11) unfolding applied_ok_def by (metis subsetD)
  qed
qed

text \<open>An action of node \<open>i\<close>: the rest of the cluster keeps its invariant.\<close>

lemma cluster_step:
  assumes C: "cluster_ok stored N g c" and hk: "hist_ok N g'" and gr: "grows i g g'" and n: "node_ok N g' i r'" "stored (storage r') (disk g' i)"
    and c': "node c' = (node c)(i := r')" "\<And>j. j \<noteq> i \<Longrightarrow> votes c' j = votes c j"
    and ask: "\<And>j t p. (j, t, p) \<in> set (asking c') \<Longrightarrow> (j, t, p) \<in> set (asking c) \<or> j = i \<and> p \<noteq> i"
    and vq: "\<And>p args. (p, args) \<in> set (vote_reqs c') \<Longrightarrow> (p, args) \<in> set (vote_reqs c) \<or> CandidateID args = i \<and> vote_req_ok N g' p args"
      "set (vote_reqs c) \<subseteq> set (vote_reqs c')"
    and vp: "\<And>p args reply. (p, args, reply) \<in> set (vote_reps c') \<Longrightarrow> (p, args, reply) \<in> set (vote_reps c) \<or>
        (p, args) \<in> set (vote_reqs c) \<and> vote_rep_ok g' p args reply"
    and aq: "\<And>p args. (p, args) \<in> set (app_reqs c') \<Longrightarrow> (p, args) \<in> set (app_reqs c) \<or> app_req_ok N g' p args"
      "set (app_reqs c) \<subseteq> set (app_reqs c')"
    and ap: "\<And>p args reply. (p, args, reply) \<in> set (app_reps c') \<Longrightarrow> (p, args, reply) \<in> set (app_reps c) \<or>
        (p, args) \<in> set (app_reqs c) \<and> app_rep_ok g' p args reply"
    and ad: "\<And>j msg. (j, msg) \<in> set (applied c') \<Longrightarrow> (j, msg) \<in> set (applied c) \<or> applied_ok g' msg"
    and cd: "cand_ok N g' c' i r'"
  shows "cluster_ok stored N g' c'"
proof -
  note D = cluster_okD [OF C] and G = growsD [OF gr]
  note M = messages_mono [OF D(1) gr]
  have "node_ok N g' j (node c' j) \<and> stored (storage (node c' j)) (disk g' j) \<and> cand_ok N g' c' j (node c' j)" if j: "j \<in> N" for j
  proof (cases "j = i")
    case True
    then show ?thesis using n c' cd by simp
  next
    case False
    have "cand_ok N g' c' j (node c j)"
    proof (rule cand_ok_mono [OF D(4) [OF j] c'(2) [OF False] G(3)])
      show "dterm g' j = dterm g j" using G(1) [OF False] by (simp add: dterm_def)
      show "(j, t, p) \<in> set (asking c)" if "(j, t, p) \<in> set (asking c')" for t p using ask [OF that] False by blast
      show "(p, args) \<in> set (vote_reqs c)" if "(p, args) \<in> set (vote_reqs c')" "CandidateID args = j" for p args
        using vq(1) [OF that(1)] that(2) False by blast
    qed
    then show ?thesis
      using node_ok_other [OF D(1) D(2) [OF j] gr False] D(3) [OF j] c'(1) G(1) [OF False] False by simp
  qed
  moreover have "vote_req_ok N g' p args" if "(p, args) \<in> set (vote_reqs c')" for p args
    using vq(1) [OF that] D(6) M(1) by blast
  moreover have "(p, args) \<in> set (vote_reqs c') \<and> vote_rep_ok g' p args reply" if "(p, args, reply) \<in> set (vote_reps c')" for p args reply
    using vp [OF that] D(7,8) M(2) vq(2) by blast
  moreover have "app_req_ok N g' p args" if "(p, args) \<in> set (app_reqs c')" for p args
    using aq(1) [OF that] D(9) M(3) by blast
  moreover have "(p, args) \<in> set (app_reqs c') \<and> app_rep_ok g' p args reply" if "(p, args, reply) \<in> set (app_reps c')" for p args reply
    using ap [OF that] D(9-11) M(4) aq(2) by blast
  moreover have "applied_ok g' msg" if "(j, msg) \<in> set (applied c')" for j msg
    using ad [OF that] D(12) M(5) by blast
  moreover have "p \<noteq> j" if "(j, t, p) \<in> set (asking c')" for j t p using ask [OF that] D(5) by blast
  ultimately show ?thesis using hk unfolding cluster_ok_def by blast
qed

end
