(* ===== verification/Raft_Handlers.thy ===== *)
theory Raft_Handlers
  imports Raft_Invariant
begin

text \<open>
  The handlers of \<open>internal/raft\<close> keep the invariant: for each of them, the history after it, in the
  locale \<open>stable_storage\<close>, for every storage that keeps its promises. A handler is assumed to have reported
  no storage error.
\<close>

section \<open>Handlers\<close>

lemma reset_sel [simp]:
  "rid (resetElectionDeadlineLocked ck r) = rid r" "peers (resetElectionDeadlineLocked ck r) = peers r"
  "currentTerm (resetElectionDeadlineLocked ck r) = currentTerm r" "votedFor (resetElectionDeadlineLocked ck r) = votedFor r"
  "rlog (resetElectionDeadlineLocked ck r) = rlog r" "rstate (resetElectionDeadlineLocked ck r) = rstate r"
  "commitIndex (resetElectionDeadlineLocked ck r) = commitIndex r" "lastApplied (resetElectionDeadlineLocked ck r) = lastApplied r"
  "nextIndex (resetElectionDeadlineLocked ck r) = nextIndex r" "matchIndex (resetElectionDeadlineLocked ck r) = matchIndex r"
  "storage (resetElectionDeadlineLocked ck r) = storage r" "logged (resetElectionDeadlineLocked ck r) = logged r"
  "node_ok N g i (resetElectionDeadlineLocked ck r) = node_ok N g i r"
  by (simp_all add: resetElectionDeadlineLocked_def Let_def)

lemma becomeFollower_sel [simp]:
  "rid (becomeFollowerLocked ck t r) = rid r" "peers (becomeFollowerLocked ck t r) = peers r"
  "currentTerm (becomeFollowerLocked ck t r) = t" "votedFor (becomeFollowerLocked ck t r) = NoNode"
  "rlog (becomeFollowerLocked ck t r) = rlog r" "rstate (becomeFollowerLocked ck t r) = Follower"
  "commitIndex (becomeFollowerLocked ck t r) = commitIndex r" "lastApplied (becomeFollowerLocked ck t r) = lastApplied r"
  "storage (becomeFollowerLocked ck t r) = storage r" "logged (becomeFollowerLocked ck t r) = logged r"
  by (simp_all add: becomeFollowerLocked_def)

text \<open>A new role or vote in the same or a later term.\<close>

lemma no_vote_yet:
  assumes n: "node_ok N g i r" and v: "(i, t, cd, vl) \<in> cast g"
  shows "\<not> currentTerm r < t"
  using order_trans [OF node_voteD(1) [OF n v] node_diskD(4) [OF n]] by simp

lemma node_ok_step_down:
  assumes ok: "hist_ok N g" and n: "node_ok N g i r" and t: "currentTerm r < t"
  shows "node_ok N g i (becomeFollowerLocked ck t r)"
proof (rule node_ok_volatile [OF ok n])
  show "keeps_log N g i r (becomeFollowerLocked ck t r)"
    using no_vote_yet [OF n] t by (auto simp: keeps_log_def)
qed

lemma node_ok_follow:
  assumes ok: "hist_ok N g" and n: "node_ok N g i r"
  shows "node_ok N g i (r\<lparr>rstate := Follower, leaderID := l\<rparr>)"
proof (rule node_ok_volatile [OF ok n])
  show "keeps_log N g i r (r\<lparr>rstate := Follower, leaderID := l\<rparr>)"
    using node_voteD(3) [OF n] by (auto simp: keeps_log_def)
qed

definition handled :: "('s \<Rightarrow> PersistentState option \<Rightarrow> bool) \<Rightarrow> NodeID set \<Rightarrow> history \<Rightarrow> NodeID \<Rightarrow> 's Raft \<Rightarrow> history \<Rightarrow> bool" where
  "handled stored N g i r' g' \<longleftrightarrow> hist_ok N g' \<and> node_ok N g' i r' \<and> grows i g g' \<and> stored (storage r') (disk g' i)"

text \<open>A handler that does not touch a candidacy.\<close>

definition quiet :: "'s Raft \<Rightarrow> 's Raft \<Rightarrow> bool" where
  "quiet r r' \<longleftrightarrow> (rstate r' = Candidate \<longrightarrow> rstate r = Candidate \<and> currentTerm r' = currentTerm r \<and> rlog r' = rlog r)"

lemma cand_keep:
  assumes c: "cand_ok N g c i r" and q: "quiet r r'" and gr: "grows i g g'" and n: "node_ok N g' i r'"
    and same: "votes c' i = votes c i" "\<And>t p. (i, t, p) \<in> set (asking c') \<Longrightarrow> (i, t, p) \<in> set (asking c)"
      "\<And>p args. (p, args) \<in> set (vote_reqs c') \<Longrightarrow> CandidateID args = i \<Longrightarrow> (p, args) \<in> set (vote_reqs c)"
  shows "cand_ok N g' c' i r'"
proof (cases "rstate r' = Candidate")
  case True
  then have r: "rstate r = Candidate" "currentTerm r' = currentTerm r" "rlog r' = rlog r" using q by (auto simp: quiet_def)
  have d: "dterm g i = currentTerm r" using c r by (simp add: cand_ok_def)
  then have "dterm g' i = dterm g i" using growsD(2) [OF gr] node_diskD(4) [OF n] r by simp
  from cand_ok_mono [OF c same(1) growsD(3) [OF gr] this same(2,3)] have "cand_ok N g' c' i r" by simp
  then show ?thesis using r unfolding cand_ok_def asked_def counted_def by simp
qed (simp add: cand_ok_def)

lemma last_log: "good g (rlog r) \<Longrightarrow> lastLogTermIndexLocked r = (eTerm (last (rlog r)), length (rlog r) - 1)"
  by (simp add: lastLogTermIndexLocked_def lastIndexLocked_def Let_def last_conv_nth good_def)

lemma up_to_date_iff:
  assumes "good g (rlog r)" "candidateUpToDateLocked args r"
  shows "up_to_date args (rlog r)"
proof -
  have "0 < length (rlog r)" using assms(1) by (auto simp: good_def)
  then show ?thesis
    using assms(2) last_log [OF assms(1)] by (auto simp: candidateUpToDateLocked_def up_to_date_def Let_def split: if_splits)
qed

lemma conflict_back_le: "conflict_back l t ci \<le> ci"
  by (induction l t ci rule: conflict_back.induct) (auto intro: le_SucI)

lemma app_req_okD:
  assumes "app_req_ok N g p args"
  shows "p \<in> N" "p \<noteq> LeaderID args" "\<exists>l. won g (aeTerm args) = Some (LeaderID args, l)"
    "PrevLogIndex args + length (Entries args) < length (tlog g (aeTerm args))"
    "PrevLogTerm args = eTerm (tlog g (aeTerm args) ! PrevLogIndex args)"
    "Entries args = take (length (Entries args)) (drop (Suc (PrevLogIndex args)) (tlog g (aeTerm args)))"
    "LeaderCommit args \<le> PrevLogIndex args + length (Entries args)" "committed_upto g (aeTerm args) (tlog g (aeTerm args)) (LeaderCommit args)"
  using assms unfolding app_req_ok_def Let_def by blast+

text \<open>The part of \<open>AppendEntries\<close> after the consistency check.\<close>

definition accept :: "AppendEntriesArgs \<Rightarrow> LogEntry list \<Rightarrow> 's Raft \<Rightarrow> 's Raft" where
  "accept args l r = (if LeaderCommit args > commitIndex r
     then r\<lparr>rlog := l, commitIndex := min (LeaderCommit args) (PrevLogIndex args + length (Entries args))\<rparr> else r\<lparr>rlog := l\<rparr>)"

lemma accept_sel [simp]:
  "currentTerm (accept args l r) = currentTerm r" "votedFor (accept args l r) = votedFor r" "rlog (accept args l r) = l"
  "rstate (accept args l r) = rstate r" "storage (accept args l r) = storage r" "logged (accept args l r) = logged r"
  "saved (accept args l r) = saved (r\<lparr>rlog := l\<rparr>)"
  by (simp_all add: accept_def saved_def)

lemma node_ok_accept:
  assumes ok: "hist_ok N g" and n: "node_ok N g i r" and st: "rstate r = Follower" and a: "app_req_ok N g i args" and t: "currentTerm r = aeTerm args"
    and prev: "PrevLogIndex args < length (rlog r)" "eTerm (rlog r ! PrevLogIndex args) = PrevLogTerm args"
    and l: "append_loop (rlog r) (PrevLogIndex args + 1) (Entries args) = (l, ch)"
  defines "g' \<equiv> (if ch then save i (r\<lparr>rlog := l\<rparr>) g else g)" and "k \<equiv> PrevLogIndex args + length (Entries args)"
  shows "node_ok N g' i (accept args l r)" "grows i g g'" "hist_ok N g'" "tlog g' = tlog g" "\<not> ch \<Longrightarrow> l = rlog r"
    "k < length l" "take (Suc k) l = take (Suc k) (tlog g (aeTerm args))"
proof -
  let ?t = "aeTerm args" and ?L = "tlog g (aeTerm args)" and ?r = "r\<lparr>rlog := l\<rparr>"
  note A = app_req_okD [OF a]
  have T: "terms_ok N g" using ok by (simp add: hist_ok_def)
  have "?L \<noteq> []" using A(4) by auto
  then have gd: "good g (rlog r)" "good g ?L" using node_diskD(1) [OF n] good_tlog [OF T, of ?t] by auto
  have "take (Suc (PrevLogIndex args)) (rlog r) = take (Suc (PrevLogIndex args)) ?L"
    using good_match [OF gd, of "PrevLogIndex args"] prev A(4,5) by simp
  then have sp: "take (Suc k) l = take (Suc k) ?L \<and> Suc k \<le> length l \<and> (\<not> ch \<longrightarrow> l = rlog r) \<and> (ch \<longrightarrow> l = take (Suc k) ?L) \<and>
      (\<forall>m. m \<le> length (rlog r) \<longrightarrow> m \<le> length ?L \<longrightarrow> take m (rlog r) = take m ?L \<longrightarrow> m \<le> length l \<and> take m l = take m ?L)"
    using append_loop_spec [OF gd, of "PrevLogIndex args + 1" "Entries args" l ch] prev(1) A(4,6) l by (simp add: k_def)
  then show k: "k < length l" "take (Suc k) l = take (Suc k) ?L" and "\<not> ch \<Longrightarrow> l = rlog r" by auto
  show "hist_ok N g'" "tlog g' = tlog g" using ok by (simp_all add: g'_def)
  show gr: "grows i g g'" using save_grows [of g i ?r] node_diskD(4) [OF n] grows_refl by (simp add: g'_def)
  have n': "node_ok N g' i ?r"
  proof (cases ch)
    case True
    obtain l0 where w: "won g (currentTerm r) = Some (LeaderID args, l0)" using A(3) t by auto
    have p: "prefix l (tlog g (currentTerm r))" "l \<noteq> []" using sp True t by (metis take_is_prefix, auto)
    have "node_ok N (save i ?r g) i ?r"
      by (rule node_ok_replace [OF ok n st w p]) (use sp t in auto)
    then show ?thesis using True by (simp add: g'_def)
  next
    case False
    then have "?r = r" "g' = g" using sp by (simp_all add: g'_def)
    then show ?thesis using n by simp
  qed
  have c: "LeaderCommit args \<le> k" "take (Suc (LeaderCommit args)) l = take (Suc (LeaderCommit args)) ?L" "LeaderCommit args < length l"
    using A(7) k by (auto simp: k_def) (metis Suc_le_mono min.absorb1 take_take)
  have "committed_upto g' ?t l (LeaderCommit args)"
    using committed_upto_mono [OF ok growsD(7) [OF gr] growsD(11) [OF gr] A(8) _ c(2,3), of ?t] by simp
  then show "node_ok N g' i (accept args l r)"
    using n' node_ok_commitIndex [OF n', of "LeaderCommit args"] c(1) t by (simp add: accept_def k_def min_def)
qed

context stable_storage
begin

lemma persisted:
  assumes "stored (storage r) x" "logged (persistLocked S r) = []"
  obtains s where "persistLocked S r = r\<lparr>storage := s\<rparr>" "stored s (Some (saved r))"
proof -
  obtain s e where sv: "Save S (storage r) (saved r) = (s, e)" by fastforce
  have "e = None" using assms(2) sv by (cases e) (auto simp: persistLocked_def saved_def)
  then show ?thesis using that [of s] save_law [OF assms(1)] sv by (auto simp: persistLocked_def saved_def)
qed

lemma handled_refl:
  assumes "hist_ok N g" "node_ok N g i r" "stored (storage r) (disk g i)"
  shows "handled stored N g i r g"
  using assms grows_refl by (simp add: handled_def)

lemma handled_save:
  assumes "hist_ok N g" "node_ok N g i r" "stored (storage r) (disk g i)" "logged (persistLocked S r) = []"
  shows "handled stored N g i (persistLocked S r) (save i r g)" "\<exists>s. persistLocked S r = r\<lparr>storage := s\<rparr>"
proof -
  obtain s where s: "persistLocked S r = r\<lparr>storage := s\<rparr>" "stored s (Some (saved r))"
    using persisted [OF assms(3,4)] .
  then show "\<exists>s. persistLocked S r = r\<lparr>storage := s\<rparr>" by blast
  show "handled stored N g i (persistLocked S r) (save i r g)"
    using assms(1) node_ok_save [OF assms(1,2)] s by (simp add: handled_def)
qed

lemma handled_vote:
  assumes ok: "hist_ok N g" and n: "node_ok N g i r" and st: "stored (storage r) (disk g i)" "logged (persistLocked S r) = []" and v: "votedFor r \<in> N"
  defines "g' \<equiv> vote_cast i r (save i r g)"
  shows "handled stored N g i (persistLocked S r) g'" "(i, currentTerm r, votedFor r, rlog r) \<in> cast g'"
    "\<exists>s. persistLocked S r = r\<lparr>storage := s\<rparr>"
proof -
  obtain s where s: "persistLocked S r = r\<lparr>storage := s\<rparr>" "stored s (Some (saved r))" using persisted [OF st] .
  then show "\<exists>s. persistLocked S r = r\<lparr>storage := s\<rparr>" by blast
  have ok': "hist_ok N (save i r g)" using ok by simp
  have d: "disk (save i r g) i = Some (saved r)" by simp
  note V = node_ok_vote [OF ok' node_ok_save(1) [OF ok n] d v]
  have "grows i g g'" unfolding g'_def using node_ok_save(2) [OF ok n] V(3) by (rule grows_trans)
  then show "handled stored N g i (persistLocked S r) g'" using V s unfolding g'_def by (simp add: handled_def)
  show "(i, currentTerm r, votedFor r, rlog r) \<in> cast g'" by (simp add: g'_def vote_cast_def)
qed

lemma RequestVote_handled:
  assumes ok: "hist_ok N g" and n: "node_ok N g i r" and st: "stored (storage r) (disk g i)"
    and cd: "CandidateID args \<in> N" "NoNode \<notin> N" and h: "RequestVote S ck args r = (r', reply)" "logged r' = []"
  shows "\<exists>g'. handled stored N g i r' g' \<and> quiet r r' \<and> vote_rep_ok g' i args reply"
proof -
  define changed where "changed = (rvTerm args > currentTerm r)"
  define r1 where "r1 = (if changed then becomeFollowerLocked ck (rvTerm args) r else r)"
  have n1: "node_ok N g i r1" using n node_ok_step_down [OF ok n] by (simp add: r1_def changed_def)
  have st1: "stored (storage r1) (disk g i)" using st by (simp add: r1_def)
  have q1: "quiet r r1" by (simp add: r1_def quiet_def)
  define granted where "granted \<longleftrightarrow> \<not> (votedFor r1 \<noteq> NoNode \<and> votedFor r1 \<noteq> CandidateID args) \<and> candidateUpToDateLocked args r1"
  define r2 where "r2 = resetElectionDeadlineLocked ck (r1\<lparr>votedFor := CandidateID args\<rparr>)"
  have rv: "RequestVote S ck args r =
    (if rvTerm args < currentTerm r1 then (r1, \<lparr>rvrTerm = currentTerm r1, VoteGranted = False\<rparr>)
     else (if granted then persistLocked S r2 else if changed then persistLocked S r1 else r1,
       \<lparr>rvrTerm = currentTerm r1, VoteGranted = granted\<rparr>))"
    by (simp add: RequestVote_def r1_def r2_def granted_def changed_def Let_def)
  consider "rvTerm args < currentTerm r1 \<or> \<not> granted \<and> \<not> changed" | "\<not> rvTerm args < currentTerm r1" "\<not> granted" "changed"
    | "\<not> rvTerm args < currentTerm r1" granted by blast
  then show ?thesis
  proof cases
    case 1
    then have "r' = r1" "\<not> VoteGranted reply" using rv h(1) by (auto split: if_splits)
    then show ?thesis using handled_refl [OF ok n1 st1] q1 unfolding vote_rep_ok_def by blast
  next
    case 2
    then have r: "r' = persistLocked S r1" "\<not> VoteGranted reply" using rv h(1) by auto
    note H = handled_save [OF ok n1 st1 h(2) [unfolded r(1)]]
    have "quiet r r'" using q1 H(2) r(1) by (auto simp: quiet_def)
    then show ?thesis using H(1) r unfolding vote_rep_ok_def by blast
  next
    case 3
    then have r: "r' = persistLocked S r2" using rv h(1) by auto
    have t: "currentTerm r1 = rvTerm args" using 3(1) by (auto simp: r1_def changed_def)
    have "votedFor r2 = c" if v: "(i, currentTerm r1, c, vl) \<in> cast g" for c vl
    proof -
      have "votedFor r1 = c" using node_voteD(3) [OF n1 v] by simp
      moreover have "c \<in> N" using ok v unfolding hist_ok_def votes_ok_def by blast
      ultimately show ?thesis using 3(2) cd(2) by (auto simp: granted_def r2_def)
    qed
    moreover have "rstate r1 = Candidate \<longrightarrow> (\<forall>l. won g (currentTerm r1) \<noteq> Some (i, l))" "rstate r1 = Leader \<longrightarrow> lead_ok N g i r2"
      using n1 by (auto simp: node_ok_def node_role_def lead_ok_def r2_def)
    ultimately have "keeps_log N g i r1 r2" by (auto simp: keeps_log_def r2_def)
    then have n2: "node_ok N g i r2" by (rule node_ok_volatile [OF ok n1])
    have st2: "stored (storage r2) (disk g i)" "votedFor r2 \<in> N" using st1 cd(1) by (simp_all add: r2_def)
    note V = handled_vote [OF ok n2 st2(1) h(2) [unfolded r] st2(2)]
    have "up_to_date args (rlog r1)" using up_to_date_iff [OF node_diskD(1) [OF n1]] 3(2) by (simp add: granted_def)
    then have "vote_rep_ok (vote_cast i r2 (save i r2 g)) i args reply"
      using V(2) t unfolding vote_rep_ok_def by (auto simp: r2_def)
    moreover have "quiet r r'" using q1 V(3) r by (auto simp: quiet_def r2_def)
    ultimately show ?thesis using V(1) r by blast
  qed
qed

lemma startElection_handled:
  assumes ok: "hist_ok N g" and n: "node_ok N g i r" and st: "stored (storage r) (disk g i)" and i: "i \<in> N"
    and inc: "currentTerm r < currentTerm r + 1" and h: "startElection S ck r = (r', args)" "logged r' = []"
  shows "\<exists>g'. handled stored N g i r' g' \<and> rstate r' = Candidate \<and> currentTerm r' = currentTerm r + 1 \<and> rlog r' = rlog r \<and>
    peers r' = peers r \<and> dterm g' i = currentTerm r' \<and> (i, currentTerm r', i, rlog r') \<in> cast g' \<and>
    rvTerm args = currentTerm r' \<and> CandidateID args = i \<and>
    LastLogTerm args = eTerm (last (rlog r')) \<and> Suc (LastLogIndex args) = length (rlog r')"
proof -
  define r1 where "r1 = resetElectionDeadlineLocked ck
    (r\<lparr>rstate := Candidate, currentTerm := currentTerm r + 1, votedFor := rid r, leaderID := NoNode\<rparr>)"
  have rid: "rid r = i" using n by (simp add: node_ok_def node_static_def)
  have r: "r' = persistLocked S r1" using h(1) by (simp add: startElection_def r1_def Let_def split: prod.splits)
  have "t \<le> currentTerm r" if "won g t = Some (i, l)" for t l
    using n that node_diskD(4) [OF n] order_trans unfolding node_ok_def node_role_def by blast
  then have "won g (currentTerm r + 1) \<noteq> Some (i, l)" for l using inc by fastforce
  then have "keeps_log N g i r r1" using no_vote_yet [OF n] inc by (auto simp: keeps_log_def r1_def)
  then have n1: "node_ok N g i r1" by (rule node_ok_volatile [OF ok n])
  have st1: "stored (storage r1) (disk g i)" "votedFor r1 \<in> N" using st rid i by (simp_all add: r1_def)
  note V = handled_vote [OF ok n1 st1(1) h(2) [unfolded r] st1(2)]
  obtain s where s: "r' = r1\<lparr>storage := s\<rparr>" using V(3) r by blast
  have gd: "good g (rlog r')" "rlog r' = rlog r1" using node_diskD(1) [OF n1] s by simp_all
  have "args = \<lparr>rvTerm = currentTerm r', CandidateID = rid r', LastLogIndex = length (rlog r') - 1, LastLogTerm = eTerm (last (rlog r'))\<rparr>"
    using h(1) last_log [OF gd(1)] r by (simp add: startElection_def r1_def Let_def split: prod.splits)
  moreover have "0 < length (rlog r')" using gd(1) by (auto simp: good_def)
  moreover have "rstate r' = Candidate" "currentTerm r' = currentTerm r + 1" "rlog r' = rlog r" "peers r' = peers r" "rid r' = i"
    using s rid by (simp_all add: r1_def)
  moreover have "currentTerm r1 = currentTerm r + 1" "votedFor r1 = i" "rlog r1 = rlog r" using rid by (simp_all add: r1_def)
  ultimately show ?thesis
    using V(1,2) [folded r] by (intro exI [of _ "vote_cast i r1 (save i r1 g)"]) simp
qed

text \<open>A state that may have been saved.\<close>

lemma handled_if_saved:
  assumes "hist_ok N g" "node_ok N g i r" "stored (storage r) (disk g i)" "r' = (if b then persistLocked S r else r)" "logged r' = []"
  shows "\<exists>g' s. handled stored N g i r' g' \<and> r' = r\<lparr>storage := s\<rparr>"
proof (cases b)
  case True
  then show ?thesis using handled_save [OF assms(1-3)] assms(4,5) by auto
next
  case False
  then have "r' = r\<lparr>storage := storage r\<rparr>" using assms(4) by simp
  then show ?thesis using handled_refl [OF assms(1-3)] by (metis Raft.surjective Raft.update_convs(16))
qed

lemma accept_handled:
  assumes ok: "hist_ok N g" and n: "node_ok N g i r" and st: "stored (storage r) (disk g i)" and f: "rstate r = Follower"
    and a: "app_req_ok N g i args" and t: "currentTerm r = aeTerm args"
    and prev: "PrevLogIndex args < length (rlog r)" "eTerm (rlog r ! PrevLogIndex args) = PrevLogTerm args"
    and l: "append_loop (rlog r) (PrevLogIndex args + 1) (Entries args) = (l, ch)"
    and r': "r' = (if changed \<or> ch then persistLocked S (accept args l r) else accept args l r)" "logged r' = []" "Success reply"
  shows "\<exists>g'. handled stored N g i r' g' \<and> app_rep_ok g' i args reply \<and> rstate r' = Follower"
proof -
  let ?k = "PrevLogIndex args + length (Entries args)" and ?r = "accept args l r" and ?t = "aeTerm args"
  define g1 where "g1 = (if ch then save i (r\<lparr>rlog := l\<rparr>) g else g)"
  define g2 where "g2 = (if changed \<or> ch then save i ?r g1 else g1)"
  note A = node_ok_accept [OF ok n f a t prev l, folded g1_def]
  have n2: "node_ok N g2 i ?r" "grows i g1 g2" "hist_ok N g2" "tlog g2 = tlog g"
    using node_ok_save [OF A(3,1)] A(1,3,4) grows_refl by (simp_all add: g2_def)
  have "stored (storage r') (disk g2 i) \<and> (\<exists>s. r' = ?r\<lparr>storage := s\<rparr>)"
  proof (cases "changed \<or> ch")
    case True
    obtain s where "persistLocked S ?r = ?r\<lparr>storage := s\<rparr>" "stored s (Some (saved ?r))"
      using persisted [of ?r "disk g i"] st r' True by auto
    then show ?thesis using True r' by (auto simp: g2_def)
  next
    case False
    then show ?thesis using st r' by (auto simp: g1_def g2_def intro: exI [of _ "storage ?r"])
  qed
  then obtain s where s: "stored (storage r') (disk g2 i)" "r' = ?r\<lparr>storage := s\<rparr>" by blast
  have n3: "node_ok N g2 i r'" using n2(1) s(2) by simp
  have k: "?k < length (tlog g2 (currentTerm r'))" "?k < length (rlog r')" "take (Suc ?k) (rlog r') = take (Suc ?k) (tlog g2 (currentTerm r'))"
    using app_req_okD(4) [OF a] A(6,7) t s(2) n2(4) by auto
  let ?g = "ack i (currentTerm r') ?k g2"
  note K = node_ok_ack [OF n2(3) n3 k]
  have "handled stored N g i r' ?g"
    using K s(1) grows_trans [OF grows_trans [OF A(2) n2(2)] K(3)] by (simp add: handled_def)
  moreover have "app_rep_ok ?g i args reply"
    using r'(3) s(2) t by (auto simp: app_rep_ok_def ack_def)
  moreover have "rstate r' = Follower" using s(2) f by simp
  ultimately show ?thesis by blast
qed

lemma AppendEntries_handled:
  assumes ok: "hist_ok N g" and n: "node_ok N g i r" and st: "stored (storage r) (disk g i)"
    and a: "app_req_ok N g i args" and h: "AppendEntries S ck args r = (r', reply)" "logged r' = []"
  shows "\<exists>g'. handled stored N g i r' g' \<and> quiet r r' \<and> app_rep_ok g' i args reply"
proof (cases "aeTerm args < currentTerm r")
  case True
  then have "r' = r" "\<not> Success reply" "ConflictIndex reply = 0" using h(1) by (auto simp: AppendEntries_def)
  then show ?thesis using handled_refl [OF ok n st] by (auto simp: app_rep_ok_def quiet_def)
next
  case False
  define changed where "changed = (aeTerm args > currentTerm r)"
  define r1 where "r1 = (if changed then becomeFollowerLocked ck (aeTerm args) r else r)"
  define r2 where "r2 = resetElectionDeadlineLocked ck (r1\<lparr>rstate := Follower, leaderID := LeaderID args\<rparr>)"
  have n1: "node_ok N g i r1" using n node_ok_step_down [OF ok n] by (simp add: r1_def changed_def)
  have n2: "node_ok N g i r2" unfolding r2_def using node_ok_follow [OF ok n1] by simp
  have r2: "stored (storage r2) (disk g i)" "rstate r2 = Follower" "currentTerm r2 = aeTerm args"
    using st False by (auto simp: r2_def r1_def changed_def)
  obtain l ch where l: "append_loop (rlog r2) (PrevLogIndex args + 1) (Entries args) = (l, ch)" by fastforce
  have len: "0 < length (rlog r2)" using node_diskD(1) [OF n2] by (auto simp: good_def)
  define reject where "reject \<longleftrightarrow> PrevLogIndex args > lastIndexLocked r2 \<or> eTerm (rlog r2 ! PrevLogIndex args) \<noteq> PrevLogTerm args"
  define ci where "ci = (if PrevLogIndex args > lastIndexLocked r2 then lastIndexLocked r2 + 1
    else conflict_back (rlog r2) (eTerm (rlog r2 ! PrevLogIndex args)) (PrevLogIndex args))"
  have ae: "AppendEntries S ck args r = (if reject
      then (if changed then persistLocked S r2 else r2, \<lparr>aerTerm = currentTerm r2, Success = False, ConflictIndex = ci\<rparr>)
      else (if changed \<or> ch then persistLocked S (accept args l r2) else accept args l r2,
        \<lparr>aerTerm = currentTerm r2, Success = True, ConflictIndex = 0\<rparr>))"
  proof -
    have p: "(if aeTerm args > currentTerm r then (becomeFollowerLocked ck (aeTerm args) r, True) else (r, False)) = (r1, changed)"
      by (simp add: r1_def changed_def)
    show ?thesis
      unfolding AppendEntries_def p Let_def prod.case r2_def [symmetric] l using False by (simp add: reject_def ci_def accept_def)
  qed
  show ?thesis
  proof (cases reject)
    case True
    have "r' = (if changed then persistLocked S r2 else r2)" "\<not> Success reply" "ConflictIndex reply \<le> PrevLogIndex args"
      using h(1) True ae conflict_back_le [of "rlog r2"] by (auto simp: ci_def)
    moreover from this obtain g' s where "handled stored N g i r' g'" "r' = r2\<lparr>storage := s\<rparr>"
      using handled_if_saved [OF ok n2 r2(1), of r' changed] h(2) by blast
    moreover from this have "rstate r' = Follower" using r2(2) by simp
    ultimately show ?thesis unfolding app_rep_ok_def quiet_def by auto
  next
    case acc: False
    then have "PrevLogIndex args \<le> length (rlog r2) - 1" and p2: "eTerm (rlog r2 ! PrevLogIndex args) = PrevLogTerm args"
      by (simp_all add: reject_def lastIndexLocked_def not_less)
    then have p: "PrevLogIndex args < length (rlog r2)" using len by (metis One_nat_def Suc_pred le_imp_less_Suc)
    have r': "r' = (if changed \<or> ch then persistLocked S (accept args l r2) else accept args l r2)" "Success reply"
      using h(1) acc ae by auto
    show ?thesis
      using accept_handled [OF ok n2 r2(1,2) a r2(3) p p2 l r'(1) h(2) r'(2)] unfolding quiet_def by auto
  qed
qed

end

end
