(* ===== verification/Raft_Actions.thy ===== *)
theory Raft_Actions
  imports Raft_Handlers
begin

text \<open>
  The remaining handlers, and the actions of an election: \<open>cluster_ok\<close> is kept when a node starts one, and when it counts a
  vote and perhaps wins.
\<close>

section \<open>The remaining handlers\<close>

lemma node_ok_nextIndex:
  assumes ok: "hist_ok N g" and n: "node_ok N g i r" and st: "rstate r = Leader" and k: "k \<le> length (rlog r)"
  shows "node_ok N g i (r\<lparr>nextIndex := (nextIndex r)(p := k)\<rparr>)"
proof (rule node_ok_volatile [OF ok n])
  have "lead_ok N g i (r\<lparr>nextIndex := (nextIndex r)(p := k)\<rparr>)" using n st k by (auto simp: node_ok_def node_role_def lead_ok_def)
  then show "keeps_log N g i r (r\<lparr>nextIndex := (nextIndex r)(p := k)\<rparr>)"
    using node_voteD(3) [OF n] st by (auto simp: keeps_log_def)
qed

lemma node_ok_matched:
  assumes ok: "hist_ok N g" and n: "node_ok N g i r" and st: "rstate r = Leader" and t: "currentTerm r = aeTerm args"
    and a: "app_req_ok N g p args" "app_rep_ok g p args reply" "Success reply"
  defines "m \<equiv> PrevLogIndex args + length (Entries args)"
  shows "node_ok N g i (r\<lparr>matchIndex := (matchIndex r)(p := m), nextIndex := (nextIndex r)(p := m + 1)\<rparr>)"
proof (rule node_ok_volatile [OF ok n])
  let ?r = "r\<lparr>matchIndex := (matchIndex r)(p := m), nextIndex := (nextIndex r)(p := m + 1)\<rparr>"
  have lo: "lead_ok N g i r" using n st by (simp add: node_ok_def node_role_def)
  have "m < length (rlog r)" using app_req_okD(4) [OF a(1)] lo t by (simp add: lead_ok_def m_def)
  moreover have "(p, currentTerm r, k) \<in> acks g" if "k \<le> m" "eTerm (rlog r ! k) = currentTerm r" for k
    using a(2,3) that lo t by (simp add: app_rep_ok_def lead_ok_def m_def)
  ultimately have "lead_ok N g i ?r" using lo by (auto simp: lead_ok_def)
  then show "keeps_log N g i r ?r" using node_voteD(3) [OF n] st by (auto simp: keeps_log_def)
qed

lemma advance_sel [simp]:
  "rstate (advanceCommitLocked r) = rstate r" "storage (advanceCommitLocked r) = storage r" "logged (advanceCommitLocked r) = logged r"
  "currentTerm (advanceCommitLocked r) = currentTerm r"
  using advance_loop_cases [of r "lastIndexLocked r"] unfolding advanceCommitLocked_def by (cases; simp)+

context stable_storage
begin

lemma replicate_reply_handled:
  assumes ok: "hist_ok N g" and n: "node_ok N g i r" and st: "stored (storage r) (disk g i)"
    and a: "app_req_ok N g p args" "app_rep_ok g p args reply"
  shows "\<exists>g'. handled stored N g i (replicate_reply ck p args reply r) g' \<and> quiet r (replicate_reply ck p args reply r)"
proof -
  let ?m = "PrevLogIndex args + length (Entries args)"
  let ?r1 = "r\<lparr>matchIndex := (matchIndex r)(p := ?m), nextIndex := (nextIndex r)(p := ?m + 1)\<rparr>"
  consider "rstate r \<noteq> Leader \<or> currentTerm r \<noteq> aeTerm args"
    | "rstate r = Leader" "currentTerm r = aeTerm args" "aerTerm reply > currentTerm r"
    | "rstate r = Leader" "currentTerm r = aeTerm args" "\<not> aerTerm reply > currentTerm r" "Success reply"
    | "rstate r = Leader" "currentTerm r = aeTerm args" "\<not> aerTerm reply > currentTerm r" "\<not> Success reply" by blast
  then show ?thesis
  proof cases
    case 1
    then have "replicate_reply ck p args reply r = r" by (auto simp: replicate_reply_def)
    then show ?thesis using handled_refl [OF ok n st] by (auto simp: quiet_def)
  next
    case 2
    then have "replicate_reply ck p args reply r = becomeFollowerLocked ck (aerTerm reply) r" by (simp add: replicate_reply_def)
    moreover have "handled stored N g i (becomeFollowerLocked ck (aerTerm reply) r) g"
      using handled_refl [OF ok node_ok_step_down [OF ok n 2(3)]] st by simp
    ultimately show ?thesis by (auto simp: quiet_def)
  next
    case 3
    have n1: "node_ok N g i ?r1" by (rule node_ok_matched [OF ok n 3(1,2) a 3(4)])
    have e: "replicate_reply ck p args reply r = advanceCommitLocked ?r1" using 3 by (simp add: replicate_reply_def Let_def)
    obtain g' where "hist_ok N g'" "node_ok N g' i (advanceCommitLocked ?r1)" "grows i g g'" "disk g' i = disk g i"
      using node_ok_advance [OF ok n1] 3(1) by auto
    then have "handled stored N g i (advanceCommitLocked ?r1) g'" using st by (simp add: handled_def)
    moreover have "quiet r (advanceCommitLocked ?r1)" using 3(1) by (simp add: quiet_def)
    ultimately show ?thesis unfolding e by blast
  next
    case 4
    have lo: "lead_ok N g i r" using n 4(1) by (simp add: node_ok_def node_role_def)
    define k where "k = (if ConflictIndex reply > 0 then ConflictIndex reply else if nextIndex r p > 1 then nextIndex r p - 1 else nextIndex r p)"
    have "replicate_reply ck p args reply r = r\<lparr>nextIndex := (nextIndex r)(p := k)\<rparr>" using 4 by (simp add: replicate_reply_def k_def)
    moreover have "ConflictIndex reply \<le> length (rlog r)" "nextIndex r p \<le> length (rlog r)"
      using a app_req_okD(4) [OF a(1)] 4(2,4) lo by (auto simp: app_rep_ok_def lead_ok_def)
    then have "node_ok N g i (r\<lparr>nextIndex := (nextIndex r)(p := k)\<rparr>)"
      by (intro node_ok_nextIndex [OF ok n 4(1)]) (auto simp: k_def)
    then have "handled stored N g i (r\<lparr>nextIndex := (nextIndex r)(p := k)\<rparr>) g" using handled_refl [OF ok] st by simp
    ultimately show ?thesis using 4(1) by (auto simp: quiet_def)
  qed
qed

lemma Start_handled:
  assumes ok: "hist_ok N g" and n: "node_ok N g i r" and st: "stored (storage r) (disk g i)"
    and h: "Start S command r = (r', res)" "logged r' = []"
  shows "\<exists>g'. handled stored N g i r' g' \<and> quiet r r'"
proof (cases "rstate r = Leader")
  case True
  let ?e = "\<lparr>eTerm = currentTerm r, Command = command\<rparr>"
  let ?r = "r\<lparr>rlog := rlog r @ [?e]\<rparr>"
  have r: "r' = persistLocked S ?r" using h(1) True by (auto simp: Start_def Let_def)
  obtain s where s: "persistLocked S ?r = ?r\<lparr>storage := s\<rparr>" "stored s (Some (saved ?r))"
    using persisted [of ?r "disk g i"] st h(2) r by auto
  have r': "r' = r\<lparr>rlog := rlog r @ [?e], storage := s\<rparr>" using r s(1) by simp
  note P = node_ok_propose [OF ok n True _ r']
  have "saved r' = saved ?r" by (simp add: r' saved_def)
  then have "handled stored N g i r' (save i r' (extend_term (currentTerm r) ?e g))"
    using P s(2) by (simp add: handled_def r')
  then show ?thesis using True r' by (auto simp: quiet_def)
next
  case False
  then show ?thesis using h(1) handled_refl [OF ok n st] by (auto simp: Start_def quiet_def)
qed

lemma apply_next_handled:
  assumes ok: "hist_ok N g" and n: "node_ok N g i r" and st: "stored (storage r) (disk g i)"
    and h: "apply_next r = Ret (Some (r', msg))"
  shows "handled stored N g i r' g" "quiet r r'" "applied_ok g msg" "logged r' = logged r"
proof -
  let ?k = "lastApplied r + 1"
  have r: "r' = r\<lparr>lastApplied := ?k\<rparr>" "msg = \<lparr>CommandValid = True, MsgCommand = Command (rlog r ! ?k), CommandIndex = ?k\<rparr>"
    "?k \<le> commitIndex r" using h by (auto simp: apply_next_def Let_def split: if_splits)
  have "node_ok N g i r'"
    using n r(1,3) by (auto simp: node_ok_def node_static_def node_disk_def node_vote_def node_ack_def node_role_def lead_ok_def node_commit_def)
  then show "handled stored N g i r' g" using handled_refl [OF ok] st r(1) by simp
  show "quiet r r'" "logged r' = logged r" using r(1) by (simp_all add: quiet_def)
  obtain t m where c: "(t, m) \<in> commits g" "commitIndex r \<le> m" "take (Suc (commitIndex r)) (rlog r) = take (Suc (commitIndex r)) (tlog g t)"
    using n r(3) unfolding node_ok_def node_commit_def committed_upto_def by auto
  have "rlog r ! ?k = tlog g t ! ?k" using c(3) r(3) by (metis le_imp_less_Suc nth_take)
  then show "applied_ok g msg" using c(1,2) r unfolding applied_ok_def by (intro exI [of _ t] exI [of _ m]) simp
qed

text \<open>A node that starts takes up what its storage holds.\<close>

lemma raft_New_fresh:
  assumes st: "stored s (disk g i)" and lg: "logged (raft_New S ck c s) = []" and ne: "Log (view (disk g i)) \<noteq> []"
  shows "fresh g i (raft_New S ck c s)" "storage (raft_New S ck c s) = s" "rid (raft_New S ck c s) = ID c" "peers (raft_New S ck c s) = Peers c"
proof -
  obtain y where y: "Load S s = Inr y"
    using lg by (cases "Load S s") (auto simp: raft_New_def Let_def loadPersistedState_def)
  then have x: "y = disk g i" using load_law [OF st] by simp
  show "fresh g i (raft_New S ck c s)" "storage (raft_New S ck c s) = s" "rid (raft_New S ck c s) = ID c" "peers (raft_New S ck c s) = Peers c"
    using y x ne by (cases "disk g i"; simp add: raft_New_def Let_def loadPersistedState_def fresh_def dterm_def view_def)+
qed

section \<open>Actions\<close>

text \<open>An action that leaves candidacies alone.\<close>

lemma cluster_quiet:
  assumes C: "cluster_ok stored N g c" and i: "i \<in> N" and h: "handled stored N g i r' g'" and q: "quiet (node c i) r'"
    and c': "node c' = (node c)(i := r')" "votes c' = votes c" "set (asking c') \<subseteq> set (asking c)" "vote_reqs c' = vote_reqs c"
    and vp: "\<And>p args reply. (p, args, reply) \<in> set (vote_reps c') \<Longrightarrow> (p, args, reply) \<in> set (vote_reps c) \<or>
        (p, args) \<in> set (vote_reqs c) \<and> vote_rep_ok g' p args reply"
    and aq: "\<And>p args. (p, args) \<in> set (app_reqs c') \<Longrightarrow> (p, args) \<in> set (app_reqs c) \<or> app_req_ok N g' p args"
      "set (app_reqs c) \<subseteq> set (app_reqs c')"
    and ap: "\<And>p args reply. (p, args, reply) \<in> set (app_reps c') \<Longrightarrow> (p, args, reply) \<in> set (app_reps c) \<or>
        (p, args) \<in> set (app_reqs c) \<and> app_rep_ok g' p args reply"
    and ad: "\<And>j msg. (j, msg) \<in> set (applied c') \<Longrightarrow> (j, msg) \<in> set (applied c) \<or> applied_ok g' msg"
  shows "cluster_ok stored N g' c'"
proof (rule cluster_step [OF C _ _ _ _ c'(1) _ _ _ _ vp aq ap ad])
  show gr: "hist_ok N g'" "grows i g g'" "node_ok N g' i r'" "stored (storage r') (disk g' i)" using h by (auto simp: handled_def)
  show "cand_ok N g' c' i r'"
    by (rule cand_keep [OF cluster_okD(4) [OF C i] q gr(2,3)]) (use c' in auto)
qed (use c' in auto)

lemma act_election:
  assumes C: "cluster_ok stored N g c" and i: "i \<in> N" and a: "raft_act S crash cfgs (ElectionTimeout i ck) c = Some c'"
    and lg: "logged (node c' i) = []" and inc: "currentTerm (node c i) < currentTerm (node c i) + 1"
  shows "\<exists>g'. cluster_ok stored N g' c'"
proof -
  note D = cluster_okD [OF C]
  obtain r' args where h: "startElection S ck (node c i) = (r', args)" by fastforce
  have c': "c' = (set_node i r' c)\<lparr>votes := (votes c)(i := (votes c i)(rvTerm args := 1)),
      asking := map (\<lambda>p. (i, rvTerm args, p)) (peers r') @ asking c, vote_reqs := map (\<lambda>p. (p, args)) (peers r') @ vote_reqs c\<rparr>"
    using a h by simp
  then have "logged r' = []" using lg by (simp add: set_node_def)
  from startElection_handled [OF D(1) D(2) [OF i] D(3) [OF i] i inc h this] obtain g' where g': "handled stored N g i r' g'"
    "rstate r' = Candidate" "currentTerm r' = currentTerm (node c i) + 1" "rlog r' = rlog (node c i)" "peers r' = peers (node c i)"
    "dterm g' i = currentTerm r'" "(i, currentTerm r', i, rlog r') \<in> cast g'" "rvTerm args = currentTerm r'" "CandidateID args = i"
    "LastLogTerm args = eTerm (last (rlog r'))" "Suc (LastLogIndex args) = length (rlog r')" by blast
  have H: "hist_ok N g'" "grows i g g'" "node_ok N g' i r'" "stored (storage r') (disk g' i)" using g'(1) by (auto simp: handled_def)
  have peers: "set (peers r') = N - {i}" using H(3) by (simp add: node_ok_def node_static_def)
  have low: "eTerm e < currentTerm r'" if "e \<in> set (rlog r')" for e
    using node_diskD(3,4) [OF D(2) [OF i]] that inc g'(3,4) by (metis le_less_trans order_trans)
  have old: "rvTerm x \<noteq> currentTerm r'" if "(p, x) \<in> set (vote_reqs c)" "CandidateID x = i" for p x
  proof -
    have "rvTerm x \<le> dterm g i" using D(6) [OF that(1)] that(2) by (simp add: vote_req_ok_def)
    then show ?thesis using node_diskD(4) [OF D(2) [OF i]] inc g'(3) by auto
  qed
  have "(i, currentTerm r', i) \<notin> set (asking c')"
    using D(5) [of i "currentTerm r'" i] peers by (auto simp: c')
  then have "counted N g' c' i r'"
    unfolding counted_def using i g'(7,8) by (intro exI [of _ "{i}"]) (auto simp: c' newer_def)
  moreover have "asked c' i r'" unfolding asked_def using old g'(8-11) by (auto simp: c')
  moreover have "currentTerm r' \<noteq> 0" using inc g'(3) by auto
  ultimately have cd: "cand_ok N g' c' i r'" unfolding cand_ok_def using g'(6) low by blast
  have "cluster_ok stored N g' c'"
  proof (rule cluster_step [OF C H _ _ _ _ _ _ _ _ _ _ cd])
    show "node c' = (node c)(i := r')" by (simp add: c' set_node_def)
    show "votes c' j = votes c j" if "j \<noteq> i" for j using that by (simp add: c' set_node_def)
    show "(j, t, p) \<in> set (asking c) \<or> j = i \<and> p \<noteq> i" if "(j, t, p) \<in> set (asking c')" for j t p
      using that peers by (auto simp: c')
    have "vote_req_ok N g' q args" if "q \<in> set (peers r')" for q
      using that peers i unfolding vote_req_ok_def g'(6,8,9) by simp
    then show "(p, x) \<in> set (vote_reqs c) \<or> CandidateID x = i \<and> vote_req_ok N g' p x" if "(p, x) \<in> set (vote_reqs c')" for p x
      using that g'(9) by (auto simp: c')
  qed (simp_all add: c' set_node_def)
  then show ?thesis ..
qed

text \<open>A majority of counted votes is a quorum.\<close>

lemma majority_quorum:
  assumes s: "node_static N i r" and fin: "finite N" and G: "G \<subseteq> N" "majority r \<le> card G"
  shows "quorum N G"
proof -
  have "card (N - {i}) = length (peers r)" using s distinct_card [of "peers r"] by (simp add: node_static_def)
  then have "card N = Suc (length (peers r))" using s fin card_Suc_Diff1 [of N i] by (simp add: node_static_def)
  then show ?thesis using G by (auto simp: quorum_def majority_def clusterSize_def)
qed

text \<open>A granted vote that has not been counted adds one to the votes.\<close>

lemma counted_more:
  assumes C: "cluster_ok stored N g c" and i: "i \<in> N" and st: "rstate (node c i) = Candidate" "currentTerm (node c i) = rvTerm args"
    and cd: "CandidateID args = i" and m: "(p, args, reply) \<in> set (vote_reps c)" "(i, rvTerm args, p) \<in> set (asking c)" "VoteGranted reply"
  shows "\<exists>G. G \<subseteq> N \<and> i \<in> G \<and> card G = votes c i (rvTerm args) + 1 \<and>
    (\<forall>q \<in> G. (i, rvTerm args, q) \<notin> set (removeAll (i, rvTerm args, p) (asking c)) \<and>
       (\<exists>vl. (q, rvTerm args, i, vl) \<in> cast g \<and> newer (rlog (node c i)) vl))"
proof -
  note D = cluster_okD [OF C]
  let ?r = "node c i" and ?t = "rvTerm args"
  have K: "asked c i ?r" "counted N g c i ?r" using D(4) [OF i] st by (auto simp: cand_ok_def)
  obtain G where G: "i \<in> G" "G \<subseteq> N" "votes c i ?t = card G"
    "\<And>q. q \<in> G \<Longrightarrow> (i, ?t, q) \<notin> set (asking c) \<and> (\<exists>vl. (q, ?t, i, vl) \<in> cast g \<and> newer (rlog ?r) vl)"
    using K(2) st unfolding counted_def by auto
  obtain vl where vl: "(p, ?t, i, vl) \<in> cast g" "up_to_date args vl"
    using D(8) [OF m(1)] m(3) cd by (auto simp: vote_rep_ok_def)
  have "newer (rlog ?r) vl" using K(1) D(7) [OF m(1)] cd st vl(2) by (auto simp: asked_def newer_def up_to_date_def)
  moreover have "p \<in> N" using D(6) [OF D(7) [OF m(1)]] by (simp add: vote_req_ok_def)
  moreover have "card (insert p G) = Suc (card G)"
    using G(2,4) m(2) D(1) by (intro card_insert_disjoint) (auto simp: hist_ok_def intro: finite_subset)
  ultimately show ?thesis
    using G vl by (intro exI [of _ "insert p G"]) auto
qed

text \<open>The answer to a vote request: a vote is counted, or the election is won.\<close>

lemma act_receive_vote:
  assumes C: "cluster_ok stored N g c" and i: "i \<in> N" and a: "raft_act S crash cfgs (ReceiveVote i p args reply ck) c = Some c'"
    and lg: "logged (node c' i) = []"
  shows "\<exists>g'. cluster_ok stored N g' c'"
proof -
  note D = cluster_okD [OF C]
  let ?r = "node c i" and ?t = "rvTerm args"
  obtain r' v where h: "vote_reply S ck ?t reply ?r (votes c i ?t) = (r', v)" by fastforce
  have en: "(p, args, reply) \<in> set (vote_reps c)" "CandidateID args = i" "(i, ?t, p) \<in> set (asking c)"
    and c': "c' = (set_node i r' c)\<lparr>votes := (votes c)(i := (votes c i)(?t := v)), asking := removeAll (i, ?t, p) (asking c)\<rparr>"
    using a h by (auto split: if_splits)
  have lg': "logged r' = []" using lg by (simp add: c' set_node_def)
  have rest: "cluster_ok stored N g' c'" if H: "handled stored N g i r' g'" and cd: "cand_ok N g' c' i r'" for g'
  proof (rule cluster_step [OF C _ _ _ _ _ _ _ _ _ _ _ _ _ _ cd])
    show "hist_ok N g'" "grows i g g'" "node_ok N g' i r'" "stored (storage r') (disk g' i)" using H by (auto simp: handled_def)
    show "node c' = (node c)(i := r')" by (simp add: c' set_node_def)
    show "votes c' j = votes c j" if "j \<noteq> i" for j using that by (simp add: c' set_node_def)
    show "(j, t, x) \<in> set (asking c) \<or> j = i \<and> x \<noteq> i" if "(j, t, x) \<in> set (asking c')" for j t x using that by (simp add: c')
  qed (simp_all add: c' set_node_def)
  have unchanged: ?thesis if "r' = ?r" "v = votes c i ?t"
  proof -
    have "cand_ok N g c' i ?r"
      by (rule cand_ok_mono [OF D(4) [OF i]]) (use that in \<open>auto simp: c' set_node_def\<close>)
    then show ?thesis using rest handled_refl [OF D(1) D(2) [OF i] D(3) [OF i]] that(1) by blast
  qed
  show ?thesis
  proof (cases "rstate ?r = Candidate \<and> currentTerm ?r = ?t")
    case False
    then show ?thesis using h unchanged by (auto simp: vote_reply_def split: if_splits)
  next
    case cand: True
    consider "rvrTerm reply > currentTerm ?r" | "\<not> rvrTerm reply > currentTerm ?r" "\<not> VoteGranted reply"
      | "\<not> rvrTerm reply > currentTerm ?r" "VoteGranted reply" by blast
    then show ?thesis
    proof cases
      case 1
      have r': "r' = persistLocked S (becomeFollowerLocked ck (rvrTerm reply) ?r)" using h cand 1 by (auto simp: vote_reply_def)
      note H = handled_save [OF D(1) node_ok_step_down [OF D(1) D(2) [OF i] 1], of ck, simplified, OF D(3) [OF i] lg' [unfolded r']]
      have "rstate r' = Follower" using H(2) r' by auto
      then show ?thesis using rest [OF H(1) [folded r']] by (auto simp: cand_ok_def)
    next
      case 2
      then show ?thesis using h cand unchanged by (auto simp: vote_reply_def)
    next
      case 3
      from counted_more [OF C i _ _ en(2,1,3) 3(2)] cand obtain G where G: "G \<subseteq> N" "i \<in> G" "card G = votes c i ?t + 1"
        "\<And>q. q \<in> G \<Longrightarrow> (i, ?t, q) \<notin> set (removeAll (i, ?t, p) (asking c)) \<and> (\<exists>vl. (q, ?t, i, vl) \<in> cast g \<and> newer (rlog ?r) vl)"
        by blast
      have K: "dterm g i = currentTerm ?r" "currentTerm ?r \<noteq> 0" "\<forall>e \<in> set (rlog ?r). eTerm e < currentTerm ?r" "asked c i ?r"
        using D(4) [OF i] cand by (auto simp: cand_ok_def)
      have v: "v = card G" using h cand 3 G(3) by (auto simp: vote_reply_def split: if_splits)
      show ?thesis
      proof (cases "majority ?r \<le> card G")
        case True
        then have r': "r' = becomeLeaderLocked ?r" using h cand 3 G(3) by (auto simp: vote_reply_def)
        have "node_static N i ?r" "finite N" using D(1) D(2) [OF i] by (simp_all add: node_ok_def hist_ok_def)
        then have "quorum N G" by (rule majority_quorum [OF _ _ G(1) True])
        note W = node_ok_win [OF D(1) D(2) [OF i] _ K(1,2,3) this]
        have "handled stored N g i r' (win ?t i (rlog ?r) g)"
          using W G(4) cand D(3) [OF i] r' by (simp add: handled_def becomeLeaderLocked_def win_def Let_def)
        moreover have "rstate r' = Leader" using r' cand by (simp add: becomeLeaderLocked_def Let_def)
        ultimately show ?thesis using rest by (auto simp: cand_ok_def)
      next
        case False
        then have r': "r' = ?r" using h cand 3 G(3) by (auto simp: vote_reply_def)
        have "counted N g c' i ?r" unfolding counted_def using G v cand by (intro exI [of _ G]) (auto simp: c' set_node_def)
        moreover have "asked c' i ?r" using K(4) by (simp add: asked_def c' set_node_def)
        ultimately have "cand_ok N g c' i r'" using K(1-3) r' by (simp add: cand_ok_def)
        then show ?thesis using rest handled_refl [OF D(1) D(2) [OF i] D(3) [OF i]] r' by blast
      qed
    qed
  qed
qed

end

end
