(* ===== verification/Raft_Safety.thy ===== *)
theory Raft_Safety
  imports Raft_Actions
begin

text \<open>
  Every reachable cluster satisfies the invariant, and what follows from it: at most one leader in a term, equal logs,
  committed commands that are never lost or contradicted, and no access out of range. All of it is proved once in
  the locale \<open>stable_storage\<close>.
\<close>

section \<open>Terms\<close>

text \<open>Only an election makes a new term, so after \<open>k\<close> actions no term is above \<open>k\<close>.\<close>

definition terms_le :: "NodeID set \<Rightarrow> nat \<Rightarrow> 's cluster \<Rightarrow> bool" where
  "terms_le N k c \<longleftrightarrow> (\<forall>i \<in> N. unat (currentTerm (node c i)) \<le> k) \<and>
     (\<forall>p args. (p, args) \<in> set (vote_reqs c) \<longrightarrow> unat (rvTerm args) \<le> k) \<and>
     (\<forall>p args reply. (p, args, reply) \<in> set (vote_reps c) \<longrightarrow> unat (rvrTerm reply) \<le> k) \<and>
     (\<forall>p args. (p, args) \<in> set (app_reqs c) \<longrightarrow> unat (aeTerm args) \<le> k) \<and>
     (\<forall>p args reply. (p, args, reply) \<in> set (app_reps c) \<longrightarrow> unat (aerTerm reply) \<le> k)"

lemma unat_inc: "unat (t + 1 :: u64) \<le> Suc (unat t)"
  by (simp add: unat_word_ariths)

lemma persist_sel [simp]:
  "currentTerm (persistLocked S r) = currentTerm r" "peers (persistLocked S r) = peers r" "rstate (persistLocked S r) = rstate r"
  by (auto simp: persistLocked_def split: prod.splits option.splits)

lemma handler_terms:
  "startElection S ck r = (r', vargs) \<Longrightarrow> currentTerm r' = currentTerm r + 1 \<and> rvTerm vargs = currentTerm r + 1"
  "RequestVote S ck vargs r = (r', vrep) \<Longrightarrow> currentTerm r' \<in> {currentTerm r, rvTerm vargs} \<and> rvrTerm vrep = currentTerm r'"
  "vote_reply S ck t vrep r v = (r', v') \<Longrightarrow> currentTerm r' \<in> {currentTerm r, rvrTerm vrep}"
  "Start S command r = (r', res) \<Longrightarrow> currentTerm r' = currentTerm r"
  "AppendEntries S ck args r = (r', rep) \<Longrightarrow> currentTerm r' \<in> {currentTerm r, aeTerm args} \<and> aerTerm rep = currentTerm r'"
  "replicate_args r p = Ret (Some args) \<Longrightarrow> aeTerm args = currentTerm r"
  "currentTerm (replicate_reply ck p args rep r) \<in> {currentTerm r, aerTerm rep}"
  "apply_next r = Ret (Some (r', msg)) \<Longrightarrow> currentTerm r' = currentTerm r"
  by (auto simp: startElection_def RequestVote_def vote_reply_def Start_def AppendEntries_def replicate_args_def replicate_reply_def
      apply_next_def becomeLeaderLocked_def Let_def split: if_splits prod.splits)

lemma set_node_sel [simp]:
  "vote_reqs (set_node i r c) = vote_reqs c" "vote_reps (set_node i r c) = vote_reps c" "app_reqs (set_node i r c) = app_reqs c"
  "app_reps (set_node i r c) = app_reps c" "asking (set_node i r c) = asking c" "votes (set_node i r c) = votes c"
  "applied (set_node i r c) = applied c" "node (set_node i r c) = (node c)(i := r)"
  by (simp_all add: set_node_def)

text \<open>Nothing that was logged is forgotten.\<close>

lemma persist_logged: "logged (persistLocked S r) = [] \<Longrightarrow> logged r = []"
  by (auto simp: persistLocked_def split: prod.splits option.splits)

lemma handler_logged:
  "startElection S ck r = (r', vargs) \<Longrightarrow> logged r' = [] \<Longrightarrow> logged r = []"
  "RequestVote S ck vargs r = (r', vrep) \<Longrightarrow> logged r' = [] \<Longrightarrow> logged r = []"
  "vote_reply S ck t vrep r v = (r', v') \<Longrightarrow> logged r' = [] \<Longrightarrow> logged r = []"
  "Start S command r = (r', res) \<Longrightarrow> logged r' = [] \<Longrightarrow> logged r = []"
  "AppendEntries S ck args r = (r', rep) \<Longrightarrow> logged r' = [] \<Longrightarrow> logged r = []"
  "logged (replicate_reply ck p args rep r) = [] \<Longrightarrow> logged r = []"
  "apply_next r = Ret (Some (r', msg)) \<Longrightarrow> logged r' = [] \<Longrightarrow> logged r = []"
  by (auto simp: startElection_def RequestVote_def vote_reply_def Start_def AppendEntries_def replicate_reply_def
      apply_next_def becomeLeaderLocked_def Let_def split: if_splits prod.splits dest!: persist_logged)

lemma act_logged:
  assumes "raft_act S crash cfgs a c = Some c'" "logged (node c' j) = []"
  shows "logged (node c j) = []"
  using assms
  by (cases a) (auto dest: handler_logged simp: Let_def split: prod.splits if_splits go.splits option.splits)

section \<open>Every action keeps the invariant\<close>

context stable_storage
begin

lemma act_deliver_vote:
  assumes C: "cluster_ok stored N g c" and p: "p \<in> N" "NoNode \<notin> N" and a: "raft_act S crash cfgs (DeliverVote p args ck) c = Some c'"
    and lg: "logged (node c' p) = []"
  shows "\<exists>g'. cluster_ok stored N g' c'"
proof -
  note D = cluster_okD [OF C]
  obtain r' reply where h: "RequestVote S ck args (node c p) = (r', reply)" by fastforce
  have en: "(p, args) \<in> set (vote_reqs c)" and c': "c' = (set_node p r' c)\<lparr>vote_reps := (p, args, reply) # vote_reps c\<rparr>"
    using a h by (auto split: if_splits)
  have lg': "logged r' = []" using lg by (simp add: c' set_node_def)
  have cd: "CandidateID args \<in> N" using D(6) [OF en] by (simp add: vote_req_ok_def)
  obtain g' where g': "handled stored N g p r' g'" "quiet (node c p) r'" "vote_rep_ok g' p args reply"
    using RequestVote_handled [OF D(1) D(2) [OF p(1)] D(3) [OF p(1)] cd p(2) h lg'] by blast
  have "cluster_ok stored N g' c'"
    by (rule cluster_quiet [OF C p(1) g'(1,2)]) (use g'(3) en in \<open>auto simp: c' set_node_def\<close>)
  then show ?thesis ..
qed

lemma act_propose:
  assumes C: "cluster_ok stored N g c" and i: "i \<in> N" and a: "raft_act S crash cfgs (Propose i command) c = Some c'"
    and lg: "logged (node c' i) = []"
  shows "\<exists>g'. cluster_ok stored N g' c'"
proof -
  note D = cluster_okD [OF C]
  obtain r' res where h: "Start S command (node c i) = (r', res)" by (metis surj_pair)
  have c': "c' = set_node i r' c" using a h by auto
  have lg': "logged r' = []" using lg by (simp add: c' set_node_def)
  obtain g' where g': "handled stored N g i r' g'" "quiet (node c i) r'"
    using Start_handled [OF D(1) D(2) [OF i] D(3) [OF i] h lg'] by blast
  have "cluster_ok stored N g' c'"
    by (rule cluster_quiet [OF C i g']) (auto simp: c' set_node_def)
  then show ?thesis ..
qed

text \<open>The request of a leader says what its log says.\<close>

lemma replicate_args_ok:
  assumes n: "node_ok N g i r" and h: "replicate_args r p = Ret (Some args)" "p \<in> N - {i}"
  shows "app_req_ok N g p args"
proof -
  define ni where "ni = (if nextIndex r p < 1 then 1 else nextIndex r p)"
  have st: "rstate r = Leader" and len: "\<not> length (rlog r) \<le> ni - 1" and ni: "1 \<le> ni"
    and args: "args = \<lparr>aeTerm = currentTerm r, LeaderID = rid r, PrevLogIndex = ni - 1,
          PrevLogTerm = eTerm (rlog r ! (ni - 1)), Entries = drop ni (rlog r), LeaderCommit = commitIndex r\<rparr>"
    using h(1) by (auto simp: replicate_args_def ni_def Let_def split: if_splits)
  have lo: "lead_ok N g i r" using n st by (simp add: node_ok_def node_role_def)
  have L: "rlog r = tlog g (currentTerm r)" using lo by (simp add: lead_ok_def)
  have "committed_upto g (currentTerm r) (rlog r) (commitIndex r)" using n by (simp add: node_ok_def node_commit_def)
  moreover from this have "commitIndex r < length (rlog r)" by (simp add: committed_upto_def)
  moreover have "rid r = i" using n by (simp add: node_ok_def node_static_def)
  ultimately show ?thesis
    using lo h(2) len ni args L by (auto simp: app_req_ok_def Let_def lead_ok_def)
qed

lemma act_send_append:
  assumes C: "cluster_ok stored N g c" and i: "i \<in> N" and a: "raft_act S crash cfgs (SendAppend i p) c = Some c'"
  shows "\<exists>g'. cluster_ok stored N g' c'"
proof -
  note D = cluster_okD [OF C]
  obtain args where h: "replicate_args (node c i) p = Ret (Some args)" "p \<in> set (peers (node c i))"
    and c': "c' = c\<lparr>app_reqs := (p, args) # app_reqs c\<rparr>"
    using a by (auto simp: broadcastAppendEntries_def split: if_splits go.splits option.splits)
  have "p \<in> N - {i}" using h(2) D(2) [OF i] by (simp add: node_ok_def node_static_def)
  then have ok: "app_req_ok N g p args" using replicate_args_ok [OF D(2) [OF i] h(1)] by blast
  have "cluster_ok stored N g c'"
    by (rule cluster_quiet [OF C i handled_refl [OF D(1) D(2) [OF i] D(3) [OF i]]]) (use ok in \<open>auto simp: c' quiet_def\<close>)
  then show ?thesis ..
qed

lemma act_deliver_append:
  assumes C: "cluster_ok stored N g c" and p: "p \<in> N" and a: "raft_act S crash cfgs (DeliverAppend p args ck) c = Some c'"
    and lg: "logged (node c' p) = []"
  shows "\<exists>g'. cluster_ok stored N g' c'"
proof -
  note D = cluster_okD [OF C]
  obtain r' reply where h: "AppendEntries S ck args (node c p) = (r', reply)" by fastforce
  have en: "(p, args) \<in> set (app_reqs c)" and c': "c' = (set_node p r' c)\<lparr>app_reps := (p, args, reply) # app_reps c\<rparr>"
    using a h by (auto split: if_splits)
  have lg': "logged r' = []" using lg by (simp add: c' set_node_def)
  obtain g' where g': "handled stored N g p r' g'" "quiet (node c p) r'" "app_rep_ok g' p args reply"
    using AppendEntries_handled [OF D(1) D(2) [OF p] D(3) [OF p] D(9) [OF en] h lg'] by blast
  have "cluster_ok stored N g' c'"
    by (rule cluster_quiet [OF C p g'(1,2)]) (use g'(3) en in \<open>auto simp: c' set_node_def\<close>)
  then show ?thesis ..
qed

lemma act_receive_append:
  assumes C: "cluster_ok stored N g c" and i: "i \<in> N" and a: "raft_act S crash cfgs (ReceiveAppend i p args reply ck) c = Some c'"
  shows "\<exists>g'. cluster_ok stored N g' c'"
proof -
  note D = cluster_okD [OF C]
  have en: "(p, args, reply) \<in> set (app_reps c)" and c': "c' = set_node i (replicate_reply ck p args reply (node c i)) c"
    using a by (auto split: if_splits)
  obtain g' where g': "handled stored N g i (replicate_reply ck p args reply (node c i)) g'"
    "quiet (node c i) (replicate_reply ck p args reply (node c i))"
    using replicate_reply_handled [OF D(1) D(2) [OF i] D(3) [OF i] D(9) [OF D(10) [OF en]] D(11) [OF en]] by blast
  have "cluster_ok stored N g' c'"
    by (rule cluster_quiet [OF C i g']) (auto simp: c' set_node_def)
  then show ?thesis ..
qed

lemma act_apply:
  assumes C: "cluster_ok stored N g c" and i: "i \<in> N" and a: "raft_act S crash cfgs (Apply i) c = Some c'"
  shows "\<exists>g'. cluster_ok stored N g' c'"
proof -
  note D = cluster_okD [OF C]
  obtain r' msg where h: "apply_next (node c i) = Ret (Some (r', msg))" and c': "c' = (set_node i r' c)\<lparr>applied := (i, msg) # applied c\<rparr>"
    using a by (auto split: go.splits option.splits)
  note A = apply_next_handled [OF D(1) D(2) [OF i] D(3) [OF i] h]
  have "cluster_ok stored N g c'"
    by (rule cluster_quiet [OF C i A(1,2)]) (use A(3) in \<open>auto simp: c' set_node_def\<close>)
  then show ?thesis ..
qed

lemma act_crash:
  assumes C: "cluster_ok stored N g c" and i: "i \<in> N" and w: "well_configured N cfgs" and a: "raft_act S crash cfgs (Crash i s ck) c = Some c'"
    and lg: "logged (node c' i) = []"
  shows "\<exists>g'. cluster_ok stored N g' c'"
proof -
  note D = cluster_okD [OF C]
  let ?n = "raft_New S ck (cfgs i) s"
  define r' where "r' = ?n\<lparr>logged := logged (node c i) @ logged ?n\<rparr>"
  have cr: "crash (storage (node c i)) s" and c': "c' = (set_node i r' c)\<lparr>asking := filter (\<lambda>(j, _). j \<noteq> i) (asking c)\<rparr>"
    using a by (auto simp: Let_def r'_def split: if_splits)
  have lg': "logged ?n = []" using lg by (simp add: c' set_node_def r'_def)
  have st: "stored s (disk g i)" using crash_law [OF D(3) [OF i] cr] .
  have ne: "Log (view (disk g i)) \<noteq> []" using node_diskD(1,2) [OF D(2) [OF i]] by (auto simp: good_def)
  note F = raft_New_fresh [OF st lg' ne]
  have "node_static N i ?n" using w i F(3,4) by (simp add: well_configured_def node_static_def)
  from node_ok_restart [OF D(2) [OF i] F(1) this] have "node_ok N g i r'" by (simp add: r'_def)
  then have "handled stored N g i r' g" using handled_refl [OF D(1)] st F(2) by (simp add: r'_def)
  moreover have "quiet (node c i) r'" using F(1) by (simp add: quiet_def fresh_def r'_def)
  ultimately have "cluster_ok stored N g c'"
    by (rule cluster_quiet [OF C i]) (auto simp: c' set_node_def)
  then show ?thesis ..
qed

lemma act_ok:
  assumes C: "cluster_ok stored N g c" and w: "well_configured N cfgs" and i: "actor a \<in> N" and a: "raft_act S crash cfgs a c = Some c'"
    and lg: "logged (node c' (actor a)) = []"
    and inc: "\<And>i ck. a = ElectionTimeout i ck \<Longrightarrow> currentTerm (node c i) < currentTerm (node c i) + 1"
  shows "\<exists>g'. cluster_ok stored N g' c'"
proof (cases a)
  case (ElectionTimeout i ck)
  show ?thesis using act_election [OF C _ a [unfolded ElectionTimeout]] i lg inc [OF ElectionTimeout] ElectionTimeout by simp
next
  case (DeliverVote p args ck)
  have "NoNode \<notin> N" using w by (simp add: well_configured_def)
  then show ?thesis using act_deliver_vote [OF C _ _ a [unfolded DeliverVote]] i lg DeliverVote by simp
next
  case (ReceiveVote i' p args reply ck)
  show ?thesis using act_receive_vote [OF C _ a [unfolded ReceiveVote]] i lg ReceiveVote by simp
next
  case (Propose i' command)
  show ?thesis using act_propose [OF C _ a [unfolded Propose]] i lg Propose by simp
next
  case (SendAppend i' p)
  show ?thesis using act_send_append [OF C _ a [unfolded SendAppend]] i SendAppend by simp
next
  case (DeliverAppend p args ck)
  show ?thesis using act_deliver_append [OF C _ a [unfolded DeliverAppend]] i lg DeliverAppend by simp
next
  case (ReceiveAppend i' p args reply ck)
  show ?thesis using act_receive_append [OF C _ a [unfolded ReceiveAppend]] i ReceiveAppend by simp
next
  case (Apply i')
  show ?thesis using act_apply [OF C _ a [unfolded Apply]] i Apply by simp
next
  case (Crash i' s ck)
  show ?thesis using act_crash [OF C _ w a [unfolded Crash]] i lg Crash by simp
qed

text \<open>An action adds at most one to the terms.\<close>

lemma set_node_terms:
  assumes "terms_le N k c" "unat (currentTerm r) \<le> Suc k"
  shows "terms_le N (Suc k) (set_node i r c)"
  using assms by (auto simp: terms_le_def set_node_def le_SucI)

lemma act_terms:
  assumes C: "cluster_ok stored N g c" and t: "terms_le N k c" and i: "actor a \<in> N" and a: "raft_act S crash cfgs a c = Some c'"
    and lg: "logged (node c' (actor a)) = []"
  shows "terms_le N (Suc k) c'"
proof (cases a)
  case (ElectionTimeout i ck)
  obtain r' args where h: "startElection S ck (node c i) = (r', args)" by fastforce
  have "unat (currentTerm (node c i) + 1) \<le> Suc k"
    using unat_inc [of "currentTerm (node c i)"] t i ElectionTimeout by (auto simp: terms_le_def intro: order_trans)
  then show ?thesis
    using a ElectionTimeout h handler_terms(1) [OF h] set_node_terms [OF t, of r' i] by (auto simp: terms_le_def set_node_def)
next
  case (DeliverVote p args ck)
  obtain r' reply where h: "RequestVote S ck args (node c p) = (r', reply)" by fastforce
  have "unat (currentTerm r') \<le> Suc k"
    using handler_terms(2) [OF h] t i a DeliverVote by (auto simp: terms_le_def le_SucI split: if_splits)
  then show ?thesis
    using a DeliverVote h handler_terms(2) [OF h] set_node_terms [OF t, of r' p] by (auto simp: terms_le_def split: if_splits)
next
  case (ReceiveVote i' p args reply ck)
  obtain r' v where h: "vote_reply S ck (rvTerm args) reply (node c i') (votes c i' (rvTerm args)) = (r', v)" by fastforce
  have "unat (currentTerm r') \<le> Suc k"
    using handler_terms(3) [OF h] t i a ReceiveVote by (auto simp: terms_le_def le_SucI split: if_splits)
  then show ?thesis
    using a ReceiveVote h set_node_terms [OF t, of r' i'] by (auto simp: terms_le_def split: if_splits)
next
  case (Propose i' command)
  obtain r' res where h: "Start S command (node c i') = (r', res)" by (metis surj_pair)
  then show ?thesis
    using a Propose handler_terms(4) [OF h] t i set_node_terms [OF t, of r' i'] by (auto simp: terms_le_def le_SucI)
next
  case (SendAppend i' p)
  then show ?thesis
    using a t i handler_terms(6) [of "node c i'" p] by (auto simp: terms_le_def le_SucI split: if_splits go.splits option.splits)
next
  case (DeliverAppend p args ck)
  obtain r' reply where h: "AppendEntries S ck args (node c p) = (r', reply)" by fastforce
  have "unat (currentTerm r') \<le> Suc k"
    using handler_terms(5) [OF h] t i a DeliverAppend by (auto simp: terms_le_def le_SucI split: if_splits)
  then show ?thesis
    using a DeliverAppend h handler_terms(5) [OF h] set_node_terms [OF t, of r' p] by (auto simp: terms_le_def split: if_splits)
next
  case (ReceiveAppend i' p args reply ck)
  have "unat (currentTerm (replicate_reply ck p args reply (node c i'))) \<le> Suc k"
    using handler_terms(7) [of ck p args reply "node c i'"] t i a ReceiveAppend by (auto simp: terms_le_def le_SucI split: if_splits)
  then show ?thesis
    using a ReceiveAppend set_node_terms [OF t, of _ i'] by (auto split: if_splits)
next
  case (Apply i')
  then obtain r' msg where h: "apply_next (node c i') = Ret (Some (r', msg))" "c' = (set_node i' r' c)\<lparr>applied := (i', msg) # applied c\<rparr>"
    using a by (auto split: go.splits option.splits)
  then show ?thesis
    using handler_terms(8) [OF h(1)] t i Apply set_node_terms [OF t, of r' i'] by (auto simp: terms_le_def le_SucI)
next
  case (Crash i' s ck)
  note D = cluster_okD [OF C]
  have N: "i' \<in> N" using i Crash by simp
  let ?n = "raft_New S ck (cfgs i') s"
  have cr: "crash (storage (node c i')) s" and c': "c' = (set_node i' (?n\<lparr>logged := logged (node c i') @ logged ?n\<rparr>) c)\<lparr>
      asking := filter (\<lambda>(j, _). j \<noteq> i') (asking c)\<rparr>"
    using a Crash by (auto simp: Let_def split: if_splits)
  have "logged ?n = []" using lg Crash by (simp add: c' set_node_def)
  moreover have "stored s (disk g i')" using crash_law [OF D(3) [OF N] cr] .
  moreover have "Log (view (disk g i')) \<noteq> []" using node_diskD(1,2) [OF D(2) [OF N]] by (auto simp: good_def)
  ultimately have "currentTerm ?n = dterm g i'" using raft_New_fresh(1) by (auto simp: fresh_def)
  then have "unat (currentTerm ?n) \<le> unat (currentTerm (node c i'))"
    using node_diskD(4) [OF D(2) [OF N]] by (simp add: word_le_nat_alt)
  then have "unat (currentTerm ?n) \<le> Suc k" using t N by (auto simp: terms_le_def intro: order_trans le_SucI)
  then show ?thesis using set_node_terms [OF t, of "?n\<lparr>logged := logged (node c i') @ logged ?n\<rparr>" i'] by (simp add: c' terms_le_def)
qed

section \<open>Reachable clusters\<close>

theorem reach_ok:
  assumes r: "raft_reach S crash cfgs N (raft_init S ck cfgs st) k c" and w: "well_configured N cfgs"
    and st: "\<And>i. i \<in> N \<Longrightarrow> stored (st i) None" and lg: "no_storage_errors N c" and k: "k < 2 ^ 64"
  shows "\<exists>g. cluster_ok stored N g c \<and> terms_le N k c"
  using r lg k
proof (induction rule: raft_reach.induct)
  case start
  have fin: "finite N" using w by (simp add: well_configured_def)
  have "node_ok N hist0 i (raft_New S ck (cfgs i) (st i)) \<and> fresh hist0 i (raft_New S ck (cfgs i) (st i)) \<and> storage (raft_New S ck (cfgs i) (st i)) = st i"
    if i: "i \<in> N" for i
  proof -
    have lg': "logged (raft_New S ck (cfgs i) (st i)) = []" using start(1) i by (simp add: no_storage_errors_def raft_init_def)
    have s: "stored (st i) (disk hist0 i)" "Log (view (disk hist0 i)) \<noteq> []" using st [OF i] by (simp_all add: hist0_def view_def)
    note F = raft_New_fresh [OF s(1) lg' s(2)]
    have "node_static N i (raft_New S ck (cfgs i) (st i))" using w i F(3,4) by (simp add: well_configured_def node_static_def)
    then show ?thesis using F node_ok_init by blast
  qed
  then have "cluster_ok stored N hist0 (raft_init S ck cfgs st) \<and> terms_le N 0 (raft_init S ck cfgs st)"
    using hist0_ok [OF fin] st
    by (auto simp: cluster_ok_def raft_init_def cand_ok_def fresh_def hist0_def terms_le_def dterm_def view_def)
  then show ?case by blast
next
  case (step k c a c')
  have "no_storage_errors N c"
    using step.prems(1) act_logged [OF step.hyps(3)] by (simp add: no_storage_errors_def)
  then obtain g where C: "cluster_ok stored N g c" "terms_le N k c" using step.IH step.prems(2) by auto
  have lg: "logged (node c' (actor a)) = []" using step.prems(1) step.hyps(2) by (simp add: no_storage_errors_def)
  have "currentTerm (node c i) < currentTerm (node c i) + 1" if "a = ElectionTimeout i ck" for i ck
  proof -
    have "unat (currentTerm (node c i)) \<le> k" using C(2) step.hyps(2) that by (simp add: terms_le_def)
    then have "unat (currentTerm (node c i) + 1) = Suc (unat (currentTerm (node c i)))"
      using step.prems(2) by (simp add: unat_word_ariths)
    then show ?thesis by (simp add: word_less_nat_alt)
  qed
  then obtain g' where "cluster_ok stored N g' c'" using act_ok [OF C(1) w step.hyps(2,3) lg] by blast
  then show ?case using act_terms [OF C step.hyps(2,3) lg] by blast
qed

section \<open>Consequences\<close>

lemma leaders_agree:
  assumes C: "cluster_ok stored N g c" and i: "i \<in> N" "rstate (node c i) = Leader" and j: "j \<in> N" "rstate (node c j) = Leader"
    and t: "currentTerm (node c i) = currentTerm (node c j)"
  shows "i = j"
proof -
  have "\<exists>l. won g (currentTerm (node c k)) = Some (k, l)" if "k \<in> N" "rstate (node c k) = Leader" for k
    using cluster_okD(2) [OF C that(1)] that(2) unfolding node_ok_def node_role_def lead_ok_def by blast
  from this [OF i] this [OF j] obtain l l' where
    w: "won g (currentTerm (node c i)) = Some (i, l)" "won g (currentTerm (node c j)) = Some (j, l')" by blast
  have "Some (i, l) = Some (j, l')" using w(1) unfolding t w(2) by (rule sym)
  then show ?thesis by simp
qed

lemma logs_match:
  assumes C: "cluster_ok stored N g c" and ij: "i \<in> N" "j \<in> N" and n: "n < length (rlog (node c i))" "n < length (rlog (node c j))"
    and t: "eTerm (rlog (node c i) ! n) = eTerm (rlog (node c j) ! n)"
  shows "take (Suc n) (rlog (node c i)) = take (Suc n) (rlog (node c j))"
  using good_match [OF node_diskD(1) [OF cluster_okD(2) [OF C ij(1)]] node_diskD(1) [OF cluster_okD(2) [OF C ij(2)]] n t] .

lemma applied_agree:
  assumes C: "cluster_ok stored N g c" and m: "(i, m) \<in> set (applied c)" "(j, m') \<in> set (applied c)" "CommandIndex m = CommandIndex m'"
  shows "MsgCommand m = MsgCommand m'"
proof -
  note D = cluster_okD [OF C]
  obtain t n where t: "(t, n) \<in> commits g" "CommandIndex m \<le> n" "MsgCommand m = Command (tlog g t ! CommandIndex m)"
    using D(12) [OF m(1)] by (auto simp: applied_ok_def)
  obtain t' n' where t': "(t', n') \<in> commits g" "CommandIndex m' \<le> n'" "MsgCommand m' = Command (tlog g t' ! CommandIndex m')"
    using D(12) [OF m(2)] by (auto simp: applied_ok_def)
  have "tlog g t ! CommandIndex m = tlog g t' ! CommandIndex m"
    using commits_agree [OF D(1) t(1) t'(1)] t(2) t'(2) m(3) by simp
  then show ?thesis using t(3) t'(3) m(3) by simp
qed

lemma leader_has_applied:
  assumes C: "cluster_ok stored N g c" and i: "i \<in> N" "rstate (node c i) = Leader"
    and top: "\<And>j. j \<in> N \<Longrightarrow> currentTerm (node c j) \<le> currentTerm (node c i)" and m: "(j, m) \<in> set (applied c)"
  shows "CommandIndex m < length (rlog (node c i)) \<and> Command (rlog (node c i) ! CommandIndex m) = MsgCommand m"
proof -
  note D = cluster_okD [OF C]
  obtain t n where t: "(t, n) \<in> commits g" "CommandIndex m \<le> n" "MsgCommand m = Command (tlog g t ! CommandIndex m)"
    using D(12) [OF m] by (auto simp: applied_ok_def)
  obtain p where p: "(p, t, n) \<in> acks g" "p \<in> N" "n < length (tlog g t)" using commit_acked [OF D(1) t(1)] by blast
  have "t \<le> dterm g p" using node_ackD(1) [OF D(2) [OF p(2)] p(1)] .
  also have "\<dots> \<le> currentTerm (node c p)" using node_diskD(4) [OF D(2) [OF p(2)]] .
  also have "\<dots> \<le> currentTerm (node c i)" using top [OF p(2)] .
  finally have le: "t \<le> currentTerm (node c i)" .
  have lo: "lead_ok N g i (node c i)" using D(2) [OF i(1)] i(2) by (simp add: node_ok_def node_role_def)
  then obtain l where w: "won g (currentTerm (node c i)) = Some (i, l)" and L: "rlog (node c i) = tlog g (currentTerm (node c i))"
    unfolding lead_ok_def by blast
  have h: "has g (rlog (node c i)) t n" unfolding L by (rule tlog_complete [OF D(1) t(1) w le])
  then show ?thesis using has_nth [OF h t(2) p(3)] t by (auto simp: has_def)
qed

text \<open>The shape of a node's state, and with it every slice access stays in range.\<close>

lemma node_shape:
  assumes C: "cluster_ok stored N g c" and i: "i \<in> N"
  shows "rlog (node c i) ! 0 = sentinel" "sorted (map eTerm (rlog (node c i)))" "\<forall>e \<in> set (rlog (node c i)). eTerm e \<le> currentTerm (node c i)"
    "lastApplied (node c i) \<le> commitIndex (node c i)" "commitIndex (node c i) < length (rlog (node c i))"
    "replicate_args (node c i) p \<noteq> Panic" "apply_next (node c i) \<noteq> Panic"
proof -
  let ?r = "node c i"
  note D = cluster_okD [OF C] and n = cluster_okD(2) [OF C i]
  have T: "terms_ok N g" using D(1) by (simp add: hist_ok_def)
  note G = node_diskD [OF n]
  show "rlog ?r ! 0 = sentinel" using G(1) by (simp add: good_def)
  show "sorted (map eTerm (rlog ?r))" using good_sorted [OF T G(1)] by (auto simp: sorted_iff_nth_mono)
  show "\<forall>e \<in> set (rlog ?r). eTerm e \<le> currentTerm ?r" using G(3,4) order_trans by blast
  show ci: "lastApplied ?r \<le> commitIndex ?r" "commitIndex ?r < length (rlog ?r)"
    using n by (auto simp: node_ok_def node_commit_def committed_upto_def)
  then show "apply_next ?r \<noteq> Panic" by (auto simp: apply_next_def Let_def)
  have "rlog ?r \<noteq> []" using G(1) by (simp add: good_def)
  then have len: "0 < length (rlog ?r)" by simp
  have nx: "nextIndex ?r p \<le> length (rlog ?r)" if "rstate ?r = Leader"
    using n that unfolding node_ok_def node_role_def lead_ok_def by blast
  show "replicate_args ?r p \<noteq> Panic"
  proof (cases "rstate ?r = Leader")
    case True
    have "(if nextIndex ?r p < 1 then 1 else nextIndex ?r p) - 1 < length (rlog ?r)" using nx [OF True] len by auto
    then show ?thesis using True by (simp add: replicate_args_def Let_def)
  qed (simp add: replicate_args_def)
qed

end

end
