(* ===== verification/Raft_Properties.thy ===== *)
theory Raft_Properties
  imports Raft_Safety
begin

text \<open>
  The safety of Raft for the nodes of \<open>internal/raft\<close> with \<open>FileStorage\<close>: for clusters of any size, any order,
  loss and repetition of messages, and crashes at any time, as long as no node has reported a storage error. The
  encoding of \<open>encoding/gob\<close> is a parameter of which only the round trip is used.
\<close>

section \<open>Running clusters\<close>

text \<open>A cluster after fewer than \<open>2\<^sup>64\<close> actions of its members, all started with empty storage. The bound keeps the
  64-bit terms from wrapping around.\<close>

definition raft_running ::
  "faults \<Rightarrow> gob_encoder \<Rightarrow> gob_decoder \<Rightarrow> string \<Rightarrow> (NodeID \<Rightarrow> RaftConfig) \<Rightarrow> NodeID set \<Rightarrow> dir cluster \<Rightarrow> bool" where
  "raft_running flt encode decode path cfgs N c \<longleftrightarrow> well_configured N cfgs \<and> gob_ok encode decode \<and> no_storage_errors N c \<and>
     (\<exists>ck st k. (\<forall>i \<in> N. file_settled (st i) path None) \<and> k < 2 ^ 64 \<and>
        raft_reach (file_storage flt encode decode path) (file_crash path) cfgs N
          (raft_init (file_storage flt encode decode path) ck cfgs st) k c)"

lemma running_ok:
  assumes "raft_running flt encode decode path cfgs N c"
  obtains g where "cluster_ok (file_stored encode decode path) N g c"
proof -
  obtain ck st k where r: "\<And>i. i \<in> N \<Longrightarrow> file_settled (st i) path None" "k < 2 ^ 64"
    "raft_reach (file_storage flt encode decode path) (file_crash path) cfgs N
       (raft_init (file_storage flt encode decode path) ck cfgs st) k c"
    using assms unfolding raft_running_def by blast
  have "file_stored encode decode path (st i) None" if "i \<in> N" for i
    using r(1) [OF that] assms by (simp add: file_stored_def raft_running_def)
  then show ?thesis
    using on_file.reach_ok [OF r(3) _ _ _ r(2)] assms that unfolding raft_running_def by blast
qed

subsection \<open>An example\<close>

text \<open>The size limit of files, computed with integers.\<close>

lemma file_Write_code [code]:
  "file_Write flt f buf =
     (case flt (SysWrite (fname f)) of
        Some (msg, k) \<Rightarrow> (f\<lparr>content := content f @ take k buf\<rparr>, Some (OsError msg))
      | None \<Rightarrow>
          if int (length (content f)) + int (length buf) > 9223372036854775807
          then (f, Some (OsError ''file too large''))
          else (f\<lparr>content := content f @ buf\<rparr>, None))"
  by (simp add: file_Write_def max_file_size_def)

text \<open>An encoding with the round trip: numbers in unary, each with an end mark.\<close>

definition put_nat :: "nat \<Rightarrow> bytes" where "put_nat n = replicate n 1 @ [0]"

fun get_nat :: "bytes \<Rightarrow> nat \<times> bytes" where
  "get_nat [] = (0, [])"
| "get_nat (b # bs) = (if b = 0 then (0, bs) else case get_nat bs of (n, rest) \<Rightarrow> (Suc n, rest))"

lemma get_put_nat [simp]: "get_nat (put_nat n @ rest) = (n, rest)"
  by (induction n) (simp_all add: put_nat_def)

definition put_entry :: "LogEntry \<Rightarrow> bytes" where
  "put_entry e = put_nat (unat (eTerm e)) @ put_nat (length (Command e)) @ Command e"

fun get_entries :: "nat \<Rightarrow> bytes \<Rightarrow> LogEntry list" where
  "get_entries 0 bs = []"
| "get_entries (Suc k) bs =
     (case get_nat bs of (t, bs1) \<Rightarrow> case get_nat bs1 of (n, bs2) \<Rightarrow>
        \<lparr>eTerm = of_nat t, Command = take n bs2\<rparr> # get_entries k (drop n bs2))"

lemma get_put_entries: "get_entries (length es) (concat (map put_entry es)) = es"
  by (induction es) (simp_all add: put_entry_def)

definition unary_encode :: gob_encoder where
  "unary_encode p =
     (if VotedFor p < - 1 then Inl (Errorf ''vote'')
      else Inr (put_nat (unat (CurrentTerm p)) @ put_nat (nat (VotedFor p + 1)) @ put_nat (length (Log p)) @ concat (map put_entry (Log p))))"

definition unary_decode :: gob_decoder where
  "unary_decode bs =
     (case get_nat bs of (t, bs1) \<Rightarrow> case get_nat bs1 of (v, bs2) \<Rightarrow> case get_nat bs2 of (k, bs3) \<Rightarrow>
        Inr \<lparr>CurrentTerm = of_nat t, VotedFor = int v - 1, Log = get_entries k bs3\<rparr>)"

lemma unary_ok: "gob_ok unary_encode unary_decode"
  by (auto simp: gob_ok_def unary_encode_def unary_decode_def get_put_entries split: if_splits)

text \<open>Three nodes, a run in which node 1 is elected and commits a command, and the cluster after it.\<close>

definition clock0 :: clock where "clock0 = (0, \<lambda>_. 0)"

definition three :: "NodeID \<Rightarrow> RaftConfig" where
  "three i = \<lparr>ID = i, Peers = filter (\<lambda>p. p \<noteq> i) [1, 2, 3], HeartbeatInterval = 0, ElectionTimeoutMin = 0, ElectionTimeoutMax = 0\<rparr>"

lemma three_configured: "well_configured {1, 2, 3} three"
  by (auto simp: well_configured_def three_def NoNode_def)

abbreviation empty_dir :: dir where "empty_dir \<equiv> \<lparr>live = Map.empty, stable = Map.empty\<rparr>"

definition ask :: "NodeID \<Rightarrow> RequestVoteArgs" where
  "ask i = \<lparr>rvTerm = 1, CandidateID = i, LastLogIndex = 0, LastLogTerm = 0\<rparr>"

definition push :: AppendEntriesArgs where
  "push = \<lparr>aeTerm = 1, LeaderID = 1, PrevLogIndex = 0, PrevLogTerm = 0, Entries = [\<lparr>eTerm = 1, Command = [7]\<rparr>], LeaderCommit = 0\<rparr>"

definition demo_run :: "dir raft_action list" where
  "demo_run =
    [ElectionTimeout 1 clock0, DeliverVote 2 (ask 1) clock0, ReceiveVote 1 2 (ask 1) \<lparr>rvrTerm = 1, VoteGranted = True\<rparr> clock0,
     Propose 1 [7], SendAppend 1 2, DeliverAppend 2 push clock0,
     ReceiveAppend 1 2 push \<lparr>aerTerm = 1, Success = True, ConflictIndex = 0\<rparr> clock0, Apply 1]"

definition unary_file :: "faults \<Rightarrow> dir Storage" where
  "unary_file flt = file_storage flt unary_encode unary_decode ''raft.state''"

text \<open>To evaluate a run it is enough to know some of the crashes that are possible.\<close>

lemma raft_run_crash:
  assumes "\<And>d s. cr d s \<Longrightarrow> crash d s" "raft_run S cr cfgs as c = Some c'"
  shows "raft_run S crash cfgs as c = Some c'"
  using assms(2)
proof (induction as arbitrary: c)
  case (Cons a as)
  then obtain c1 where c1: "raft_act S cr cfgs a c = Some c1" "raft_run S cr cfgs as c1 = Some c'" by (auto split: option.splits)
  then have "raft_act S crash cfgs a c = Some c1" using assms(1) by (cases a) (auto simp: Let_def split: if_splits)
  then show ?case using Cons.IH c1(2) by simp
qed simp

definition demo_cluster :: "dir cluster option" where
  "demo_cluster = raft_run (unary_file no_faults) (\<lambda>_ _. False) three demo_run (raft_init (unary_file no_faults) clock0 three (\<lambda>_. empty_dir))"

definition demo_facts :: "dir cluster \<Rightarrow> bool" where
  "demo_facts c \<longleftrightarrow> rstate (node c 1) = Leader \<and> (logged (node c 1) = [] \<and> logged (node c 2) = [] \<and> logged (node c 3) = []) \<and>
     map (\<lambda>i. currentTerm (node c i)) [1, 2, 3] = [1, 1, 0] \<and>
     rlog (node c 1) = [sentinel, \<lparr>eTerm = 1, Command = [7]\<rparr>] \<and> rlog (node c 2) = [sentinel, \<lparr>eTerm = 1, Command = [7]\<rparr>] \<and>
     applied c = [(1, \<lparr>CommandValid = True, MsgCommand = [7], CommandIndex = 1\<rparr>)]"

lemma demo_eval: "map_option demo_facts demo_cluster = Some True"
  by code_simp

lemma demo:
  obtains c where "raft_running no_faults unary_encode unary_decode ''raft.state'' three {1, 2, 3} c" "demo_facts c"
proof -
  obtain c where c: "demo_cluster = Some c" "demo_facts c" using demo_eval by auto
  let ?S = "file_storage no_faults unary_encode unary_decode ''raft.state''"
  have "raft_run ?S (file_crash ''raft.state'') three demo_run (raft_init ?S clock0 three (\<lambda>_. empty_dir)) = Some c"
    using raft_run_crash [of "\<lambda>_ _. False" "file_crash ''raft.state''"] c(1) by (simp add: demo_cluster_def unary_file_def)
  from raft_run_reach [OF raft_reach.start this, of "{1, 2, 3}"]
  have "raft_reach ?S (file_crash ''raft.state'') three {1, 2, 3} (raft_init ?S clock0 three (\<lambda>_. empty_dir)) 8 c"
    by (simp add: demo_run_def numeral_eq_Suc)
  moreover have "file_settled empty_dir ''raft.state'' None" by (simp add: file_settled_def)
  moreover have "no_storage_errors {1, 2, 3} c" using c(2) by (simp add: no_storage_errors_def demo_facts_def)
  ultimately have "raft_running no_faults unary_encode unary_decode ''raft.state'' three {1, 2, 3} c"
    unfolding raft_running_def using three_configured unary_ok by (intro conjI exI [of _ clock0] exI [of _ "\<lambda>_. empty_dir"] exI [of _ 8]) auto
  then show ?thesis using that c(2) by blast
qed

section \<open>Safety\<close>

text \<open>C4: election safety. In no reachable cluster are two nodes leaders of the same term, whatever messages were lost,
  repeated or reordered and whichever nodes crashed and restarted.\<close>

theorem election_safety:
  assumes "raft_running flt encode decode path cfgs N c" "i \<in> N" "j \<in> N"
    and "rstate (node c i) = Leader" "rstate (node c j) = Leader" "currentTerm (node c i) = currentTerm (node c j)"
  shows "i = j"
proof -
  obtain g where "cluster_ok (file_stored encode decode path) N g c" using running_ok [OF assms(1)] .
  then show ?thesis using on_file.leaders_agree [OF _ assms(2,4,3,5,6)] by blast
qed

theorem election_safety_witness:
  "\<exists>c. raft_running no_faults unary_encode unary_decode ''raft.state'' three {1, 2, 3} c \<and> rstate (node c 1) = Leader \<and>
    currentTerm (node c 1) = 1 \<and> currentTerm (node c 2) = 1 \<and> rstate (node c 2) \<noteq> Leader"
proof -
  obtain c :: "dir cluster" where c: "raft_running no_faults unary_encode unary_decode ''raft.state'' three {1, 2, 3} c" "demo_facts c"
    using demo .
  have "rstate (node c 2) \<noteq> Leader"
    using election_safety [OF c(1), of 1 2] c(2) by (auto simp: demo_facts_def)
  then show ?thesis using c by (intro exI [of _ c]) (simp add: demo_facts_def)
qed

text \<open>C3: state machine safety. Whatever any two nodes have ever handed to their state machines at the same index,
  before or after crashes, is the same command.\<close>

theorem state_machine_safety:
  assumes "raft_running flt encode decode path cfgs N c" "(i, m) \<in> set (applied c)" "(j, m') \<in> set (applied c)"
    and "CommandIndex m = CommandIndex m'"
  shows "MsgCommand m = MsgCommand m'"
proof -
  obtain g where "cluster_ok (file_stored encode decode path) N g c" using running_ok [OF assms(1)] .
  then show ?thesis using on_file.applied_agree [OF _ assms(2-4)] by blast
qed

theorem state_machine_safety_witness:
  "\<exists>c m. raft_running no_faults unary_encode unary_decode ''raft.state'' three {1, 2, 3} c \<and> (1, m) \<in> set (applied c) \<and> MsgCommand m = [7]"
proof -
  obtain c :: "dir cluster" where c: "raft_running no_faults unary_encode unary_decode ''raft.state'' three {1, 2, 3} c" "demo_facts c"
    using demo .
  obtain m where m: "(1, m) \<in> set (applied c)" "CommandIndex m = 1" using c(2) by (auto simp: demo_facts_def)
  have "MsgCommand m = [7]"
    using state_machine_safety [OF c(1) m(1), of 1 "\<lparr>CommandValid = True, MsgCommand = [7], CommandIndex = 1\<rparr>"] c(2) m(2)
    by (simp add: demo_facts_def)
  then show ?thesis using c(1) m(1) by blast
qed

text \<open>C5: committed commands are never lost. A leader whose term is the highest in the cluster has in its log, at the
  same index, every command that any node ever applied.\<close>

theorem leader_keeps_committed:
  assumes "raft_running flt encode decode path cfgs N c" "i \<in> N" "rstate (node c i) = Leader"
    and "\<forall>j \<in> N. currentTerm (node c j) \<le> currentTerm (node c i)" "(j, m) \<in> set (applied c)"
  shows "CommandIndex m < length (rlog (node c i)) \<and> Command (rlog (node c i) ! CommandIndex m) = MsgCommand m"
proof -
  obtain g where "cluster_ok (file_stored encode decode path) N g c" using running_ok [OF assms(1)] .
  then show ?thesis using on_file.leader_has_applied [OF _ assms(2,3) _ assms(5)] assms(4) by blast
qed

theorem leader_keeps_committed_witness:
  "\<exists>c. raft_running no_faults unary_encode unary_decode ''raft.state'' three {1, 2, 3} c \<and> rstate (node c 1) = Leader \<and>
    1 < length (rlog (node c 1)) \<and> Command (rlog (node c 1) ! 1) = [7]"
proof -
  obtain c :: "dir cluster" where c: "raft_running no_faults unary_encode unary_decode ''raft.state'' three {1, 2, 3} c" "demo_facts c"
    using demo .
  have t: "\<forall>j \<in> {1, 2, 3}. currentTerm (node c j) \<le> currentTerm (node c 1)" using c(2) by (simp add: demo_facts_def)
  have "1 < length (rlog (node c 1)) \<and> Command (rlog (node c 1) ! 1) = [7]"
    using leader_keeps_committed [OF c(1) _ _ t, of 1 "\<lparr>CommandValid = True, MsgCommand = [7], CommandIndex = 1\<rparr>"] c(2)
    by (simp add: demo_facts_def)
  then show ?thesis using c by (intro exI [of _ c]) (simp add: demo_facts_def)
qed

text \<open>C35: log matching. Two logs whose entries at an index have the same term are equal up to that index.\<close>

theorem log_matching:
  assumes "raft_running flt encode decode path cfgs N c" "i \<in> N" "j \<in> N" "n < length (rlog (node c i))" "n < length (rlog (node c j))"
    and "eTerm (rlog (node c i) ! n) = eTerm (rlog (node c j) ! n)"
  shows "take (n + 1) (rlog (node c i)) = take (n + 1) (rlog (node c j))"
proof -
  obtain g where "cluster_ok (file_stored encode decode path) N g c" using running_ok [OF assms(1)] .
  then show ?thesis using on_file.logs_match [OF _ assms(2-6)] by simp
qed

theorem log_matching_witness:
  "\<exists>c. raft_running no_faults unary_encode unary_decode ''raft.state'' three {1, 2, 3} c \<and> length (rlog (node c 1)) = 2 \<and>
    take 2 (rlog (node c 1)) = take 2 (rlog (node c 2))"
proof -
  obtain c :: "dir cluster" where c: "raft_running no_faults unary_encode unary_decode ''raft.state'' three {1, 2, 3} c" "demo_facts c"
    using demo .
  have "take (1 + 1) (rlog (node c 1)) = take (1 + 1) (rlog (node c 2))"
    by (rule log_matching [OF c(1)]) (use c(2) in \<open>simp_all add: demo_facts_def\<close>)
  then show ?thesis using c by (intro exI [of _ c]) (simp add: demo_facts_def)
qed

text \<open>C36: the state of a node is well formed in every reachable cluster. Its log begins with the sentinel, its terms
  never decrease and never exceed the current term, \<open>lastApplied\<close> and \<open>commitIndex\<close> stay inside the log, and no slice
  access of \<open>replicateTo\<close> or \<open>applyLoop\<close> is out of range.\<close>

theorem raft_state_well_formed:
  assumes "raft_running flt encode decode path cfgs N c" "i \<in> N"
  shows "rlog (node c i) ! 0 = sentinel \<and> sorted (map eTerm (rlog (node c i))) \<and>
    (\<forall>e \<in> set (rlog (node c i)). eTerm e \<le> currentTerm (node c i)) \<and>
    lastApplied (node c i) \<le> commitIndex (node c i) \<and> commitIndex (node c i) < length (rlog (node c i)) \<and>
    replicate_args (node c i) p \<noteq> Panic \<and> apply_next (node c i) \<noteq> Panic"
proof -
  obtain g where "cluster_ok (file_stored encode decode path) N g c" using running_ok [OF assms(1)] .
  note shape = on_file.node_shape [OF this assms(2)]
  show ?thesis by (intro conjI shape)
qed

theorem raft_state_well_formed_witness:
  "\<exists>c. raft_running no_faults unary_encode unary_decode ''raft.state'' three {1, 2, 3} c \<and> rlog (node c 2) ! 0 = sentinel \<and>
    commitIndex (node c 2) < length (rlog (node c 2)) \<and> replicate_args (node c 1) 3 \<noteq> Panic"
proof -
  obtain c :: "dir cluster" where c: "raft_running no_faults unary_encode unary_decode ''raft.state'' three {1, 2, 3} c" using demo .
  then show ?thesis using raft_state_well_formed [OF c, of 2 3] raft_state_well_formed [OF c, of 1 3] by blast
qed

section \<open>Storage\<close>

text \<open>C37: saving the state of a node is atomic under crashes. At every point of \<open>Save\<close>, also after a step that failed, a
  node that restarts loads the state saved before or the one being saved; once \<open>Save\<close> has succeeded it loads the new one.\<close>

theorem raft_save_is_atomic:
  assumes "file_stored encode decode path d x" "file_Save flt encode path d p = (ds, err)" "d' \<in> set ds"
    and "file_crash path d' d''" "rflt (SysOpen path) = None"
  shows "file_Load rflt decode path d'' \<in> {Inr x, Inr (Some p)} \<and>
    (err = None \<longrightarrow> d' = hd ds \<longrightarrow> file_Load rflt decode path d'' = Inr (Some p))"
proof -
  obtain r where r: "crash_read d' path r" "file_settled d'' path r" using assms(4) by (auto simp: file_crash_def)
  have ld: "file_Load rflt decode path d'' = Inr y" if "file_stored encode decode path d'' y" for y
    using that assms(5)
    by (auto simp: file_Load_def file_stored_def file_settled_def gob_ok_def split: option.splits)
  have gob: "gob_ok encode decode" using assms(1) by (simp add: file_stored_def)
  obtain v where v: "file_settled d path v" "v = None \<and> x = None \<or> (\<exists>q b. x = Some q \<and> encode q = Inr b \<and> v = Some b)"
    using assms(1) by (cases x) (auto simp: file_stored_def)
  have "r = v \<or> (\<exists>b. encode p = Inr b \<and> r = Some b)" using file_Save_crash [OF v(1), of d' flt encode p r] assms(2,3) r(1) by simp
  then have "file_stored encode decode path d'' x \<or> file_stored encode decode path d'' (Some p)"
    using v(2) r(2) gob by (auto simp: file_stored_def)
  moreover have "file_stored encode decode path d'' (Some p)" if ok: "err = None" "d' = hd ds"
  proof -
    obtain b where b: "encode p = Inr b" "file_settled (hd ds) path (Some b)" using file_Save_ok [of flt encode path d p ds] assms(2) ok by auto
    then have "r = Some b" using crash_read_settled [OF b(2), of r] r(1) ok(2) by simp
    then show ?thesis using r(2) b(1) gob by (simp add: file_stored_def)
  qed
  ultimately show ?thesis using ld by blast
qed

theorem raft_save_is_atomic_witness:
  "\<exists>ds. file_Save no_faults unary_encode ''raft.state'' empty_dir \<lparr>CurrentTerm = 3, VotedFor = 2, Log = [sentinel]\<rparr> = (ds, None) \<and>
    file_Load no_faults unary_decode ''raft.state'' (hd ds) = Inr (Some \<lparr>CurrentTerm = 3, VotedFor = 2, Log = [sentinel]\<rparr>)"
proof -
  let ?p = "\<lparr>CurrentTerm = 3, VotedFor = 2, Log = [sentinel]\<rparr>"
  obtain b where b: "unary_encode ?p = Inr b" "length b \<le> max_file_size"
    by (simp add: unary_encode_def put_nat_def put_entry_def sentinel_def max_file_size_def)
  obtain ds where ds: "file_Save no_faults unary_encode ''raft.state'' empty_dir ?p = (ds, None)" "ds \<noteq> []"
    using b by (simp add: file_Save_def Let_def file_Write_def file_Sync_def file_Close_def fsyncDir_def no_faults_def)
  obtain b' where b': "file_settled (hd ds) ''raft.state'' (Some b')" using file_Save_ok [OF ds(1)] by blast
  then have "file_crash ''raft.state'' (hd ds) (hd ds)" using crash_read_settled [OF b'] by (auto simp: file_crash_def)
  moreover have "file_stored unary_encode unary_decode ''raft.state'' empty_dir None"
    using unary_ok by (simp add: file_stored_def file_settled_def)
  ultimately have "file_Load no_faults unary_decode ''raft.state'' (hd ds) = Inr (Some ?p)"
    using raft_save_is_atomic [OF _ ds(1), of unary_decode None "hd ds" "hd ds" no_faults] ds(2) by (simp add: no_faults_def)
  then show ?thesis using ds(1) by blast
qed

end
