(* ===== verification/Raft_Faults.thy ===== *)
theory Raft_Faults
  imports Raft_Properties
begin

text \<open>
  Two ways in which the nodes of \<open>internal/raft\<close> fall short: a cluster of one node never gets a leader, and a node
  whose storage fails goes on granting votes that it forgets when it restarts.
\<close>

section \<open>A single node\<close>

text \<open>Nothing is ever sent in a cluster of one.\<close>

definition alone :: "NodeID \<Rightarrow> 's cluster \<Rightarrow> bool" where
  "alone i c \<longleftrightarrow> peers (node c i) = [] \<and> rstate (node c i) \<noteq> Leader \<and> vote_reqs c = [] \<and> vote_reps c = [] \<and> app_reqs c = [] \<and> app_reps c = []"

lemma persist_peers: "startElection S ck r = (r', args) \<Longrightarrow> peers r' = peers r \<and> rstate r' = Candidate"
  by (auto simp: startElection_def Let_def split: prod.splits)

lemma raft_New_alone: "peers (raft_New S ck c s) = Peers c" "rstate (raft_New S ck c s) = Follower"
  by (auto simp: raft_New_def loadPersistedState_def Let_def split: sum.splits option.splits)

lemma alone_act:
  assumes "alone i c" "Peers (cfgs i) = []" "actor a = i" "raft_act S crash cfgs a c = Some c'"
  shows "alone i c'"
proof (cases a)
  case (ElectionTimeout i' ck)
  obtain r' args where h: "startElection S ck (node c i) = (r', args)" by fastforce
  then show ?thesis using assms persist_peers [OF h] ElectionTimeout by (auto simp: alone_def)
next
  case (Propose i' command)
  then show ?thesis using assms by (auto simp: alone_def Start_def)
next
  case (Apply i')
  then obtain r' msg where "apply_next (node c i) = Ret (Some (r', msg))" "c' = (set_node i r' c)\<lparr>applied := (i, msg) # applied c\<rparr>"
    using assms(3,4) by (auto split: go.splits option.splits)
  then show ?thesis using assms(1) by (auto simp: alone_def apply_next_def Let_def split: if_splits)
next
  case (Crash i' s ck)
  then show ?thesis using assms by (auto simp: alone_def Let_def raft_New_alone split: if_splits)
qed (use assms in \<open>auto simp: alone_def broadcastAppendEntries_def split: if_splits\<close>)

text \<open>C39: a cluster of one node never has a leader. Its candidate holds a majority, its own vote, but \<open>startElection\<close>
  compares the votes with the majority only when a peer has answered. So no sequence of events makes \<open>Start\<close> accept a
  command.\<close>

theorem single_node_never_leads:
  assumes "Peers (cfgs i) = []" "raft_reach S crash cfgs {i} (raft_init S ck cfgs st) k c"
  shows "rstate (node c i) \<noteq> Leader \<and> majority (node c i) = 1 \<and> Start S command (node c i) = (node c i, 0, currentTerm (node c i), False)"
proof -
  have "alone i c"
    using assms(2)
  proof (induction rule: raft_reach.induct)
    case start
    then show ?case using assms(1) by (simp add: alone_def raft_init_def raft_New_alone)
  next
    case (step k c a c')
    then show ?case using alone_act [of i c cfgs a S crash c'] assms(1) by simp
  qed
  then show ?thesis by (simp add: alone_def majority_def clusterSize_def Start_def)
qed

definition one :: "NodeID \<Rightarrow> RaftConfig" where
  "one i = \<lparr>ID = i, Peers = [], HeartbeatInterval = 0, ElectionTimeoutMin = 0, ElectionTimeoutMax = 0\<rparr>"

theorem single_node_never_leads_witness:
  "\<exists>c. raft_act memory_storage (=) one (ElectionTimeout 1 clock0) (raft_init memory_storage clock0 one (\<lambda>_. None)) = Some c \<and>
    rstate (node c 1) = Candidate \<and> votes c 1 1 = 1 \<and> majority (node c 1) = 1 \<and> rstate (node c 1) \<noteq> Leader"
proof -
  let ?c0 = "raft_init memory_storage clock0 one (\<lambda>_. None)"
  have e: "map_option (\<lambda>c. rstate (node c 1) = Candidate \<and> votes c 1 1 = 1)
      (raft_act memory_storage (=) one (ElectionTimeout 1 clock0) ?c0) = Some True" by code_simp
  then obtain c where c: "raft_act memory_storage (=) one (ElectionTimeout 1 clock0) ?c0 = Some c" "rstate (node c 1) = Candidate" "votes c 1 1 = 1"
    by (auto simp del: raft_act.simps)
  have "raft_reach memory_storage (=) one {1} ?c0 (Suc 0) c"
    using raft_reach.step [OF raft_reach.start _ c(1), of "{1}"] by simp
  from single_node_never_leads [OF _ this, of "[]"] c show ?thesis by (auto simp: one_def simp del: raft_act.simps)
qed

section \<open>Failing storage\<close>

text \<open>Every sync fails, and a crash that finds no state file leaves none.\<close>

definition sync_fails :: faults where
  "sync_fails call = (case call of SysSync f \<Rightarrow> Some (''input/output error'', 0) | _ \<Rightarrow> None)"

definition nothing_saved :: "dir \<Rightarrow> dir \<Rightarrow> bool" where
  "nothing_saved d d' \<longleftrightarrow> live d ''raft.state'' = None \<and> stable d ''raft.state'' = None \<and>
     live d' ''raft.state'' = None \<and> stable d' ''raft.state'' = None"

lemma nothing_saved_crash: "nothing_saved d d' \<Longrightarrow> file_crash ''raft.state'' d d'"
  by (auto simp: nothing_saved_def file_crash_def crash_read_def file_settled_def intro: exI [of _ None])

definition split_run :: "dir raft_action list" where
  "split_run =
    [ElectionTimeout 1 clock0, DeliverVote 2 (ask 1) clock0, ReceiveVote 1 2 (ask 1) \<lparr>rvrTerm = 1, VoteGranted = True\<rparr> clock0,
     Crash 2 empty_dir clock0,
     ElectionTimeout 3 clock0, DeliverVote 2 (ask 3) clock0, ReceiveVote 3 2 (ask 3) \<lparr>rvrTerm = 1, VoteGranted = True\<rparr> clock0]"

definition split_facts :: "dir cluster \<Rightarrow> bool" where
  "split_facts c \<longleftrightarrow> rstate (node c 1) = Leader \<and> rstate (node c 3) = Leader \<and> currentTerm (node c 1) = 1 \<and> currentTerm (node c 3) = 1"

lemma split_eval:
  "map_option split_facts (raft_run (unary_file sync_fails) nothing_saved three split_run
     (raft_init (unary_file sync_fails) clock0 three (\<lambda>_. empty_dir))) = Some True"
  by code_simp

text \<open>C38: a vote that could not be saved elects two leaders. When the sync of the state file fails, \<open>persistLocked\<close> only
  logs the error and the vote is granted all the same. Node 2 votes for node 1, crashes, has forgotten the vote, and votes
  for node 3 in the same term: nodes 1 and 3 are both leaders of term 1.\<close>

theorem unsaved_vote_elects_two_leaders:
  "\<exists>c. raft_reach (file_storage sync_fails unary_encode unary_decode ''raft.state'') (file_crash ''raft.state'') three {1, 2, 3}
      (raft_init (file_storage sync_fails unary_encode unary_decode ''raft.state'') clock0 three (\<lambda>_. empty_dir)) 7 c
    \<and> rstate (node c 1) = Leader \<and> rstate (node c 3) = Leader \<and> currentTerm (node c 1) = 1 \<and> currentTerm (node c 3) = 1"
proof -
  obtain c where c: "raft_run (unary_file sync_fails) nothing_saved three split_run
      (raft_init (unary_file sync_fails) clock0 three (\<lambda>_. empty_dir)) = Some c" "split_facts c" using split_eval by auto
  have "raft_run (unary_file sync_fails) (file_crash ''raft.state'') three split_run
      (raft_init (unary_file sync_fails) clock0 three (\<lambda>_. empty_dir)) = Some c"
    using raft_run_crash [OF nothing_saved_crash c(1)] .
  from raft_run_reach [OF raft_reach.start this, of "{1, 2, 3}"] c(2) show ?thesis
    by (intro exI [of _ c]) (simp add: split_run_def split_facts_def unary_file_def numeral_eq_Suc)
qed

end
