(* ===== verification/Spec2Isabelle.thy ===== *)
theory Spec2Isabelle
  imports Prelude Checksum Index_Store Wal_Reader Wal_Writer Wal_Recovery Group_Commit Wal_Properties Wal_Faults Protocol Consumer_Offset
    Segment Manager Restart Log_Interface Log_Properties Log_Faults Server Client Network_Properties Raft_Properties Raft_Faults
begin

text \<open>
  A verification library for the distributed WAL-based event log engine, a Go program in \<open>src/\<close>.

  \<^bold>\<open>The program.\<close> Producers append opaque byte records to a log and consumers read them back by offset. A write-ahead
  log file (\<open>internal/wal\<close>) stores records with a length and a checksum (\<open>internal/checksum\<close>); a sparse index file
  (\<open>internal/inmemorystore\<close>) maps some offsets to byte positions and shortens reads and recovery. A segment
  (\<open>internal/segment/segment.go\<close>) is one such pair of files; the manager (\<open>manager.go\<close>) strings segments together, rolls to a
  new one when the last is full, and deletes old ones by age. Consumers keep a cursor (\<open>reader.go\<close>) and commit their
  offset to a file (\<open>internal/consumeroffset\<close>). A TCP server (\<open>internal/network\<close>) and a client (\<open>client\<close>) carry the calls over
  the protocol of \<open>internal/protocol\<close>. A Raft implementation (\<open>internal/raft\<close>) replicates commands between nodes; it is not
  connected to the log yet.

  \<^bold>\<open>Theories and code.\<close>
  \<^item> \<open>Prelude\<close>: machine integers, byte slices, big-endian codecs, \<open>sort.Search\<close>, error values, files. A file has contents
    and the prefix that is certain to survive a crash. System calls consult a fault schedule, an argument of the operations,
    so that each of them can fail.
  \<^item> \<open>Checksum\<close>: \<open>internal/checksum\<close>. CRC32C, CRC32, CRC64, Adler-32 and FNV are computed bit for bit; MD5, SHA-1 and
    SHA-256 are functions of the caller, of which the theorems use the width only. Locales \<open>checksum_alg\<close>, \<open>byte_sensitive\<close> and \<open>crc_poly\<close>.
  \<^item> \<open>Index_Store\<close>: \<open>internal/inmemorystore/store.go\<close>, with the locale \<open>checkpoint_index\<close> for what the log needs of an index.
  \<^item> \<open>Wal_Reader\<close>, \<open>Wal_Writer\<close>, \<open>Wal_Recovery\<close>: \<open>wal_reader.go\<close> and \<open>wal_writer.go\<close>, one definition per method; \<open>recover\<close>
    and the crash images it starts from. \<open>Group_Commit\<close>: any number of goroutines inside \<open>Write\<close>, as the step relation
    \<open>gc_step\<close>, one step per critical section. \<open>Wal_Properties\<close> and \<open>Wal_Faults\<close>: the properties.
  \<^item> \<open>Segment\<close>, \<open>Manager\<close>, \<open>Restart\<close>: \<open>segment.go\<close> and \<open>manager.go\<close>. The directory is an association list from names to
    files. \<open>Log_Interface\<close>: \<open>ManagerInterface\<close> as a record of operations, the locale \<open>log_manager\<close> with the laws its users rely
    on, interpreted for the manager, and the cursor of \<open>reader.go\<close>. \<open>Log_Properties\<close> and \<open>Log_Faults\<close>.
  \<^item> \<open>Atomic_File\<close>, \<open>Consumer_Offset\<close>: directories under crashes and \<open>internal/consumeroffset\<close>.
  \<^item> \<open>Protocol\<close>, \<open>Server\<close>, \<open>Client\<close>, \<open>Network_Properties\<close>: framing, the request loop and its handlers, the remote calls. The
    server works on any manager of the locale \<open>log_manager\<close>; the client talks to a peer given as a function.
  \<^item> \<open>Raft_Storage\<close>, \<open>Raft_Node\<close>: \<open>storage.go\<close>, \<open>raft.go\<close> and \<open>rpc.go\<close>, one definition per critical section.
    \<open>Raft_Cluster\<close>: the cluster as actions of its nodes. \<open>Raft_History\<close>, \<open>Raft_Steps\<close>, \<open>Raft_Moves\<close>, \<open>Raft_Commit\<close>,
    \<open>Raft_Invariant\<close>, \<open>Raft_Handlers\<close>, \<open>Raft_Actions\<close>, \<open>Raft_Safety\<close>: the invariant and its preservation, in the locale
    \<open>stable_storage\<close>, interpreted for \<open>MemoryStorage\<close> and \<open>FileStorage\<close>. \<open>Raft_Properties\<close> and \<open>Raft_Faults\<close>.

  \<^bold>\<open>What is shown.\<close>
  \<^item> The write-ahead log: an acknowledged record reads back at its offset, also after any later crash and in every
    interleaving of writers; one goroutine leads a flush and none is stuck; the index never runs ahead of the durable
    records; recovery returns on any bytes and keeps exactly the complete records; damage to a byte is reported.
  \<^item> The segmented log refines an abstract list of records under every sequence of operations; acknowledged appends survive a
    crash and reopening; retention deletes only an expired prefix; a cursor
    returns every record once.
  \<^item> Consumers: a commit is atomic under crashes.
  \<^item> The network: what is produced is read back, a stream delivers the rest of the log, and no input stops the server.
  \<^item> Raft: one leader per term, matching logs, no applied command is lost or contradicted, states stay well formed.
  \<^item> Where the code falls short of this, the theories \<open>Wal_Faults\<close>, \<open>Log_Faults\<close> and \<open>Raft_Faults\<close>, and theorems in
    \<open>Consumer_Offset\<close> and \<open>Network_Properties\<close>, prove it with a concrete sequence of events.

  \<^bold>\<open>Bounds and termination.\<close> Loops that read a file or a connection terminate by a measure, the bytes left. \<open>commitLocked\<close>,
  \<open>stream_loop\<close>, \<open>handleConn\<close> and the deletion of segments are partial functions into \<open>option\<close>, and the theorems about them
  show that they return. Offsets and terms are 64-bit words that wrap; the theorems assume fewer than \<open>2\<^sup>64\<close> records or actions.
  Byte positions are \<open>int64\<close> values, and the files are at most \<open>2\<^sup>63 - 1\<close> bytes long, as the operating system
  enforces.

  \<^bold>\<open>Not modelled.\<close> A mutex is modelled by treating what it protects as one step; the scheduler, timers and sockets by letting
  them act at any time, in any order, with any outcome. The encoding of \<open>encoding/gob\<close> and the digests of MD5 and SHA are
  parameters. \<open>log.Printf\<close> has no effect, except that Raft keeps a list of the storage errors it reports. A failed
  opening of a segment does not report the truncations it made before it failed. The other programs under \<open>cmd/\<close> parse
  flags, call the packages above, sleep and print; the benchmark measures time and memory and computes with floating
  point numbers; none of them keeps state of its own, and they have no definitions here.
\<close>

end
